(* ===== verification/Hcp_Prelude.thy ===== *)
theory Hcp_Prelude
  imports Main "HOL-Library.Word" "HOL-Library.Monad_Syntax"
begin

unbundle bit_operations_syntax

text \<open>
  Shared vocabulary of the development.

  The program runs on Linux and answers every violated assertion with
  \<open>LOG(FATAL)\<close>, which aborts the process (\<open>src/src/check.h\<close>).  An operation of the
  model is a function into \<open>option\<close>: \<open>None\<close> means that the process aborted at a
  \<open>CHECK\<close>, dereferenced a null or freed pointer, or never came back from a loop.  So
  \<open>f x = Some y\<close> always states that \<open>f\<close> returns and that no assertion on the way failed.

  Objects have an identity of type \<open>addr\<close> and a pointer is an \<open>addr option\<close>
  with \<open>None\<close> for \<open>nullptr\<close>.  Bytes are characters, byte strings are \<open>string\<close>.  Times
  are ticks of \<open>std::chrono::steady_clock\<close> (nanoseconds) as integers.
\<close>

type_synonym addr = nat
type_synonym ptr = "addr option"
type_synonym fd = int
type_synonym errno = int
type_synonym time = int
type_synonym duration = int
type_synonym epoll_events = "32 word"

named_theorems run_defs \<open>definitions of operations, unfolded to execute them symbolically\<close>
named_theorems spec_intros \<open>introduction rules for invariants\<close>

section \<open>Assertions\<close>

text \<open>\<open>CHECK(cond)\<close>: nothing when the condition holds, \<open>LOG(FATAL)\<close> otherwise.\<close>

definition CHECK :: "bool \<Rightarrow> unit option" where
  "CHECK cond = (if cond then Some () else None)"

lemma CHECK_True [simp]: "CHECK True = Some ()"
  by (simp add: CHECK_def)

lemma CHECK_False [simp]: "CHECK False = None"
  by (simp add: CHECK_def)

lemma bind_CHECK [simp]: "Option.bind (CHECK b) f = (if b then f () else None)"
  by (simp add: CHECK_def)

lemma CHECK_eq_Some [simp]: "CHECK b = Some u \<longleftrightarrow> b"
  by (simp add: CHECK_def)

text \<open>Dereferencing: a pointer into a heap, null and dangling pointers giving \<open>None\<close>.\<close>

definition deref :: "(addr \<rightharpoonup> 'a) \<Rightarrow> ptr \<Rightarrow> 'a option" where
  "deref h p = Option.bind p h"

lemma deref_simps [simp]:
  "deref h None = None"
  "deref h (Some a) = h a"
  by (simp_all add: deref_def)

section \<open>Error numbers, event bits\<close>

text \<open>The constants of \<open><errno.h>\<close> and \<open><sys/epoll.h>\<close> the program compares with.\<close>

abbreviation EAGAIN :: errno where "EAGAIN \<equiv> 11"
abbreviation EWOULDBLOCK :: errno where "EWOULDBLOCK \<equiv> EAGAIN"
abbreviation ENOMEM :: errno where "ENOMEM \<equiv> 12"
abbreviation ENFILE :: errno where "ENFILE \<equiv> 23"
abbreviation EMFILE :: errno where "EMFILE \<equiv> 24"
abbreviation ETIME :: errno where "ETIME \<equiv> 62"
abbreviation ENOBUFS :: errno where "ENOBUFS \<equiv> 105"
abbreviation ENOTCONN :: errno where "ENOTCONN \<equiv> 107"
abbreviation EINPROGRESS :: errno where "EINPROGRESS \<equiv> 115"

abbreviation EPOLLIN :: epoll_events where "EPOLLIN \<equiv> 1"
abbreviation EPOLLOUT :: epoll_events where "EPOLLOUT \<equiv> 4"
abbreviation EPOLLERR :: epoll_events where "EPOLLERR \<equiv> 8"
abbreviation EPOLLHUP :: epoll_events where "EPOLLHUP \<equiv> 16"
abbreviation EPOLLET :: epoll_events where "EPOLLET \<equiv> 2147483648"

section \<open>Strings\<close>

text \<open>\<open>c_str()\<close> as a C function sees it, up to the first zero byte.\<close>

definition c_str :: "string \<Rightarrow> string" where
  "c_str s = takeWhile (\<lambda>c. c \<noteq> CHR 0x00) s"

section \<open>Lists\<close>

text \<open>First and last element as pointers.\<close>

definition hd_ptr :: "'a list \<Rightarrow> 'a option" where
  "hd_ptr xs = (case xs of [] \<Rightarrow> None | x # _ \<Rightarrow> Some x)"

definition last_ptr :: "'a list \<Rightarrow> 'a option" where
  "last_ptr xs = (if xs = [] then None else Some (last xs))"

lemma hd_ptr_simps [simp]:
  "hd_ptr [] = None"
  "hd_ptr (x # xs) = Some x"
  by (simp_all add: hd_ptr_def)

lemma last_ptr_simps [simp]:
  "last_ptr [] = None"
  "last_ptr [x] = Some x"
  "last_ptr (xs @ [x]) = Some x"
  by (simp_all add: last_ptr_def)

lemma last_ptr_Cons: "last_ptr (x # xs) = (if xs = [] then Some x else last_ptr xs)"
  by (simp add: last_ptr_def)

lemma last_ptr_append: "last_ptr (xs @ ys) = (if ys = [] then last_ptr xs else last_ptr ys)"
  by (simp add: last_ptr_def)

lemma hd_ptr_append: "hd_ptr (xs @ ys) = (if xs = [] then hd_ptr ys else hd_ptr xs)"
  by (cases xs) simp_all

lemma hd_ptr_eq_None [simp]: "hd_ptr xs = None \<longleftrightarrow> xs = []"
  by (cases xs) simp_all

lemma last_ptr_eq_None [simp]: "last_ptr xs = None \<longleftrightarrow> xs = []"
  by (simp add: last_ptr_def)

lemma last_ptr_eq_Some: "last_ptr xs = Some x \<longleftrightarrow> (\<exists>ys. xs = ys @ [x])"
  by (cases xs rule: rev_cases) auto

lemma last_ptr_in_set: "last_ptr xs = Some x \<Longrightarrow> x \<in> set xs"
  by (auto simp: last_ptr_eq_Some)

lemma hd_ptr_in_set: "hd_ptr xs = Some x \<Longrightarrow> x \<in> set xs"
  by (cases xs) auto

lemma hd_ptr_eq_Some: "hd_ptr xs = Some x \<longleftrightarrow> (\<exists>ys. xs = x # ys)"
  by (cases xs) auto

lemma in_set_split: "x \<in> set xs \<Longrightarrow> \<exists>as bs. xs = as @ x # bs \<and> x \<notin> set as"
  by (rule split_list_first)

lemma distinct_remove1_split:
  assumes "distinct (as @ x # bs)"
  shows "remove1 x (as @ x # bs) = as @ bs"
  using assms by (simp add: remove1_append)

lemma sorted_remove_snoc:
  fixes f :: "'a \<Rightarrow> 'b::linorder"
  assumes "sorted (map f xs)" and "\<forall>y \<in> set xs. f y \<le> m"
  shows "sorted (map f (remove1 x xs) @ [m])"
proof -
  have "sorted (map f (remove1 x xs))"
    using assms(1) by (induction xs) (auto simp: set_remove1_subset dest: notin_set_remove1)
  moreover have "set (remove1 x xs) \<subseteq> set xs"
    by (rule set_remove1_subset)
  ultimately show ?thesis
    using assms(2) by (auto simp: sorted_append)
qed

end
