(* ===== verification/Intrusive_List.thy ===== *)
theory Intrusive_List
  imports Hcp_Prelude
begin

text \<open>
  The doubly linked list of \<open>src/src/list.h\<close> and \<open>src/src/list.cc\<close>.  Nodes live in a heap
  from addresses to \<open>node\<close> records and the list holds its two end pointers, as in the
  source.  \<open>AddTail\<close> and \<open>Erase\<close> are translated statement by statement, every \<open>CHECK\<close>
  included.  The abstraction \<open>dll\<close> says which sequence of addresses a list represents; the
  locale \<open>intrusive_list\<close> is the contract the event loop relies on, and the last section
  interprets it on the translated code.
\<close>

section \<open>The code\<close>

record node =
  n_prev :: ptr
  n_next :: ptr

record dlist =
  l_head :: ptr
  l_tail :: ptr

type_synonym node_heap = "addr \<rightharpoonup> node"

definition new_node :: node where
  "new_node = \<lparr>n_prev = None, n_next = None\<rparr>"

definition new_list :: dlist where
  "new_list = \<lparr>l_head = None, l_tail = None\<rparr>"

definition AddTail :: "ptr \<Rightarrow> node_heap \<Rightarrow> dlist \<Rightarrow> (node_heap \<times> dlist) option" where
  "AddTail node h l = do {
     n \<leftarrow> node;
     nd \<leftarrow> h n;
     CHECK (n_prev nd = None);
     CHECK (n_next nd = None);
     (h, l) \<leftarrow> (case l_tail l of
         Some t \<Rightarrow> do {
           CHECK (l_head l \<noteq> None);
           td \<leftarrow> h t;
           CHECK (n_next td = None);
           Some (h(t \<mapsto> td\<lparr>n_next := Some n\<rparr>), l)
         }
       | None \<Rightarrow> do {
           CHECK (l_head l = None);
           Some (h, l\<lparr>l_head := Some n\<rparr>)
         });
     nd \<leftarrow> h n;
     let h = h(n \<mapsto> nd\<lparr>n_prev := l_tail l, n_next := None\<rparr>);
     let l = l\<lparr>l_tail := Some n\<rparr>;
     CHECK (l_head l \<noteq> None \<and> l_tail l \<noteq> None);
     Some (h, l)
   }"

definition Erase :: "ptr \<Rightarrow> node_heap \<Rightarrow> dlist \<Rightarrow> (node_heap \<times> dlist) option" where
  "Erase node h l = do {
     n \<leftarrow> node;
     nd \<leftarrow> h n;
     let prv = n_prev nd;
     let nxt = n_next nd;
     (h, l) \<leftarrow> (case prv of
         Some p \<Rightarrow> do {
           CHECK (l_head l \<noteq> Some n);
           pd \<leftarrow> h p;
           CHECK (n_next pd = Some n);
           let h = h(p \<mapsto> pd\<lparr>n_next := nxt\<rparr>);
           nd \<leftarrow> h n;
           Some (h(n \<mapsto> nd\<lparr>n_prev := None\<rparr>), l)
         }
       | None \<Rightarrow> do {
           CHECK (l_head l = Some n);
           Some (h, l\<lparr>l_head := nxt\<rparr>)
         });
     (h, l) \<leftarrow> (case nxt of
         Some q \<Rightarrow> do {
           CHECK (l_tail l \<noteq> Some n);
           qd \<leftarrow> h q;
           CHECK (n_prev qd = Some n);
           let h = h(q \<mapsto> qd\<lparr>n_prev := prv\<rparr>);
           nd \<leftarrow> h n;
           Some (h(n \<mapsto> nd\<lparr>n_next := None\<rparr>), l)
         }
       | None \<Rightarrow> do {
           CHECK (l_tail l = Some n);
           Some (h, l\<lparr>l_tail := prv\<rparr>)
         });
     CHECK ((l_head l = None) = (l_tail l = None));
     Some (h, l)
   }"

section \<open>The sequence a list represents\<close>

text \<open>
  \<open>dseg h p xs q\<close>: the nodes \<open>xs\<close> are chained in both directions in the heap, with \<open>p\<close>
  before the first and \<open>q\<close> after the last.
\<close>

primrec dseg :: "node_heap \<Rightarrow> ptr \<Rightarrow> addr list \<Rightarrow> ptr \<Rightarrow> bool" where
  "dseg h p [] q \<longleftrightarrow> True"
| "dseg h p (x # xs) q \<longleftrightarrow>
     h x = Some \<lparr>n_prev = p, n_next = (if xs = [] then q else hd_ptr xs)\<rparr> \<and> dseg h (Some x) xs q"

definition dll :: "node_heap \<Rightarrow> dlist \<Rightarrow> addr list \<Rightarrow> bool" where
  "dll h l xs \<longleftrightarrow>
     distinct xs \<and> l_head l = hd_ptr xs \<and> l_tail l = last_ptr xs \<and> dseg h None xs None"

lemma dseg_upd [simp]: "x \<notin> set xs \<Longrightarrow> dseg (h(x := v)) p xs q = dseg h p xs q"
  by (induction xs arbitrary: p) auto

lemma dseg_append:
  "dseg h p (xs @ ys) q \<longleftrightarrow>
     dseg h p xs (if ys = [] then q else hd_ptr ys) \<and>
     dseg h (if xs = [] then p else last_ptr xs) ys q"
proof (induction xs arbitrary: p)
  case (Cons x xs)
  then show ?case by (cases xs) (auto simp: hd_ptr_append last_ptr_Cons)
qed simp

lemma dseg_dom: "dseg h p xs q \<Longrightarrow> x \<in> set xs \<Longrightarrow> h x \<noteq> None"
  by (induction xs arbitrary: p) auto

lemma dll_empty: "dll h new_list []"
  by (simp add: dll_def new_list_def)

lemma dll_head: "dll h l xs \<Longrightarrow> l_head l = hd_ptr xs"
  by (simp add: dll_def)

lemma dll_tail: "dll h l xs \<Longrightarrow> l_tail l = last_ptr xs"
  by (simp add: dll_def)

lemma dll_distinct: "dll h l xs \<Longrightarrow> distinct xs"
  by (simp add: dll_def)

lemma dll_dom: "dll h l xs \<Longrightarrow> x \<in> set xs \<Longrightarrow> h x \<noteq> None"
  unfolding dll_def using dseg_dom by blast

lemma dll_upd [simp]: "x \<notin> set xs \<Longrightarrow> dll (h(x := v)) l xs = dll h l xs"
  by (simp add: dll_def)

section \<open>AddTail and Erase on represented lists\<close>

lemma AddTail_dll:
  assumes "dll h l xs" and "h n = Some new_node" and "n \<notin> set xs"
  shows "\<exists>h' l'. AddTail (Some n) h l = Some (h', l') \<and> dll h' l' (xs @ [n]) \<and>
           (\<forall>a. a \<notin> set (xs @ [n]) \<longrightarrow> h' a = h a)"
proof (cases xs rule: rev_cases)
  case Nil
  with assms show ?thesis
    by (simp add: AddTail_def dll_def new_node_def)
next
  case (snoc ys t)
  from assms(1) snoc have t: "h t = Some \<lparr>n_prev = last_ptr ys, n_next = None\<rparr>"
    by (cases "ys = []") (auto simp: dll_def dseg_append)
  with assms snoc show ?thesis
    by (auto simp: AddTail_def dll_def dseg_append new_node_def hd_ptr_append last_ptr_append
        last_ptr_Cons split: if_splits)
qed

lemma Erase_dll:
  assumes "dll h l (as @ n # bs)"
  shows "\<exists>h' l'. Erase (Some n) h l = Some (h', l') \<and> dll h' l' (as @ bs) \<and>
           h' n = Some new_node \<and> (\<forall>a. a \<notin> set (as @ n # bs) \<longrightarrow> h' a = h a)"
proof -
  from assms have n: "h n = Some \<lparr>n_prev = last_ptr as, n_next = hd_ptr bs\<rparr>"
    by (cases as rule: rev_cases; cases bs) (auto simp: dll_def dseg_append)
  show ?thesis
  proof (cases as rule: rev_cases)
    case Nil
    with assms n show ?thesis
      by (cases bs) (auto simp: Erase_def dll_def new_node_def last_ptr_Cons split: if_splits
          dest: last_ptr_in_set)
  next
    case (snoc as' p)
    then have p: "h p = Some \<lparr>n_prev = last_ptr as', n_next = Some n\<rparr>"
      using assms by (cases "as' = []") (auto simp: dll_def dseg_append)
    show ?thesis
    proof (cases bs)
      case Nil
      with assms n p snoc show ?thesis
        by (auto simp: Erase_def dll_def dseg_append new_node_def hd_ptr_append
            last_ptr_append last_ptr_Cons split: if_splits dest: hd_ptr_in_set)
    next
      case (Cons q bs')
      with assms n p snoc show ?thesis
        by (auto simp: Erase_def dll_def dseg_append new_node_def hd_ptr_append
            last_ptr_append last_ptr_Cons split: if_splits dest: last_ptr_in_set hd_ptr_in_set)
    qed
  qed
qed

lemma Erase_member:
  assumes "dll h l xs" and "n \<in> set xs"
  shows "\<exists>h' l'. Erase (Some n) h l = Some (h', l') \<and> dll h' l' (remove1 n xs) \<and>
           h' n = Some new_node \<and> (\<forall>a. a \<notin> set xs \<longrightarrow> h' a = h a)"
proof -
  from assms(2) obtain as bs where xs: "xs = as @ n # bs"
    by (meson split_list)
  with assms(1) have "remove1 n xs = as @ bs"
    by (metis dll_distinct distinct_remove1_split)
  with assms(1) xs Erase_dll [of h l as n bs] show ?thesis
    by auto
qed

text \<open>Erasing a detached node of the heap is caught by a \<open>CHECK\<close>.\<close>

lemma Erase_detached:
  assumes "dll h l xs" and "h n = Some new_node" and "n \<notin> set xs"
  shows "Erase (Some n) h l = None"
proof -
  have "l_head l \<noteq> Some n"
    using assms(1,3) by (cases xs) (auto simp: dll_def)
  with assms(2) show ?thesis
    by (simp add: Erase_def new_node_def)
qed

section \<open>The contract\<close>

text \<open>
  What a client of the list relies on: \<open>repr h l xs\<close> says that list \<open>l\<close> over heap \<open>h\<close>
  holds the nodes \<open>xs\<close> in order; a node outside every list is \<open>detached\<close>.
\<close>

locale intrusive_list =
  fixes repr :: "'h \<Rightarrow> 'l \<Rightarrow> addr list \<Rightarrow> bool"
    and detached :: "'h \<Rightarrow> addr \<Rightarrow> bool"
    and same_at :: "'h \<Rightarrow> 'h \<Rightarrow> addr \<Rightarrow> bool"
    and add_tail :: "addr \<Rightarrow> 'h \<Rightarrow> 'l \<Rightarrow> ('h \<times> 'l) option"
    and erase :: "addr \<Rightarrow> 'h \<Rightarrow> 'l \<Rightarrow> ('h \<times> 'l) option"
    and front :: "'l \<Rightarrow> ptr"
    and back_end :: "'l \<Rightarrow> ptr"
  assumes repr_distinct: "repr h l xs \<Longrightarrow> distinct xs"
    and repr_front: "repr h l xs \<Longrightarrow> front l = hd_ptr xs"
    and repr_back: "repr h l xs \<Longrightarrow> back_end l = last_ptr xs"
    and add_tail: "repr h l xs \<Longrightarrow> detached h n \<Longrightarrow> n \<notin> set xs \<Longrightarrow>
      \<exists>h' l'. add_tail n h l = Some (h', l') \<and> repr h' l' (xs @ [n]) \<and>
        (\<forall>a. a \<notin> set (xs @ [n]) \<longrightarrow> same_at h h' a)"
    and erase: "repr h l xs \<Longrightarrow> n \<in> set xs \<Longrightarrow>
      \<exists>h' l'. erase n h l = Some (h', l') \<and> repr h' l' (remove1 n xs) \<and> detached h' n \<and>
        (\<forall>a. a \<notin> set xs \<longrightarrow> same_at h h' a)"
    and same_trans: "same_at h h' a \<Longrightarrow> same_at h' h'' a \<Longrightarrow> same_at h h'' a"
begin

text \<open>Moving a member to the end, which is what refreshing a deadline does.\<close>

lemma move_to_back:
  assumes "repr h l xs" and "n \<in> set xs"
  obtains h1 l1 h2 l2 where "erase n h l = Some (h1, l1)" and "add_tail n h1 l1 = Some (h2, l2)"
    and "repr h2 l2 (remove1 n xs @ [n])" and "\<And>a. a \<notin> set xs \<Longrightarrow> same_at h h2 a"
proof -
  from erase [OF assms] obtain h1 l1 where e: "erase n h l = Some (h1, l1)"
    and r1: "repr h1 l1 (remove1 n xs)" and d: "detached h1 n"
    and s1: "\<And>a. a \<notin> set xs \<Longrightarrow> same_at h h1 a"
    by blast
  have n: "n \<notin> set (remove1 n xs)"
    using repr_distinct [OF assms(1)] by simp
  from add_tail [OF r1 d n] obtain h2 l2 where a: "add_tail n h1 l1 = Some (h2, l2)"
    and r2: "repr h2 l2 (remove1 n xs @ [n])"
    and s2: "\<And>a. a \<notin> set (remove1 n xs @ [n]) \<Longrightarrow> same_at h1 h2 a"
    by blast
  have "same_at h h2 a" if "a \<notin> set xs" for a
  proof -
    have "a \<notin> set (remove1 n xs @ [n])"
      using that assms(2) set_remove1_subset [of n xs] by auto
    then show ?thesis
      using s1 [OF that] s2 same_trans by blast
  qed
  with e a r2 show ?thesis by (rule that)
qed

text \<open>Putting a detached node in and taking it out again restores the sequence.\<close>

lemma add_tail_erase:
  assumes "repr h l xs" and "detached h n" and "n \<notin> set xs"
  obtains h1 l1 h2 l2 where "add_tail n h l = Some (h1, l1)" and "erase n h1 l1 = Some (h2, l2)"
    and "repr h2 l2 xs" and "detached h2 n"
proof -
  from add_tail [OF assms] obtain h1 l1 where a: "add_tail n h l = Some (h1, l1)"
    and r1: "repr h1 l1 (xs @ [n])"
    by blast
  from erase [OF r1, of n] obtain h2 l2 where e: "erase n h1 l1 = Some (h2, l2)"
    and r2: "repr h2 l2 (remove1 n (xs @ [n]))" and d: "detached h2 n"
    by auto
  from assms(3) have "remove1 n (xs @ [n]) = xs"
    by (simp add: remove1_append)
  with r2 have "repr h2 l2 xs" by simp
  with a e show ?thesis using d by (rule that)
qed

end

definition same_node :: "node_heap \<Rightarrow> node_heap \<Rightarrow> addr \<Rightarrow> bool" where
  "same_node h h' a \<longleftrightarrow> h' a = h a"

interpretation node_list: intrusive_list dll "\<lambda>h n. h n = Some new_node" same_node
  "\<lambda>n. AddTail (Some n)" "\<lambda>n. Erase (Some n)" l_head l_tail
proof unfold_locales
  fix h l xs n
  assume "dll h l xs" and "h n = Some new_node" and "n \<notin> set xs"
  then show "\<exists>h' l'. AddTail (Some n) h l = Some (h', l') \<and> dll h' l' (xs @ [n]) \<and>
      (\<forall>a. a \<notin> set (xs @ [n]) \<longrightarrow> same_node h h' a)"
    using AddTail_dll by (simp add: same_node_def)
next
  fix h l xs n
  assume "dll h l xs" and "n \<in> set xs"
  then show "\<exists>h' l'. Erase (Some n) h l = Some (h', l') \<and> dll h' l' (remove1 n xs) \<and>
      h' n = Some new_node \<and> (\<forall>a. a \<notin> set xs \<longrightarrow> same_node h h' a)"
    using Erase_member by (simp add: same_node_def)
qed (auto simp: dll_def same_node_def)

end
