(* ===== verification/Addr.thy ===== *)
theory Addr
  imports Hcp_Prelude
begin

text \<open>
  Addresses: \<open>src/src/addr.h\<close> and \<open>src/src/addr.cc\<close>.  A \<open>sockaddr\<close> and the \<open>sockaddr_in\<close> it is cast to are
  the same bytes, here the record \<open>sockaddr\<close>; address and port are in network byte order, read
  as words on a little-endian machine.  An \<open>addrinfo\<close> is a node of the lists \<open>getaddrinfo\<close> makes.
\<close>

abbreviation AF_INET :: int where "AF_INET \<equiv> 2"

record sockaddr =
  sa_family :: int
  sin_port :: "16 word"
  sin_addr :: "32 word"

record addrinfo =
  ai_addr :: "sockaddr option"
  ai_next :: ptr

definition Cast_sockaddr :: "sockaddr \<Rightarrow> sockaddr option" where
  "Cast_sockaddr a = do { CHECK (sa_family a = AF_INET); Some a }"

definition Cast_addrinfo :: "addrinfo \<Rightarrow> sockaddr option" where
  "Cast_addrinfo a = do { CHECK (ai_addr a \<noteq> None); sa \<leftarrow> ai_addr a; Cast_sockaddr sa }"

section \<open>Printing\<close>

text \<open>\<open>ntohs\<close> swaps the bytes; \<open>inet_ntoa\<close> prints the four bytes in memory order.\<close>

definition ntohs :: "16 word \<Rightarrow> 16 word" where
  "ntohs w = push_bit 8 w OR drop_bit 8 w"

fun dec :: "nat \<Rightarrow> string" where
  "dec n = (if n < 10 then [char_of (48 + n)] else dec (n div 10) @ [char_of (48 + n mod 10)])"

definition byte :: "nat \<Rightarrow> 32 word \<Rightarrow> nat" where
  "byte i w = unat (drop_bit (8 * i) w) mod 256"

definition inet_ntoa :: "32 word \<Rightarrow> string" where
  "inet_ntoa a = dec (byte 0 a) @ ''.'' @ dec (byte 1 a) @ ''.'' @ dec (byte 2 a) @ ''.'' @ dec (byte 3 a)"

definition IpPort_print :: "sockaddr \<Rightarrow> string" where
  "IpPort_print x = inet_ntoa (sin_addr x) @ '':'' @ dec (unat (ntohs (sin_port x)))"

declare dec.simps [simp del]

section \<open>Decimal numbers\<close>

definition digit :: "char \<Rightarrow> bool" where
  "digit c \<longleftrightarrow> (\<exists>n < 10. c = char_of (48 + n :: nat))"

primrec undec :: "nat \<Rightarrow> string \<Rightarrow> nat" where
  "undec n [] = n"
| "undec n (c # cs) = undec (10 * n + (of_char c - 48)) cs"

lemma undec_append: "undec n (s @ t) = undec (undec n s) t"
  by (induction s arbitrary: n) simp_all

lemma undec_dec: "undec 0 (dec n) = n"
proof (induction n rule: dec.induct)
  case (1 n)
  have c: "of_char (char_of (48 + k) :: char) = (48 + k :: nat)" if "k < 10" for k :: nat
    using that by (simp add: of_char_of)
  show ?case
  proof (cases "n < 10")
    case True
    then show ?thesis using c by (simp add: dec.simps [of n])
  next
    case False
    with 1 show ?thesis by (simp add: dec.simps [of n] undec_append c)
  qed
qed

lemma dec_inject: "dec m = dec n \<longleftrightarrow> m = n"
  by (metis undec_dec)

lemma dec_digits: "c \<in> set (dec n) \<Longrightarrow> digit c"
proof (induction n rule: dec.induct)
  case (1 n)
  show ?case
  proof (cases "n < 10")
    case True
    with 1(2) show ?thesis by (auto simp: dec.simps [of n] digit_def)
  next
    case False
    have "n mod 10 < 10" by simp
    then have "digit (char_of (48 + n mod 10))" unfolding digit_def by blast
    with False 1 show ?thesis by (auto simp: dec.simps [of n])
  qed
qed

lemma digit_sep: "\<not> digit (CHR ''.'')" "\<not> digit (CHR '':'')"
proof -
  have "of_char c - 48 < (10 :: nat) \<and> of_char c \<ge> (48 :: nat)" if "digit c" for c
    using that by (auto simp: digit_def of_char_of)
  from this [of "CHR ''.''"] this [of "CHR '':''"] show "\<not> digit (CHR ''.'')" "\<not> digit (CHR '':'')" by auto
qed

lemma dec_cut:
  assumes "dec m @ c # s = dec n @ c # t" and "\<not> digit c"
  shows "m = n" and "s = t"
proof -
  have "takeWhile digit (dec m @ c # s) = dec m" "takeWhile digit (dec n @ c # t) = dec n"
    using assms(2) dec_digits by (simp_all add: takeWhile_append2)
  with assms(1) have "dec m = dec n" by simp
  then show "m = n" and "s = t" using assms(1) by (simp_all add: dec_inject)
qed

section \<open>Printed addresses are different for different addresses\<close>

lemma ntohs_ntohs [simp]: "ntohs (ntohs w) = w"
  by (rule bit_word_eqI) (auto simp: ntohs_def bit_simps)

lemma ntohs_inject: "ntohs v = ntohs w \<longleftrightarrow> v = w"
  by (metis ntohs_ntohs)

lemma byte_inject:
  assumes "\<forall>i < 4. byte i v = byte i w"
  shows "v = w"
proof (rule bit_word_eqI)
  fix n assume n: "n < LENGTH(32)"
  have "bit w n = bit (byte (n div 8) w) (n mod 8)" for w :: "32 word"
    unfolding byte_def by (simp add: bit_simps flip: take_bit_eq_mod [of 8, simplified])
  moreover have "n div 8 < 4" using n by simp
  ultimately show "bit v n = bit w n" using assms by simp
qed

text \<open>
  Printing an address is one-to-one: different addresses or ports are printed
  differently, so the log tells them apart.
\<close>

theorem IpPort_print_inject:
  "IpPort_print x = IpPort_print y \<longleftrightarrow> sin_addr x = sin_addr y \<and> sin_port x = sin_port y"
proof
  assume "IpPort_print x = IpPort_print y"
  then have e: "dec (byte 0 (sin_addr x)) @ CHR ''.'' # dec (byte 1 (sin_addr x)) @ CHR ''.'' # dec (byte 2 (sin_addr x)) @
      CHR ''.'' # dec (byte 3 (sin_addr x)) @ CHR '':'' # dec (unat (ntohs (sin_port x))) =
    dec (byte 0 (sin_addr y)) @ CHR ''.'' # dec (byte 1 (sin_addr y)) @ CHR ''.'' # dec (byte 2 (sin_addr y)) @
      CHR ''.'' # dec (byte 3 (sin_addr y)) @ CHR '':'' # dec (unat (ntohs (sin_port y)))"
    by (simp add: IpPort_print_def inet_ntoa_def)
  note 0 = dec_cut [OF e digit_sep(1)]
  note 1 = dec_cut [OF 0(2) digit_sep(1)]
  note 2 = dec_cut [OF 1(2) digit_sep(1)]
  note 3 = dec_cut [OF 2(2) digit_sep(2)]
  have "\<forall>i < 4. byte i (sin_addr x) = byte i (sin_addr y)"
    using 0(1) 1(1) 2(1) 3(1) by (auto simp: less_Suc_eq numeral_eq_Suc)
  then have "sin_addr x = sin_addr y" by (rule byte_inject)
  moreover have "sin_port x = sin_port y" using 3(2) by (simp add: dec_inject ntohs_inject flip: word_unat_eq_iff)
  ultimately show "sin_addr x = sin_addr y \<and> sin_port x = sin_port y" by blast
qed (simp add: IpPort_print_def)

end
