(* ===== verification/Posix_Env.thy ===== *)
theory Posix_Env
  imports Addr
begin

text \<open>
  The environment of the program: the system calls its sources make.  The kernel is not
  part of the sources, so it is a parameter, the record \<open>os\<close>: one function per system call
  which gives the call's outcome from the history of all calls made so far and the call's
  arguments.  Quantifying over \<open>os\<close> is quantifying over every behaviour of the kernel,
  of the peers at the other ends of the sockets and of the clock.

  A program state extends \<open>world\<close>, whose only field is the history, newest event first; a
  wrapper \<open>sys_f\<close> performs call \<open>f\<close>: it asks \<open>os\<close> and records call and outcome.  What the
  theorems need of the kernel are the named hypotheses at the end of this theory.

  An outcome \<open>Inl e\<close> is a return value of \<open>-1\<close> with \<open>errno = e\<close>; a call that only succeeds
  or fails has an outcome of type \<open>errno\<close>, with \<open>0\<close> for success.
\<close>

datatype ctl_op = CTL_ADD | CTL_MOD | CTL_DEL

datatype shut_how = SHUT_RD | SHUT_WR

datatype sock_opt = SO_REUSEADDR | TCP_NODELAY

datatype event =
    Clock_now time
  | Epoll_create "errno + fd"
  | Epoll_ctl ctl_op fd epoll_events ptr errno
  | Epoll_wait nat int "errno + (epoll_events \<times> ptr) list"
  | Pipe2 "errno + fd \<times> fd"
  | Pipe "errno + fd \<times> fd"
  | Fcntl_getfl fd int
  | Fcntl_setfl fd int errno
  | Fcntl_setpipe_sz fd nat int
  | Fcntl_getpipe_sz fd int
  | Read fd nat "errno + string"
  | Getsockopt fd "errno + int \<times> nat"
  | Write fd string "errno + nat"
  | Write_probe fd errno
  | Splice_in fd fd nat "errno + string"
  | Splice_out fd fd nat "errno + string"
  | Ioctl_fionread fd "errno + nat"
  | Close fd errno
  | Shutdown fd shut_how errno
  | Socket "errno + fd"
  | Setsockopt fd sock_opt errno
  | Connect fd sockaddr errno
  | Accept4 fd "errno + fd \<times> nat \<times> int"
  | Bind fd sockaddr errno
  | Listen fd nat errno
  | Getrlimit "errno + nat \<times> nat"
  | Setrlimit "nat \<times> nat" errno
  | Ignore_sigpipe
  | Parser_callback addr string
  | Connector_callback ptr int

type_synonym history = "event list"

record os =
  os_clock :: "history \<Rightarrow> time"
  os_epoll_create :: "history \<Rightarrow> errno + fd"
  os_epoll_ctl :: "history \<Rightarrow> ctl_op \<Rightarrow> fd \<Rightarrow> errno"
  os_epoll_wait :: "history \<Rightarrow> nat \<Rightarrow> int \<Rightarrow> errno + (epoll_events \<times> ptr) list"
  os_pipe2 :: "history \<Rightarrow> errno + fd \<times> fd"
  os_pipe :: "history \<Rightarrow> errno + fd \<times> fd"
  os_getfl :: "history \<Rightarrow> fd \<Rightarrow> int"
  os_setfl :: "history \<Rightarrow> fd \<Rightarrow> int \<Rightarrow> errno"
  os_setpipe_sz :: "history \<Rightarrow> fd \<Rightarrow> nat \<Rightarrow> int"
  os_getpipe_sz :: "history \<Rightarrow> fd \<Rightarrow> int"
  os_pipe_max :: nat
  os_read :: "history \<Rightarrow> fd \<Rightarrow> nat \<Rightarrow> errno + string"
  os_getsockopt :: "history \<Rightarrow> fd \<Rightarrow> errno + int \<times> nat"
  os_write :: "history \<Rightarrow> fd \<Rightarrow> string \<Rightarrow> errno + nat"
  os_write_probe :: "history \<Rightarrow> fd \<Rightarrow> errno"
  os_splice_in :: "history \<Rightarrow> fd \<Rightarrow> nat \<Rightarrow> errno + string"
  os_splice_out :: "history \<Rightarrow> fd \<Rightarrow> string \<Rightarrow> (errno \<times> string) + nat"
  os_ioctl :: "history \<Rightarrow> fd \<Rightarrow> errno"
  os_close :: "history \<Rightarrow> fd \<Rightarrow> errno"
  os_shutdown :: "history \<Rightarrow> fd \<Rightarrow> shut_how \<Rightarrow> errno"
  os_socket :: "history \<Rightarrow> errno + fd"
  os_setsockopt :: "history \<Rightarrow> fd \<Rightarrow> sock_opt \<Rightarrow> errno"
  os_connect :: "history \<Rightarrow> fd \<Rightarrow> sockaddr \<Rightarrow> errno"
  os_accept4 :: "history \<Rightarrow> fd \<Rightarrow> errno + fd \<times> nat \<times> int"
  os_bind :: "history \<Rightarrow> fd \<Rightarrow> sockaddr \<Rightarrow> errno"
  os_listen :: "history \<Rightarrow> fd \<Rightarrow> nat \<Rightarrow> errno"
  os_getrlimit :: "history \<Rightarrow> errno + nat \<times> nat"
  os_setrlimit :: "history \<Rightarrow> nat \<times> nat \<Rightarrow> errno"
  std_capacity :: "nat \<Rightarrow> nat \<Rightarrow> nat"

record world =
  hist :: history

definition log_event :: "event \<Rightarrow> 'a world_scheme \<Rightarrow> 'a world_scheme" where
  "log_event e s = s\<lparr>hist := e # hist s\<rparr>"

definition sys_clock :: "os \<Rightarrow> 'a world_scheme \<Rightarrow> time \<times> 'a world_scheme" where
  "sys_clock os s = (let t = os_clock os (hist s) in (t, log_event (Clock_now t) s))"

definition sys_epoll_create :: "os \<Rightarrow> 'a world_scheme \<Rightarrow> (errno + fd) \<times> 'a world_scheme" where
  "sys_epoll_create os s = (let r = os_epoll_create os (hist s) in (r, log_event (Epoll_create r) s))"

definition sys_epoll_ctl ::
  "os \<Rightarrow> ctl_op \<Rightarrow> fd \<Rightarrow> epoll_events \<Rightarrow> ptr \<Rightarrow> 'a world_scheme \<Rightarrow> errno \<times> 'a world_scheme" where
  "sys_epoll_ctl os op f ev p s =
     (let r = os_epoll_ctl os (hist s) op f in (r, log_event (Epoll_ctl op f ev p r) s))"

definition sys_epoll_wait ::
  "os \<Rightarrow> nat \<Rightarrow> int \<Rightarrow> 'a world_scheme \<Rightarrow>
     (errno + (epoll_events \<times> ptr) list) \<times> 'a world_scheme" where
  "sys_epoll_wait os n ms s =
     (let r = os_epoll_wait os (hist s) n ms in (r, log_event (Epoll_wait n ms r) s))"

definition sys_close :: "os \<Rightarrow> fd \<Rightarrow> 'a world_scheme \<Rightarrow> errno \<times> 'a world_scheme" where
  "sys_close os f s = (let r = os_close os (hist s) f in (r, log_event (Close f r) s))"

definition sys_shutdown ::
  "os \<Rightarrow> fd \<Rightarrow> shut_how \<Rightarrow> 'a world_scheme \<Rightarrow> errno \<times> 'a world_scheme" where
  "sys_shutdown os f how s =
     (let r = os_shutdown os (hist s) f how in (r, log_event (Shutdown f how r) s))"

definition sys_read ::
  "os \<Rightarrow> fd \<Rightarrow> nat \<Rightarrow> 'a world_scheme \<Rightarrow> (errno + string) \<times> 'a world_scheme" where
  "sys_read os f n s = (let r = os_read os (hist s) f n in (r, log_event (Read f n r) s))"

definition sys_pipe2 :: "os \<Rightarrow> 'a world_scheme \<Rightarrow> (errno + fd \<times> fd) \<times> 'a world_scheme" where
  "sys_pipe2 os s = (let r = os_pipe2 os (hist s) in (r, log_event (Pipe2 r) s))"

definition sys_pipe :: "os \<Rightarrow> 'a world_scheme \<Rightarrow> (errno + fd \<times> fd) \<times> 'a world_scheme" where
  "sys_pipe os s = (let r = os_pipe os (hist s) in (r, log_event (Pipe r) s))"

definition sys_getfl :: "os \<Rightarrow> fd \<Rightarrow> 'a world_scheme \<Rightarrow> int \<times> 'a world_scheme" where
  "sys_getfl os f s = (let r = os_getfl os (hist s) f in (r, log_event (Fcntl_getfl f r) s))"

definition sys_setfl :: "os \<Rightarrow> fd \<Rightarrow> int \<Rightarrow> 'a world_scheme \<Rightarrow> errno \<times> 'a world_scheme" where
  "sys_setfl os f fl s = (let r = os_setfl os (hist s) f fl in (r, log_event (Fcntl_setfl f fl r) s))"

definition sys_setpipe_sz :: "os \<Rightarrow> fd \<Rightarrow> nat \<Rightarrow> 'a world_scheme \<Rightarrow> int \<times> 'a world_scheme" where
  "sys_setpipe_sz os f n s =
     (let r = os_setpipe_sz os (hist s) f n in (r, log_event (Fcntl_setpipe_sz f n r) s))"

definition sys_getpipe_sz :: "os \<Rightarrow> fd \<Rightarrow> 'a world_scheme \<Rightarrow> int \<times> 'a world_scheme" where
  "sys_getpipe_sz os f s =
     (let r = os_getpipe_sz os (hist s) f in (r, log_event (Fcntl_getpipe_sz f r) s))"

definition sys_getsockopt ::
  "os \<Rightarrow> fd \<Rightarrow> 'a world_scheme \<Rightarrow> (errno + int \<times> nat) \<times> 'a world_scheme" where
  "sys_getsockopt os f s = (let r = os_getsockopt os (hist s) f in (r, log_event (Getsockopt f r) s))"

definition sys_write ::
  "os \<Rightarrow> fd \<Rightarrow> string \<Rightarrow> 'a world_scheme \<Rightarrow> (errno + nat) \<times> 'a world_scheme" where
  "sys_write os f data s = (let r = os_write os (hist s) f data in (r, log_event (Write f data r) s))"

text \<open>
  \<open>write(fd, "", 0)\<close>; \<open>splice\<close> from a socket into a pipe, whose outcome are the bytes moved;
  \<open>splice\<close> from a pipe to a socket, whose outcome is the number of bytes moved or an error with
  what is left in the pipe; \<open>ioctl(FIONREAD)\<close> on a pipe that holds \<open>data\<close>.
\<close>

definition sys_write_probe :: "os \<Rightarrow> fd \<Rightarrow> 'a world_scheme \<Rightarrow> errno \<times> 'a world_scheme" where
  "sys_write_probe os f s = (let r = os_write_probe os (hist s) f in (r, log_event (Write_probe f r) s))"

definition sys_splice_in ::
  "os \<Rightarrow> fd \<Rightarrow> fd \<Rightarrow> nat \<Rightarrow> 'a world_scheme \<Rightarrow> (errno + string) \<times> 'a world_scheme" where
  "sys_splice_in os f p n s =
     (let r = os_splice_in os (hist s) f n in (r, log_event (Splice_in f p n r) s))"

definition sys_splice_out ::
  "os \<Rightarrow> fd \<Rightarrow> fd \<Rightarrow> string \<Rightarrow> nat \<Rightarrow> 'a world_scheme \<Rightarrow>
     ((errno \<times> string) + nat) \<times> 'a world_scheme" where
  "sys_splice_out os p f data n s =
     (let r = os_splice_out os (hist s) f (take n data) in
      (r, log_event (Splice_out p f n (case r of Inl (e, _) \<Rightarrow> Inl e | Inr k \<Rightarrow> Inr (take k data))) s))"

definition sys_fionread ::
  "os \<Rightarrow> fd \<Rightarrow> string \<Rightarrow> 'a world_scheme \<Rightarrow> (errno + nat) \<times> 'a world_scheme" where
  "sys_fionread os p data s =
     (let e = os_ioctl os (hist s) p; r = (if e = 0 then Inr (length data) else Inl e) in
      (r, log_event (Ioctl_fionread p r) s))"

definition sys_socket :: "os \<Rightarrow> 'a world_scheme \<Rightarrow> (errno + fd) \<times> 'a world_scheme" where
  "sys_socket os s = (let r = os_socket os (hist s) in (r, log_event (Socket r) s))"

definition sys_setsockopt :: "os \<Rightarrow> fd \<Rightarrow> sock_opt \<Rightarrow> 'a world_scheme \<Rightarrow> errno \<times> 'a world_scheme" where
  "sys_setsockopt os f opt s = (let r = os_setsockopt os (hist s) f opt in (r, log_event (Setsockopt f opt r) s))"

definition sys_connect :: "os \<Rightarrow> fd \<Rightarrow> sockaddr \<Rightarrow> 'a world_scheme \<Rightarrow> errno \<times> 'a world_scheme" where
  "sys_connect os f sa s = (let r = os_connect os (hist s) f sa in (r, log_event (Connect f sa r) s))"

text \<open>The outcome of \<open>accept4\<close> has the length and the family of the peer's address.\<close>

definition sys_accept4 :: "os \<Rightarrow> fd \<Rightarrow> 'a world_scheme \<Rightarrow> (errno + fd \<times> nat \<times> int) \<times> 'a world_scheme" where
  "sys_accept4 os f s = (let r = os_accept4 os (hist s) f in (r, log_event (Accept4 f r) s))"

definition sys_bind :: "os \<Rightarrow> fd \<Rightarrow> sockaddr \<Rightarrow> 'a world_scheme \<Rightarrow> errno \<times> 'a world_scheme" where
  "sys_bind os f sa s = (let r = os_bind os (hist s) f sa in (r, log_event (Bind f sa r) s))"

definition sys_listen :: "os \<Rightarrow> fd \<Rightarrow> nat \<Rightarrow> 'a world_scheme \<Rightarrow> errno \<times> 'a world_scheme" where
  "sys_listen os f n s = (let r = os_listen os (hist s) f n in (r, log_event (Listen f n r) s))"

definition sys_getrlimit :: "os \<Rightarrow> 'a world_scheme \<Rightarrow> (errno + nat \<times> nat) \<times> 'a world_scheme" where
  "sys_getrlimit os s = (let r = os_getrlimit os (hist s) in (r, log_event (Getrlimit r) s))"

definition sys_setrlimit :: "os \<Rightarrow> nat \<times> nat \<Rightarrow> 'a world_scheme \<Rightarrow> errno \<times> 'a world_scheme" where
  "sys_setrlimit os l s = (let r = os_setrlimit os (hist s) l in (r, log_event (Setrlimit l r) s))"

lemmas sys_defs =
  log_event_def sys_clock_def sys_epoll_create_def sys_epoll_ctl_def sys_epoll_wait_def sys_close_def
  sys_shutdown_def sys_read_def sys_pipe2_def sys_pipe_def sys_getfl_def sys_setfl_def
  sys_setpipe_sz_def sys_getpipe_sz_def sys_getsockopt_def sys_write_def
  sys_write_probe_def sys_splice_in_def sys_splice_out_def sys_fionread_def sys_socket_def
  sys_setsockopt_def sys_connect_def sys_accept4_def sys_bind_def sys_listen_def sys_getrlimit_def
  sys_setrlimit_def

section \<open>Kernel state read off the history\<close>

text \<open>The interest list of the epoll instance: what has been added and not yet deleted.\<close>

primrec interest :: "history \<Rightarrow> fd \<rightharpoonup> epoll_events \<times> ptr" where
  "interest [] = Map.empty"
| "interest (e # h) =
     (case e of
        Epoll_ctl op f ev p r \<Rightarrow>
          if r = 0 then
            (case op of
               CTL_DEL \<Rightarrow> (interest h)(f := None)
             | _ \<Rightarrow> (interest h)(f \<mapsto> (ev, p)))
          else interest h
      | _ \<Rightarrow> interest h)"

text \<open>Events that neither change the interest list nor wait for events.\<close>

primrec is_wait :: "event \<Rightarrow> bool" where
  "is_wait (Epoll_wait n ms r) = True"
| "is_wait (Clock_now t) = False"
| "is_wait (Epoll_create r) = False"
| "is_wait (Epoll_ctl op f ev p r) = False"
| "is_wait (Pipe2 r) = False"
| "is_wait (Pipe r) = False"
| "is_wait (Fcntl_getfl f r) = False"
| "is_wait (Fcntl_setfl f fl r) = False"
| "is_wait (Fcntl_setpipe_sz f n r) = False"
| "is_wait (Fcntl_getpipe_sz f r) = False"
| "is_wait (Read f n r) = False"
| "is_wait (Getsockopt f r) = False"
| "is_wait (Write f d r) = False"
| "is_wait (Write_probe f r) = False"
| "is_wait (Splice_in f p n r) = False"
| "is_wait (Splice_out p f n r) = False"
| "is_wait (Ioctl_fionread p r) = False"
| "is_wait (Close f r) = False"
| "is_wait (Shutdown f how r) = False"
| "is_wait (Socket r) = False"
| "is_wait (Setsockopt f opt r) = False"
| "is_wait (Connect f sa r) = False"
| "is_wait (Accept4 f r) = False"
| "is_wait (Bind f sa r) = False"
| "is_wait (Listen f n r) = False"
| "is_wait (Getrlimit r) = False"
| "is_wait (Setrlimit l r) = False"
| "is_wait Ignore_sigpipe = False"
| "is_wait (Parser_callback a d) = False"
| "is_wait (Connector_callback cp i) = False"

definition quiet :: "event \<Rightarrow> bool" where
  "quiet e \<longleftrightarrow> \<not> is_wait e \<and> (\<forall>h. interest (e # h) = interest h)"

lemma quiet_simps [simp]:
  "quiet (Splice_in f p n r)" "quiet (Splice_out p f n r')" "quiet (Close f e)"
  "quiet (Write_probe f e)" "quiet (Ioctl_fionread p q)" "quiet (Write f d w)" "quiet (Pipe pp)"
  "quiet (Fcntl_setpipe_sz f n i)" "quiet (Fcntl_getpipe_sz f i)" "quiet (Shutdown f how e)"
  "quiet (Getsockopt f g)" "quiet (Clock_now t)" "quiet (Read f n r)"
  "quiet (Parser_callback a d)" "quiet (Connector_callback cp i)" "quiet (Socket so)"
  "quiet (Setsockopt f opt e)" "quiet (Connect f ad e)" "quiet (Pipe2 pp)" "quiet (Fcntl_getfl f i)"
  "quiet (Fcntl_setfl f i e)" "quiet (Accept4 f sa)" "quiet (Epoll_create so)" "quiet (Bind f ad e)" "quiet (Listen f n e)"
  "quiet (Getrlimit rl)" "quiet (Setrlimit l e)" "quiet Ignore_sigpipe"
  by (simp_all add: quiet_def)

text \<open>Calls into the client code are events as well.\<close>

definition is_callback :: "event \<Rightarrow> bool" where
  "is_callback e = (case e of Parser_callback a d \<Rightarrow> True | Connector_callback a i \<Rightarrow> True | _ \<Rightarrow> False)"

lemma interest_quiet: "\<forall>e \<in> set es. quiet e \<Longrightarrow> interest (es @ h) = interest h"
  by (induction es) (auto simp: quiet_def)

section \<open>Hypotheses about the kernel\<close>

text \<open>
  \<open>epoll_ctl\<close> succeeds on the requests \<open>epoll_ctl(2)\<close> allows: adding a descriptor that is
  not in the interest list, changing or deleting one that is.
\<close>

definition epoll_ctl_ok :: "os \<Rightarrow> bool" where
  "epoll_ctl_ok os \<longleftrightarrow>
     (\<forall>h f. f \<notin> dom (interest h) \<longrightarrow> os_epoll_ctl os h CTL_ADD f = 0) \<and>
     (\<forall>h f. f \<in> dom (interest h) \<longrightarrow>
        os_epoll_ctl os h CTL_MOD f = 0 \<and> os_epoll_ctl os h CTL_DEL f = 0)"

text \<open>\<open>std::chrono::steady_clock\<close> never goes back.\<close>

definition clock_mono :: "os \<Rightarrow> bool" where
  "clock_mono os \<longleftrightarrow> (\<forall>h e. os_clock os h \<le> os_clock os (e # h))"

text \<open>Closing an open descriptor succeeds.\<close>

definition close_ok :: "os \<Rightarrow> bool" where
  "close_ok os \<longleftrightarrow> (\<forall>h f. os_close os h f = 0)"

text \<open>
  When \<open>epoll_wait\<close> succeeds, it reports descriptors of the interest list, each at most once and with the
  pointer it was registered with, and no more of them than there is room for.  It may fail at any time, for
  instance with \<open>EINTR\<close> when a signal interrupts it.
\<close>

definition epoll_wait_ok :: "os \<Rightarrow> bool" where
  "epoll_wait_ok os \<longleftrightarrow>
     (\<forall>h n ms r. os_epoll_wait os h n ms = Inr r \<longrightarrow>
        (\<exists>fes. distinct (map fst fes) \<and> length fes \<le> n \<and> fst ` set fes \<subseteq> dom (interest h) \<and>
           r = map (\<lambda>(f, ev). (ev, snd (the (interest h f)))) fes))"

text \<open>
  \<open>splice\<close> moves at most as many bytes as asked for.  From a socket, no bytes mean the end of
  the stream.  Into a socket, at least one byte is moved or the call fails; a failed call
  leaves the pipe as it was or, on the Windows Subsystem for Linux, empty.
\<close>

definition splice_ok :: "os \<Rightarrow> bool" where
  "splice_ok os \<longleftrightarrow>
     (\<forall>h f n bs. os_splice_in os h f n = Inr bs \<longrightarrow> length bs \<le> n) \<and>
     (\<forall>h f data k. os_splice_out os h f data = Inr k \<longrightarrow> 0 < k \<and> k \<le> length data) \<and>
     (\<forall>h f data e rest. os_splice_out os h f data = Inl (e, rest) \<longrightarrow> rest = data \<or> rest = [])"

text \<open>
  \<open>pipe\<close> fails only for want of descriptors.  Setting a new pipe's capacity to no more than
  \<open>/proc/sys/fs/pipe-max-size\<close> gives at least the requested size, which both ends then
  report.  A write of at most \<open>PIPE_BUF\<close> bytes is atomic.
\<close>

abbreviation PIPE_BUF :: nat where "PIPE_BUF \<equiv> 4096"

definition pipe_ok :: "os \<Rightarrow> bool" where
  "pipe_ok os \<longleftrightarrow>
     (\<forall>h e. os_pipe os h = Inl e \<longrightarrow> e = EMFILE \<or> e = ENFILE) \<and>
     (\<forall>h r w. os_pipe os h = Inr (r, w) \<longrightarrow> r \<ge> 0 \<and> w \<ge> 0) \<and>
     (\<forall>h r w n. os_pipe os h = Inr (r, w) \<longrightarrow> n \<le> os_pipe_max os \<longrightarrow>
        (let h1 = Pipe (Inr (r, w)) # h; c = os_setpipe_sz os h1 r n;
             h2 = Fcntl_setpipe_sz r n c # h1; h3 = Fcntl_getpipe_sz r c # h2
         in int n \<le> c \<and> os_getpipe_sz os h2 r = c \<and> os_getpipe_sz os h3 w = c)) \<and>
     (\<forall>h f data. length data \<le> PIPE_BUF \<longrightarrow> os_write os h f data = Inr (length data)) \<and>
     (\<forall>h f. os_ioctl os h f = 0)"

text \<open>\<open>shutdown\<close> succeeds or reports that the peer is gone; \<open>SO_ERROR\<close> can be read.\<close>

definition sock_ok :: "os \<Rightarrow> bool" where
  "sock_ok os \<longleftrightarrow>
     (\<forall>h f how. os_shutdown os h f how = 0 \<or> os_shutdown os h f how = ENOTCONN) \<and>
     (\<forall>h f. \<exists>e. os_getsockopt os h f = Inr (e, 4))"

text \<open>
  Making a socket fails only for want of descriptors or memory, setting \<open>TCP_NODELAY\<close> on a new one
  succeeds.
\<close>

definition out_of_resources :: "errno \<Rightarrow> bool" where
  "out_of_resources e \<longleftrightarrow> e = EMFILE \<or> e = ENFILE \<or> e = ENOBUFS \<or> e = ENOMEM"

definition new_socket_ok :: "os \<Rightarrow> bool" where
  "new_socket_ok os \<longleftrightarrow>
     (\<forall>h e. os_socket os h = Inl e \<longrightarrow> out_of_resources e) \<and>
     (\<forall>h f. os_socket os h = Inr f \<longrightarrow> f \<ge> 0 \<and> os_setsockopt os (Socket (Inr f) # h) f TCP_NODELAY = 0)"

text \<open>\<open>read\<close> gives at most as many bytes as asked for; no bytes mean the end of the stream.\<close>

definition read_ok :: "os \<Rightarrow> bool" where
  "read_ok os \<longleftrightarrow> (\<forall>h f n bs. os_read os h f n = Inr bs \<longrightarrow> length bs \<le> n)"

text \<open>
  Between two waits for events the peers supply finitely many bytes: \<open>mu h\<close> bounds what
  they will still have sent by the next wait.
\<close>

definition bounded_supply :: "os \<Rightarrow> (history \<Rightarrow> nat) \<Rightarrow> bool" where
  "bounded_supply os mu \<longleftrightarrow>
     (\<forall>h f p n bs. os_splice_in os h f n = Inr bs \<longrightarrow>
        mu (Splice_in f p n (Inr bs) # h) + length bs \<le> mu h) \<and>
     (\<forall>h e. \<not> is_wait e \<longrightarrow> mu (e # h) \<le> mu h)"

lemma bounded_supply_append:
  assumes "bounded_supply os mu" and "\<forall>e \<in> set es. \<not> is_wait e"
  shows "mu (es @ h) \<le> mu h"
  using assms(2)
proof (induction es)
  case (Cons e es)
  then have "mu (e # es @ h) \<le> mu (es @ h)"
    using assms(1) by (simp add: bounded_supply_def)
  with Cons show ?case by simp
qed simp

lemma epoll_ctl_okD:
  assumes "epoll_ctl_ok os"
  shows "f \<notin> dom (interest h) \<Longrightarrow> os_epoll_ctl os h CTL_ADD f = 0"
    and "f \<in> dom (interest h) \<Longrightarrow> os_epoll_ctl os h CTL_MOD f = 0"
    and "f \<in> dom (interest h) \<Longrightarrow> os_epoll_ctl os h CTL_DEL f = 0"
  using assms by (auto simp: epoll_ctl_ok_def)

lemma clock_monoD: "clock_mono os \<Longrightarrow> os_clock os h \<le> os_clock os (e # h)"
  by (simp add: clock_mono_def)

lemma clock_mono_append:
  assumes "clock_mono os"
  shows "os_clock os h \<le> os_clock os (es @ h)"
proof (induction es)
  case (Cons e es)
  then show ?case
    using clock_monoD [OF assms, of "es @ h" e] by simp
qed simp

end
