(* ===== verification/Event_Loop.thy ===== *)
theory Event_Loop
  imports Intrusive_List Posix_Env
begin

text \<open>
  The event loop: \<open>src/src/bits.h\<close>, \<open>src/src/epoll.h\<close>, \<open>src/src/epoll.cc\<close>,
  \<open>src/src/event_loop.h\<close> and \<open>src/src/event_loop.cc\<close>.
\<close>

section \<open>Bits\<close>

definition HasBits :: "epoll_events \<Rightarrow> epoll_events \<Rightarrow> bool" where
  "HasBits bitmask bits \<longleftrightarrow> bitmask AND bits = bits"

section \<open>EPoll\<close>

record epoll = world +
  total_events :: nat
  events_size :: nat

definition EPoll_ctor :: "os \<Rightarrow> 'a epoll_scheme \<Rightarrow> 'a epoll_scheme option" where
  "EPoll_ctor os s = do {
     let (r, s) = sys_epoll_create os s;
     CHECK (case r of Inr f \<Rightarrow> f \<ge> 0 | Inl e \<Rightarrow> False);
     Some (s\<lparr>total_events := 0, events_size := 0\<rparr>)
   }"

definition EPoll_Add ::
  "os \<Rightarrow> fd \<Rightarrow> epoll_events \<Rightarrow> ptr \<Rightarrow> 'a epoll_scheme \<Rightarrow> 'a epoll_scheme option" where
  "EPoll_Add os f ev p s = do {
     let (r, s) = sys_epoll_ctl os CTL_ADD f ev p s;
     CHECK (r = 0);
     Some (s\<lparr>total_events := total_events s + 1\<rparr>)
   }"

definition EPoll_Remove :: "os \<Rightarrow> fd \<Rightarrow> 'a epoll_scheme \<Rightarrow> 'a epoll_scheme option" where
  "EPoll_Remove os f s = do {
     CHECK (total_events s > 0);
     let (r, s) = sys_epoll_ctl os CTL_DEL f 0 None s;
     CHECK (r = 0);
     Some (s\<lparr>total_events := total_events s - 1\<rparr>)
   }"

definition EPoll_Modify ::
  "os \<Rightarrow> fd \<Rightarrow> epoll_events \<Rightarrow> ptr \<Rightarrow> 'a epoll_scheme \<Rightarrow> 'a epoll_scheme option" where
  "EPoll_Modify os f ev p s = do {
     CHECK (total_events s > 0);
     let (r, s) = sys_epoll_ctl os CTL_MOD f ev p s;
     CHECK (r = 0);
     Some s
   }"

text \<open>
  The timeout of \<open>epoll_wait\<close>: \<open>ceil<milliseconds>\<close>, then the conversion of the 64-bit count
  to \<open>int\<close> that \<open>std::max<int>\<close> makes.
\<close>

definition ceil_ms :: "duration \<Rightarrow> int" where
  "ceil_ms d = - ((- d) div 1000000)"

definition to_int :: "int \<Rightarrow> int" where
  "to_int x = sint (word_of_int x :: 32 word)"

definition wait_ms :: "duration option \<Rightarrow> int" where
  "wait_ms timeout = (case timeout of Some d \<Rightarrow> max 0 (to_int (ceil_ms d)) | None \<Rightarrow> - 1)"

definition EPoll_Wait ::
  "os \<Rightarrow> duration option \<Rightarrow> 'a epoll_scheme \<Rightarrow>
     ((epoll_events \<times> ptr) list \<times> 'a epoll_scheme) option" where
  "EPoll_Wait os timeout s = do {
     let s = (if total_events s > events_size s
              then s\<lparr>events_size := std_capacity os (events_size s) (total_events s)\<rparr> else s);
     let (r, s) = sys_epoll_wait os (events_size s) (wait_ms timeout) s;
     (case r of
        Inl e \<Rightarrow> None
      | Inr ready \<Rightarrow> Some (ready, s))
   }"

section \<open>Event handlers\<close>

record eh =
  eh_fd :: fd
  deadline :: time
  event_loop :: ptr
  ref_count :: int

text \<open>
  An \<open>EventLoop\<close> and the heap of event handlers it works on.  A handler's \<open>Node\<close> base and
  its own fields are in \<open>nodes\<close> and \<open>ehs\<close> under the same address; the fields of the derived
  classes are in the records that extend this one.  \<open>sched\<close> is the content of the wake-up pipe
  (the functions in flight, oldest first), \<open>brk\<close> the next address \<open>new\<close> returns:
  addresses are never used twice, so a freed handler is a missing entry.
\<close>

record 'f evl = epoll +
  nodes :: node_heap
  ehs :: "addr \<rightharpoonup> eh"
  expire :: dlist
  timeout :: duration
  self :: addr
  sched :: "'f list"
  pipe_rd :: fd
  pipe_wr :: fd
  loop_tid :: nat
  cur_tid :: nat
  brk :: addr

definition upd_eh :: "addr \<Rightarrow> (eh \<Rightarrow> eh) \<Rightarrow> ('f, 'x) evl_scheme \<Rightarrow> ('f, 'x) evl_scheme option" where
  "upd_eh a f s = do { e \<leftarrow> ehs s a; Some (s\<lparr>ehs := (ehs s)(a \<mapsto> f e)\<rparr>) }"

definition new_EventHandler :: "fd \<Rightarrow> ('f, 'x) evl_scheme \<Rightarrow> (addr \<times> ('f, 'x) evl_scheme) option" where
  "new_EventHandler f s = do {
     let a = brk s;
     CHECK (f \<ge> 0);
     Some (a, s\<lparr>brk := Suc a, nodes := (nodes s)(a \<mapsto> new_node),
       ehs := (ehs s)(a \<mapsto> \<lparr>eh_fd = f, deadline = 0, event_loop = None, ref_count = 0\<rparr>)\<rparr>)
   }"

definition IncRef :: "addr \<Rightarrow> ('f, 'x) evl_scheme \<Rightarrow> ('f, 'x) evl_scheme option" where
  "IncRef a s = do {
     e \<leftarrow> ehs s a;
     CHECK (ref_count e \<ge> 0);
     Some (s\<lparr>ehs := (ehs s)(a \<mapsto> e\<lparr>ref_count := ref_count e + 1\<rparr>)\<rparr>)
   }"

text \<open>
  \<open>delete this\<close>: the destructor of the derived class, given by the handler's class as \<open>dtor\<close>,
  then \<open>~EventHandler\<close> and the release of the memory.
\<close>

definition delete_EventHandler ::
  "(addr \<Rightarrow> ('f, 'x) evl_scheme \<Rightarrow> ('f, 'x) evl_scheme option) \<Rightarrow> addr \<Rightarrow>
     ('f, 'x) evl_scheme \<Rightarrow> ('f, 'x) evl_scheme option" where
  "delete_EventHandler dtor a s = do {
     s \<leftarrow> dtor a s;
     e \<leftarrow> ehs s a;
     CHECK (event_loop e = None);
     CHECK (ref_count e = 0);
     Some (s\<lparr>ehs := (ehs s)(a := None), nodes := (nodes s)(a := None)\<rparr>)
   }"

definition DecRef ::
  "(addr \<Rightarrow> ('f, 'x) evl_scheme \<Rightarrow> ('f, 'x) evl_scheme option) \<Rightarrow> addr \<Rightarrow>
     ('f, 'x) evl_scheme \<Rightarrow> ('f, 'x) evl_scheme option" where
  "DecRef dtor a s = do {
     e \<leftarrow> ehs s a;
     CHECK (ref_count e > 0);
     let s = s\<lparr>ehs := (ehs s)(a \<mapsto> e\<lparr>ref_count := ref_count e - 1\<rparr>)\<rparr>;
     if ref_count e - 1 = 0 then delete_EventHandler dtor a s else Some s
   }"

section \<open>EventLoop\<close>

definition on_loop_thread :: "('f, 'x) evl_scheme \<Rightarrow> bool" where
  "on_loop_thread s \<longleftrightarrow> cur_tid s = loop_tid s"

definition EventLoop_Add ::
  "os \<Rightarrow> ptr \<Rightarrow> epoll_events \<Rightarrow> ('f, 'x) evl_scheme \<Rightarrow> ('f, 'x) evl_scheme option" where
  "EventLoop_Add os eh ev s = do {
     a \<leftarrow> eh;
     e \<leftarrow> ehs s a;
     CHECK (event_loop e = None);
     CHECK (on_loop_thread s);
     s \<leftarrow> IncRef a s;
     s \<leftarrow> upd_eh a (\<lambda>e. e\<lparr>event_loop := Some (self s)\<rparr>) s;
     let (now, s) = sys_clock os s;
     s \<leftarrow> upd_eh a (\<lambda>e. e\<lparr>deadline := now + timeout s\<rparr>) s;
     (ns, l) \<leftarrow> AddTail (Some a) (nodes s) (expire s);
     let s = s\<lparr>nodes := ns, expire := l\<rparr>;
     EPoll_Add os (eh_fd e) ev (Some a) s
   }"

definition EventLoop_Remove ::
  "os \<Rightarrow> (addr \<Rightarrow> ('f, 'x) evl_scheme \<Rightarrow> ('f, 'x) evl_scheme option) \<Rightarrow> ptr \<Rightarrow>
     ('f, 'x) evl_scheme \<Rightarrow> ('f, 'x) evl_scheme option" where
  "EventLoop_Remove os dtor eh s = do {
     a \<leftarrow> eh;
     e \<leftarrow> ehs s a;
     CHECK (event_loop e = Some (self s));
     CHECK (on_loop_thread s);
     (ns, l) \<leftarrow> Erase (Some a) (nodes s) (expire s);
     let s = s\<lparr>nodes := ns, expire := l\<rparr>;
     s \<leftarrow> EPoll_Remove os (eh_fd e) s;
     s \<leftarrow> upd_eh a (\<lambda>e. e\<lparr>event_loop := None\<rparr>) s;
     DecRef dtor a s
   }"

definition EventLoop_Modify ::
  "os \<Rightarrow> ptr \<Rightarrow> epoll_events \<Rightarrow> ('f, 'x) evl_scheme \<Rightarrow> ('f, 'x) evl_scheme option" where
  "EventLoop_Modify os eh ev s = do {
     a \<leftarrow> eh;
     e \<leftarrow> ehs s a;
     CHECK (event_loop e = Some (self s));
     CHECK (on_loop_thread s);
     EPoll_Modify os (eh_fd e) ev (Some a) s
   }"

definition EventLoop_Refresh ::
  "os \<Rightarrow> ptr \<Rightarrow> ('f, 'x) evl_scheme \<Rightarrow> ('f, 'x) evl_scheme option" where
  "EventLoop_Refresh os eh s = do {
     a \<leftarrow> eh;
     e \<leftarrow> ehs s a;
     CHECK (event_loop e = Some (self s));
     CHECK (on_loop_thread s);
     let (now, s) = sys_clock os s;
     s \<leftarrow> upd_eh a (\<lambda>e. e\<lparr>deadline := now + timeout s\<rparr>) s;
     _ \<leftarrow> (case l_tail (expire s) of
         Some t \<Rightarrow> do {
           e \<leftarrow> ehs s a;
           te \<leftarrow> ehs s t;
           CHECK (deadline e \<ge> deadline te)
         }
       | None \<Rightarrow> Some ());
     (ns, l) \<leftarrow> Erase (Some a) (nodes s) (expire s);
     (ns, l) \<leftarrow> AddTail (Some a) ns l;
     Some (s\<lparr>nodes := ns, expire := l\<rparr>)
   }"

text \<open>
  The constructor, up to the start of the thread that runs the loop.  The memory of the
  object is the state passed in; the members are initialised in order.
\<close>

abbreviation O_DIRECT :: int where "O_DIRECT \<equiv> 16384"

definition AddFlags :: "os \<Rightarrow> fd \<Rightarrow> int \<Rightarrow> 'a world_scheme \<Rightarrow> 'a world_scheme option" where
  "AddFlags os f flags s = do {
     let (fl, s) = sys_getfl os f s;
     let (r, s) = sys_setfl os f (flags OR fl) s;
     CHECK (r = 0);
     Some s
   }"

definition EventLoop_ctor ::
  "os \<Rightarrow> duration \<Rightarrow> ('f, 'x) evl_scheme \<Rightarrow> ('f, 'x) evl_scheme option" where
  "EventLoop_ctor os d s = do {
     s \<leftarrow> EPoll_ctor os s;
     let s = s\<lparr>expire := new_list, timeout := d\<rparr>;
     CHECK (timeout s > 0);
     let (r, s) = sys_pipe2 os s;
     (p, s) \<leftarrow> (case r of
         Inr p \<Rightarrow> Some (p, s)
       | Inl _ \<Rightarrow> do {
           let (r, s) = sys_pipe os s;
           p \<leftarrow> (case r of Inr p \<Rightarrow> Some p | Inl _ \<Rightarrow> None);
           s \<leftarrow> AddFlags os (fst p) O_DIRECT s;
           s \<leftarrow> AddFlags os (snd p) O_DIRECT s;
           Some (p, s)
         });
     let s = s\<lparr>pipe_rd := fst p, pipe_wr := snd p, sched := []\<rparr>;
     EPoll_Add os (pipe_rd s) EPOLLIN None s
   }"

section \<open>The invariant of an event loop\<close>

definition registered :: "('f, 'x) evl_scheme \<Rightarrow> addr \<Rightarrow> bool" where
  "registered s a \<longleftrightarrow> (\<exists>e. ehs s a = Some e \<and> event_loop e = Some (self s))"

definition dl :: "(addr \<rightharpoonup> eh) \<Rightarrow> addr \<Rightarrow> time" where
  "dl m a = (case m a of Some e \<Rightarrow> deadline e | None \<Rightarrow> 0)"

definition fd_of :: "(addr \<rightharpoonup> eh) \<Rightarrow> addr \<Rightarrow> fd" where
  "fd_of m a = (case m a of Some e \<Rightarrow> eh_fd e | None \<Rightarrow> - 1)"

lemma dl_upd [simp]: "dl (m(a \<mapsto> e)) = (dl m)(a := deadline e)"
  by (auto simp: dl_def)

lemma fd_of_upd [simp]: "fd_of (m(a \<mapsto> e)) = (fd_of m)(a := eh_fd e)"
  by (auto simp: fd_of_def)

lemma dl_at: "m a = Some e \<Longrightarrow> dl m a = deadline e"
  by (simp add: dl_def)

lemma fd_of_at: "m a = Some e \<Longrightarrow> fd_of m a = eh_fd e"
  by (simp add: fd_of_def)

text \<open>
  The heap: the list \<open>l\<close> represents \<open>xs\<close>, which holds exactly the handlers registered in the
  loop \<open>me\<close>; every other handler's node is detached; a registered handler is kept alive by
  the loop's own reference; no address above \<open>b\<close> is in use.
\<close>

definition eh_ok :: "addr \<Rightarrow> addr \<Rightarrow> node_heap \<Rightarrow> addr list \<Rightarrow> addr \<Rightarrow> eh \<Rightarrow> bool" where
  "eh_ok b me ns xs a e \<longleftrightarrow>
     a < b \<and> ref_count e \<ge> 0 \<and> eh_fd e \<ge> 0 \<and>
     (if a \<in> set xs then event_loop e = Some me \<and> ref_count e \<ge> 1
      else event_loop e = None \<and> ns a = Some new_node)"

definition heap_ok ::
  "addr \<Rightarrow> addr \<Rightarrow> node_heap \<Rightarrow> dlist \<Rightarrow> (addr \<rightharpoonup> eh) \<Rightarrow> addr list \<Rightarrow> bool" where
  "heap_ok b me ns l m xs \<longleftrightarrow>
     dll ns l xs \<and> dom ns = dom m \<and> set xs \<subseteq> dom m \<and>
     (\<forall>a e. m a = Some e \<longrightarrow> eh_ok b me ns xs a e)"

text \<open>Time: the handlers expire in list order, none later than a full timeout from now.\<close>

definition time_ok :: "duration \<Rightarrow> time \<Rightarrow> (addr \<rightharpoonup> eh) \<Rightarrow> addr list \<Rightarrow> bool" where
  "time_ok d now m xs \<longleftrightarrow>
     d > 0 \<and> sorted (map (dl m) xs) \<and> (\<forall>a \<in> set xs. dl m a \<le> now + d)"

text \<open>Epoll: the interest list holds the wake-up pipe and the registered handlers' sockets.\<close>

definition poll_ok ::
  "fd \<Rightarrow> (fd \<rightharpoonup> epoll_events \<times> ptr) \<Rightarrow> nat \<Rightarrow> (addr \<rightharpoonup> eh) \<Rightarrow> addr list \<Rightarrow> bool" where
  "poll_ok p i n m xs \<longleftrightarrow>
     inj_on (fd_of m) (set xs) \<and> p \<notin> fd_of m ` set xs \<and>
     dom i = insert p (fd_of m ` set xs) \<and> (\<exists>ev. i p = Some (ev, None)) \<and>
     (\<forall>a \<in> set xs. \<exists>ev. i (fd_of m a) = Some (ev, Some a)) \<and>
     n = Suc (length xs)"

definition evl_inv :: "os \<Rightarrow> ('f, 'x) evl_scheme \<Rightarrow> addr list \<Rightarrow> bool" where
  "evl_inv os s xs \<longleftrightarrow>
     on_loop_thread s \<and>
     heap_ok (brk s) (self s) (nodes s) (expire s) (ehs s) xs \<and>
     time_ok (timeout s) (os_clock os (hist s)) (ehs s) xs \<and>
     poll_ok (pipe_rd s) (interest (hist s)) (total_events s) (ehs s) xs"

lemma evl_invI [spec_intros]:
  assumes "cur_tid s = loop_tid s"
    and "heap_ok (brk s) (self s) (nodes s) (expire s) (ehs s) xs"
    and "time_ok (timeout s) (os_clock os (hist s)) (ehs s) xs"
    and "poll_ok (pipe_rd s) (interest (hist s)) (total_events s) (ehs s) xs"
  shows "evl_inv os s xs"
  using assms by (simp add: evl_inv_def on_loop_thread_def)

lemma evl_invD:
  assumes "evl_inv os s xs"
  shows "cur_tid s = loop_tid s"
    and "heap_ok (brk s) (self s) (nodes s) (expire s) (ehs s) xs"
    and "time_ok (timeout s) (os_clock os (hist s)) (ehs s) xs"
    and "poll_ok (pipe_rd s) (interest (hist s)) (total_events s) (ehs s) xs"
  using assms by (simp_all add: evl_inv_def on_loop_thread_def)

lemma evl_inv_dll: "evl_inv os s xs \<Longrightarrow> dll (nodes s) (expire s) xs"
  by (simp add: evl_inv_def heap_ok_def)

lemma evl_inv_distinct: "evl_inv os s xs \<Longrightarrow> distinct xs"
  by (blast dest: evl_inv_dll dll_distinct)

lemma evl_inv_eh:
  "evl_inv os s xs \<Longrightarrow> ehs s a = Some e \<Longrightarrow> eh_ok (brk s) (self s) (nodes s) xs a e"
  by (simp add: evl_inv_def heap_ok_def)

lemma evl_inv_mem: "evl_inv os s xs \<Longrightarrow> a \<in> set xs \<Longrightarrow>
    \<exists>e. ehs s a = Some e \<and> event_loop e = Some (self s) \<and> ref_count e \<ge> 1"
  by (force simp: evl_inv_def heap_ok_def eh_ok_def)

lemma evl_inv_registered: "evl_inv os s xs \<Longrightarrow> registered s a \<longleftrightarrow> a \<in> set xs"
  by (force simp: evl_inv_def heap_ok_def eh_ok_def registered_def split: if_splits)

lemma evl_inv_detached:
  assumes "evl_inv os s xs" and "ehs s a = Some e" and "event_loop e = None"
  shows "a \<notin> set xs" and "nodes s a = Some new_node"
proof -
  have "eh_ok (brk s) (self s) (nodes s) xs a e" using assms(1,2) by (rule evl_inv_eh)
  with assms(3) show "a \<notin> set xs" and "nodes s a = Some new_node"
    by (auto simp: eh_ok_def split: if_splits)
qed

lemma evl_inv_fd: "evl_inv os s xs \<Longrightarrow> a \<in> set xs \<Longrightarrow> ehs s a = Some e \<Longrightarrow>
    eh_fd e \<in> dom (interest (hist s))"
  by (force simp: evl_inv_def poll_ok_def fd_of_def)

lemma evl_inv_deadline:
  "evl_inv os s xs \<Longrightarrow> a \<in> set xs \<Longrightarrow> dl (ehs s) a \<le> os_clock os (hist s) + timeout s"
  by (simp add: evl_inv_def time_ok_def)

lemma evl_inv_total: "evl_inv os s xs \<Longrightarrow> total_events s = Suc (length xs)"
  by (simp add: evl_inv_def poll_ok_def)

lemma time_ok_later: "time_ok d now m xs \<Longrightarrow> now \<le> now' \<Longrightarrow> time_ok d now' m xs"
  by (force simp: time_ok_def)

lemma interest_clock [simp]: "interest (Clock_now t # h) = interest h"
  by simp

text \<open>Events that are not \<open>epoll_ctl\<close> calls only let time pass.\<close>

lemma evl_inv_log:
  assumes "evl_inv os s xs" and "clock_mono os" and "interest (e # hist s) = interest (hist s)"
  shows "evl_inv os (log_event e s) xs"
  using evl_invD [OF assms(1)] time_ok_later [OF _ clock_monoD [OF assms(2)]] assms(3)
  by (intro evl_invI) (simp_all add: log_event_def del: interest.simps)

lemma evl_inv_logs:
  assumes "evl_inv os s xs" and "clock_mono os" and "\<forall>e \<in> set es. quiet e"
  shows "evl_inv os (s\<lparr>hist := es @ hist s\<rparr>) xs"
  using evl_invD [OF assms(1)] time_ok_later [OF _ clock_mono_append [OF assms(2)]]
    interest_quiet [OF assms(3)]
  by (intro evl_invI) simp_all

section \<open>How the parts of the invariant change\<close>

text \<open>One handler changes, and the list may gain or lose it.\<close>

lemma heap_ok_change:
  assumes ok: "heap_ok b me ns l m xs" and a: "m a = Some e"
    and dll: "dll ns' l' ys"
    and fr: "\<And>c. c \<notin> set xs \<Longrightarrow> c \<noteq> a \<Longrightarrow> ns' c = ns c"
    and mem: "\<And>c. c \<noteq> a \<Longrightarrow> c \<in> set ys \<longleftrightarrow> c \<in> set xs"
    and ok': "eh_ok b me ns' ys a e'"
  shows "heap_ok b me ns' l' (m(a \<mapsto> e')) ys"
proof -
  have na: "ns' a \<noteq> None"
    using ok' dll_dom [OF dll, of a] by (auto simp: eh_ok_def split: if_splits)
  have "ns' c \<noteq> None \<longleftrightarrow> m c \<noteq> None" for c
  proof (cases "c = a \<or> c \<in> set ys")
    case True
    then show ?thesis
      using na a dll_dom [OF dll, of c] mem [of c] ok by (auto simp: heap_ok_def)
  next
    case False
    with mem fr have "ns' c = ns c" by blast
    then show ?thesis using ok by (auto simp: heap_ok_def domIff set_eq_iff)
  qed
  then have "dom ns' = dom m" by (auto simp: domIff)
  moreover have "set ys \<subseteq> dom (m(a \<mapsto> e'))"
    using mem ok by (fastforce simp: heap_ok_def)
  moreover have "eh_ok b me ns' ys c d" if "(m(a \<mapsto> e')) c = Some d" for c d
    using that ok ok' mem [of c] fr [of c]
    by (auto simp: heap_ok_def eh_ok_def split: if_splits)
  ultimately show ?thesis
    using dll a by (auto simp: heap_ok_def)
qed

lemma poll_ok_add:
  assumes ok: "poll_ok p i n m xs" and a: "a \<notin> set xs" and fresh: "eh_fd e \<notin> dom i"
  shows "poll_ok p (i(eh_fd e \<mapsto> (ev, Some a))) (Suc n) (m(a \<mapsto> e)) (xs @ [a])"
proof -
  from ok fresh have new: "eh_fd e \<noteq> p" "eh_fd e \<notin> fd_of m ` set xs"
    by (auto simp: poll_ok_def)
  have img: "fd_of (m(a \<mapsto> e)) ` set xs = fd_of m ` set xs"
    using a by (auto intro!: image_cong)
  have "inj_on (fd_of (m(a \<mapsto> e))) (set xs)"
    using ok a by (subst inj_on_cong [where g = "fd_of m"]) (auto simp: poll_ok_def)
  moreover have ne: "fd_of m b \<noteq> eh_fd e" if "b \<in> set xs" for b
    using that new by (metis imageI)
  moreover have "\<exists>ev'. (i(eh_fd e \<mapsto> (ev, Some a))) (fd_of m b) = Some (ev', Some b)"
    if "b \<in> set xs" for b
    using that ok ne by (auto simp: poll_ok_def)
  ultimately show ?thesis
    using ok new img a by (auto simp: poll_ok_def)
qed

lemma poll_ok_remove:
  assumes ok: "poll_ok p i n m xs" and mem: "a \<in> set xs" and dist: "distinct xs"
    and a: "fd_of m a = eh_fd e"
  shows "poll_ok p (i(eh_fd e := None)) (n - 1) (m(a \<mapsto> e)) (remove1 a xs)"
proof -
  from ok have inj: "inj_on (fd_of m) (set xs)" by (simp add: poll_ok_def)
  have same: "fd_of (m(a \<mapsto> e)) = fd_of m"
    using a by (simp add: fun_upd_idem)
  have img: "fd_of m ` (set xs - {a}) = fd_of m ` set xs - {eh_fd e}"
    using mem a by (subst inj_on_image_set_diff [OF inj]) auto
  have "p \<noteq> eh_fd e" using ok mem a by (force simp: poll_ok_def)
  moreover have "eh_fd e \<noteq> fd_of m b" if "b \<in> set xs" "b \<noteq> a" for b
    using that inj mem a by (auto simp: inj_on_def)
  moreover have "inj_on (fd_of m) (set xs - {a})"
    using inj by (auto intro: inj_on_subset)
  ultimately show ?thesis
    using ok dist mem img length_pos_if_in_set [OF mem]
    unfolding poll_ok_def same by (auto simp: length_remove1)
qed

lemma poll_ok_same:
  assumes "poll_ok p i n m xs" and "a \<in> set xs" and "fd_of m a = eh_fd e"
    and "distinct ys" and "set ys = set xs" and "length ys = length xs"
  shows "poll_ok p i n (m(a \<mapsto> e)) ys"
    and "poll_ok p (i(eh_fd e \<mapsto> (ev, Some a))) n m xs"
proof -
  have same: "fd_of (m(a \<mapsto> e)) = fd_of m"
    using assms(3) by (simp add: fun_upd_idem)
  show "poll_ok p i n (m(a \<mapsto> e)) ys"
    using assms unfolding poll_ok_def same by simp
  have "eh_fd e \<in> fd_of m ` set xs" using assms(2,3) by force
  then show "poll_ok p (i(eh_fd e \<mapsto> (ev, Some a))) n m xs"
    using assms(1,2,3) by (auto simp: poll_ok_def inj_on_def)
qed

section \<open>What the operations of the loop do\<close>

lemma EventLoop_Add_spec:
  assumes inv: "evl_inv os s xs" and ctl: "epoll_ctl_ok os" and mono: "clock_mono os"
    and a: "ehs s a = Some e" and free: "event_loop e = None"
    and fresh: "eh_fd e \<notin> dom (interest (hist s))"
  shows "\<exists>ns l s'. EventLoop_Add os (Some a) ev s = Some s' \<and>
    s' = s\<lparr>ehs := (ehs s)(a \<mapsto> e\<lparr>ref_count := ref_count e + 1, event_loop := Some (self s),
                                  deadline := os_clock os (hist s) + timeout s\<rparr>),
           nodes := ns, expire := l,
           hist := Epoll_ctl CTL_ADD (eh_fd e) ev (Some a) 0 # Clock_now (os_clock os (hist s)) # hist s,
           total_events := Suc (total_events s)\<rparr> \<and>
    evl_inv os s' (xs @ [a])"
proof -
  note det = evl_inv_detached [OF inv a free] and ok = evl_inv_eh [OF inv a]
  from AddTail_dll [OF evl_inv_dll [OF inv] det(2) det(1)]
  obtain ns l where add: "AddTail (Some a) (nodes s) (expire s) = Some (ns, l)"
    and dll: "dll ns l (xs @ [a])" and fr: "\<And>b. b \<notin> set (xs @ [a]) \<Longrightarrow> ns b = nodes s b"
    by blast
  let ?h = "Clock_now (os_clock os (hist s)) # hist s"
  let ?c = "Epoll_ctl CTL_ADD (eh_fd e) ev (Some a) 0"
  let ?e = "e\<lparr>ref_count := ref_count e + 1, event_loop := Some (self s),
              deadline := os_clock os (hist s) + timeout s\<rparr>"
  let ?s = "s\<lparr>ehs := (ehs s)(a \<mapsto> ?e), nodes := ns, expire := l, hist := ?c # ?h,
           total_events := Suc (total_events s)\<rparr>"
  have "os_epoll_ctl os ?h CTL_ADD (eh_fd e) = 0"
    using fresh by (intro epoll_ctl_okD [OF ctl]) simp
  then have run: "EventLoop_Add os (Some a) ev s = Some ?s"
    using evl_invD(1) [OF inv] a free add ok
    by (simp add: EventLoop_Add_def IncRef_def upd_eh_def sys_defs EPoll_Add_def eh_ok_def
        on_loop_thread_def Let_def)
  have "heap_ok (brk s) (self s) ns l ((ehs s)(a \<mapsto> ?e)) (xs @ [a])"
    using evl_invD(2) [OF inv] a dll
    by (rule heap_ok_change) (use fr ok in \<open>auto simp: eh_ok_def\<close>)
  moreover have "time_ok (timeout s) (os_clock os (hist s)) ((ehs s)(a \<mapsto> ?e)) (xs @ [a])"
    using evl_invD(3) [OF inv] det(1) by (simp add: time_ok_def sorted_append)
  then have "time_ok (timeout s) (os_clock os (?c # ?h)) ((ehs s)(a \<mapsto> ?e)) (xs @ [a])"
    using clock_mono_append [OF mono, of "hist s" "[?c, Clock_now (os_clock os (hist s))]"]
    by (auto elim: time_ok_later)
  moreover have "poll_ok (pipe_rd s) (interest (?c # ?h)) (Suc (total_events s))
      ((ehs s)(a \<mapsto> ?e)) (xs @ [a])"
    using poll_ok_add [OF evl_invD(4) [OF inv] det(1), of ?e ev] fresh by simp
  ultimately have "evl_inv os ?s (xs @ [a])"
    using evl_invD(1) [OF inv] by (intro evl_invI) simp_all
  with run show ?thesis by blast
qed

lemma EventLoop_Remove_spec:
  assumes inv: "evl_inv os s xs" and ctl: "epoll_ctl_ok os" and mono: "clock_mono os"
    and mem: "a \<in> set xs" and a: "ehs s a = Some e" and held: "ref_count e \<ge> 2"
  shows "\<exists>ns l s'. EventLoop_Remove os dtor (Some a) s = Some s' \<and>
    s' = s\<lparr>nodes := ns, expire := l,
           hist := Epoll_ctl CTL_DEL (eh_fd e) 0 None 0 # hist s,
           total_events := total_events s - 1,
           ehs := (ehs s)(a \<mapsto> e\<lparr>event_loop := None, ref_count := ref_count e - 1\<rparr>)\<rparr> \<and>
    evl_inv os s' (remove1 a xs)"
proof -
  from Erase_member [OF evl_inv_dll [OF inv] mem]
  obtain ns l where del: "Erase (Some a) (nodes s) (expire s) = Some (ns, l)"
    and dll: "dll ns l (remove1 a xs)" and nd: "ns a = Some new_node"
    and fr: "\<And>b. b \<notin> set xs \<Longrightarrow> ns b = nodes s b"
    by blast
  note dist = evl_inv_distinct [OF inv] and ok = evl_inv_eh [OF inv a]
  let ?c = "Epoll_ctl CTL_DEL (eh_fd e) 0 None 0"
  let ?e = "e\<lparr>event_loop := None, ref_count := ref_count e - 1\<rparr>"
  let ?s = "s\<lparr>nodes := ns, expire := l, hist := ?c # hist s,
           total_events := total_events s - 1, ehs := (ehs s)(a \<mapsto> ?e)\<rparr>"
  have "os_epoll_ctl os (hist s) CTL_DEL (eh_fd e) = 0"
    using evl_inv_fd [OF inv mem a] by (intro epoll_ctl_okD [OF ctl])
  then have run: "EventLoop_Remove os dtor (Some a) s = Some ?s"
    using evl_invD(1) [OF inv] a mem del ok held evl_inv_total [OF inv]
    by (simp add: EventLoop_Remove_def DecRef_def upd_eh_def sys_defs EPoll_Remove_def eh_ok_def
        on_loop_thread_def Let_def)
  have "heap_ok (brk s) (self s) ns l ((ehs s)(a \<mapsto> ?e)) (remove1 a xs)"
    using evl_invD(2) [OF inv] a dll fr
    by (rule heap_ok_change) (use ok held nd dist in \<open>auto simp: eh_ok_def\<close>)
  moreover have "time_ok (timeout s) (os_clock os (hist s)) ((ehs s)(a \<mapsto> ?e)) (remove1 a xs)"
    using evl_invD(3) [OF inv] dist
    by (auto simp: time_ok_def sorted_map_remove1)
  then have "time_ok (timeout s) (os_clock os (?c # hist s)) ((ehs s)(a \<mapsto> ?e)) (remove1 a xs)"
    using clock_monoD [OF mono] by (rule time_ok_later)
  moreover have "poll_ok (pipe_rd s) (interest (?c # hist s)) (total_events s - 1)
      ((ehs s)(a \<mapsto> ?e)) (remove1 a xs)"
    using poll_ok_remove [OF evl_invD(4) [OF inv] mem dist, of ?e] fd_of_at [of "ehs s", OF a] by simp
  ultimately have "evl_inv os ?s (remove1 a xs)"
    using evl_invD(1) [OF inv] by (intro evl_invI) simp_all
  with run show ?thesis by blast
qed

lemma EventLoop_Modify_spec:
  assumes inv: "evl_inv os s xs" and ctl: "epoll_ctl_ok os" and mono: "clock_mono os"
    and mem: "a \<in> set xs" and a: "ehs s a = Some e"
  shows "\<exists>s'. EventLoop_Modify os (Some a) ev s = Some s' \<and>
    s' = s\<lparr>hist := Epoll_ctl CTL_MOD (eh_fd e) ev (Some a) 0 # hist s\<rparr> \<and> evl_inv os s' xs"
proof -
  let ?c = "Epoll_ctl CTL_MOD (eh_fd e) ev (Some a) 0"
  let ?s = "s\<lparr>hist := ?c # hist s\<rparr>"
  note ok = evl_inv_eh [OF inv a]
  have "os_epoll_ctl os (hist s) CTL_MOD (eh_fd e) = 0"
    using evl_inv_fd [OF inv mem a] by (intro epoll_ctl_okD [OF ctl])
  then have run: "EventLoop_Modify os (Some a) ev s = Some ?s"
    using evl_invD(1) [OF inv] a mem ok evl_inv_total [OF inv]
    by (simp add: EventLoop_Modify_def sys_defs EPoll_Modify_def eh_ok_def
        on_loop_thread_def Let_def)
  have "time_ok (timeout s) (os_clock os (?c # hist s)) (ehs s) xs"
    using evl_invD(3) [OF inv] clock_monoD [OF mono] by (rule time_ok_later)
  moreover have "poll_ok (pipe_rd s) (interest (?c # hist s)) (total_events s) (ehs s) xs"
    using poll_ok_same(2) [OF evl_invD(4) [OF inv] mem fd_of_at [of "ehs s", OF a]
        evl_inv_distinct [OF inv] refl refl] by simp
  ultimately have "evl_inv os ?s xs"
    using evl_invD(1,2) [OF inv] by (intro evl_invI) simp_all
  with run show ?thesis by blast
qed

lemma EventLoop_Refresh_spec:
  assumes inv: "evl_inv os s xs" and mono: "clock_mono os"
    and mem: "a \<in> set xs" and a: "ehs s a = Some e"
  shows "\<exists>ns l s'. EventLoop_Refresh os (Some a) s = Some s' \<and>
    s' = s\<lparr>hist := Clock_now (os_clock os (hist s)) # hist s,
           ehs := (ehs s)(a \<mapsto> e\<lparr>deadline := os_clock os (hist s) + timeout s\<rparr>),
           nodes := ns, expire := l\<rparr> \<and>
    evl_inv os s' (remove1 a xs @ [a])"
proof -
  let ?d = "os_clock os (hist s) + timeout s" and ?c = "Clock_now (os_clock os (hist s))"
  let ?e = "e\<lparr>deadline := ?d\<rparr>" and ?ys = "remove1 a xs @ [a]"
  from node_list.move_to_back [OF evl_inv_dll [OF inv] mem]
  obtain n1 l1 ns l where e1: "Erase (Some a) (nodes s) (expire s) = Some (n1, l1)"
    and a1: "AddTail (Some a) n1 l1 = Some (ns, l)" and dll: "dll ns l ?ys"
    and fr: "\<And>b. b \<notin> set xs \<Longrightarrow> same_node (nodes s) ns b"
    by metis
  note dist = evl_inv_distinct [OF inv] and ok = evl_inv_eh [OF inv a]
  let ?s = "s\<lparr>hist := ?c # hist s, ehs := (ehs s)(a \<mapsto> ?e), nodes := ns, expire := l\<rparr>"
  from mem obtain t where t: "last_ptr xs = Some t" and tm: "t \<in> set xs"
    by (metis last_ptr_eq_None last_ptr_in_set list.set_cases not_None_eq list.distinct(1))
  then obtain te where "ehs s t = Some te" and "deadline te \<le> ?d"
    using evl_inv_mem [OF inv tm] evl_inv_deadline [OF inv tm] by (auto simp: dl_def)
  then have run: "EventLoop_Refresh os (Some a) s = Some ?s"
    using evl_invD(1) [OF inv] a mem ok e1 a1 t dll_tail [OF evl_inv_dll [OF inv]]
    by (simp add: EventLoop_Refresh_def upd_eh_def sys_defs eh_ok_def on_loop_thread_def Let_def)
  have set_ys: "set ?ys = set xs" using mem dist by auto
  have len: "length ?ys = length xs"
    using mem length_pos_if_in_set [OF mem] by (simp add: length_remove1)
  have "heap_ok (brk s) (self s) ns l ((ehs s)(a \<mapsto> ?e)) ?ys"
    using evl_invD(2) [OF inv] a dll
    by (rule heap_ok_change) (use fr ok mem dist in \<open>auto simp: eh_ok_def same_node_def\<close>)
  moreover have "sorted (map (dl (ehs s)) (remove1 a xs) @ [?d])"
    using evl_invD(3) [OF inv] by (intro sorted_remove_snoc) (auto simp: time_ok_def)
  then have "time_ok (timeout s) (os_clock os (hist s)) ((ehs s)(a \<mapsto> ?e)) ?ys"
    using evl_invD(3) [OF inv] dist by (auto simp: time_ok_def)
  then have "time_ok (timeout s) (os_clock os (?c # hist s)) ((ehs s)(a \<mapsto> ?e)) ?ys"
    using clock_monoD [OF mono] by (rule time_ok_later)
  moreover have "poll_ok (pipe_rd s) (interest (?c # hist s)) (total_events s) ((ehs s)(a \<mapsto> ?e)) ?ys"
    using poll_ok_same(1) [OF evl_invD(4) [OF inv] mem, of ?e ?ys] fd_of_at [of "ehs s", OF a]
      set_ys len dll_distinct [OF dll] by simp
  ultimately have "evl_inv os ?s ?ys"
    using evl_invD(1) [OF inv] by (intro evl_invI) simp_all
  with run show ?thesis by blast
qed

text \<open>A loop that has been constructed has no handlers, and nothing is scheduled.\<close>

lemma AddFlags_result:
  assumes "AddFlags os f fl s = Some s'"
  shows "\<exists>es. s' = s\<lparr>hist := es @ hist s\<rparr> \<and> (\<forall>e \<in> set es. quiet e \<and> \<not> is_callback e)"
proof -
  let ?g = "Fcntl_getfl f (os_getfl os (hist s) f)"
  from assms have "s' = s\<lparr>hist := [Fcntl_setfl f (fl OR os_getfl os (hist s) f) 0, ?g] @ hist s\<rparr>"
    by (auto simp: AddFlags_def sys_defs Let_def split: if_splits)
  then show ?thesis
    by (intro exI [of _ "[Fcntl_setfl f (fl OR os_getfl os (hist s) f) 0, ?g]"]) (simp add: is_callback_def)
qed

lemma EventLoop_ctor_result:
  assumes "EventLoop_ctor os d s = Some s'"
  shows "\<exists>es. hist s' = Epoll_ctl CTL_ADD (pipe_rd s') EPOLLIN None 0 # es @ hist s \<and>
      (\<forall>e \<in> set es. quiet e \<and> \<not> is_callback e) \<and> d > 0 \<and> timeout s' = d \<and> total_events s' = 1 \<and> expire s' = new_list \<and>
      sched s' = [] \<and> nodes s' = nodes s \<and> ehs s' = ehs s \<and> brk s' = brk s \<and> self s' = self s \<and>
      cur_tid s' = cur_tid s \<and> loop_tid s' = loop_tid s \<and> evl.more s' = evl.more s"
proof -
  let ?c = "Epoll_create (os_epoll_create os (hist s))"
  let ?s = "s\<lparr>hist := ?c # hist s, total_events := 0, events_size := 0, expire := new_list, timeout := d\<rparr>"
  have c: "EPoll_ctor os s = Some (s\<lparr>hist := ?c # hist s, total_events := 0, events_size := 0\<rparr>)"
    using assms by (auto simp: EventLoop_ctor_def EPoll_ctor_def sys_epoll_create_def Let_def log_event_def
        split: if_splits)
  have "\<exists>es p. (\<forall>e \<in> set es. quiet e \<and> \<not> is_callback e) \<and> d > 0 \<and>
      EPoll_Add os (fst p) EPOLLIN None
        (?s\<lparr>hist := es @ hist s, pipe_rd := fst p, pipe_wr := snd p, sched := []\<rparr>) = Some s'"
  proof (cases "os_pipe2 os (?c # hist s)")
    case (Inr p)
    with assms c show ?thesis
      by (intro exI [of _ "[Pipe2 (Inr p), ?c]"] exI [of _ p])
        (auto simp: EventLoop_ctor_def sys_pipe2_def Let_def log_event_def is_callback_def split: if_splits)
  next
    case (Inl e)
    let ?h = "Pipe2 (Inl e) # ?c # hist s"
    show ?thesis
    proof (cases "os_pipe os ?h")
      case (Inl e')
      with assms c \<open>os_pipe2 os (?c # hist s) = Inl e\<close> show ?thesis
        by (auto simp: EventLoop_ctor_def sys_pipe2_def sys_pipe_def Let_def log_event_def split: if_splits)
    next
      case (Inr p)
      let ?s1 = "?s\<lparr>hist := Pipe (Inr p) # ?h\<rparr>"
      from assms c Inl Inr obtain s2 s3 where 2: "AddFlags os (fst p) O_DIRECT ?s1 = Some s2"
        and 3: "AddFlags os (snd p) O_DIRECT s2 = Some s3" and d: "d > 0"
        and 4: "EPoll_Add os (fst p) EPOLLIN None (s3\<lparr>pipe_rd := fst p, pipe_wr := snd p, sched := []\<rparr>) = Some s'"
        by (auto simp: EventLoop_ctor_def sys_pipe2_def sys_pipe_def Let_def log_event_def
            split: if_splits Option.bind_splits)
      from AddFlags_result [OF 2] AddFlags_result [OF 3] obtain e2 e3 where
        "s3 = ?s\<lparr>hist := (e3 @ e2 @ [Pipe (Inr p), Pipe2 (Inl e), ?c]) @ hist s\<rparr>"
        "\<forall>e \<in> set e2. quiet e \<and> \<not> is_callback e" "\<forall>e \<in> set e3. quiet e \<and> \<not> is_callback e" by auto
      with 4 d show ?thesis
        by (intro exI [of _ "e3 @ e2 @ [Pipe (Inr p), Pipe2 (Inl e), ?c]"] exI [of _ p])
          (auto simp: is_callback_def)
    qed
  qed
  then show ?thesis
    by (auto simp: EPoll_Add_def sys_epoll_ctl_def Let_def log_event_def split: if_splits)
qed

lemma EventLoop_ctor_inv:
  assumes run: "EventLoop_ctor os d s = Some s'" and fresh: "interest (hist s) = Map.empty"
    and none: "ehs s = Map.empty" "nodes s = Map.empty" and thread: "on_loop_thread s"
  shows "evl_inv os s' []" and "sched s' = []" and "timeout s' = d" and "ehs s' = Map.empty"
    and "evl.more s' = evl.more s"
proof -
  from EventLoop_ctor_result [OF run] obtain es where
    es: "hist s' = Epoll_ctl CTL_ADD (pipe_rd s') EPOLLIN None 0 # es @ hist s"
      "\<forall>e \<in> set es. quiet e \<and> \<not> is_callback e"
    and r: "d > 0" "timeout s' = d" "total_events s' = 1" "expire s' = new_list" "sched s' = []"
      "nodes s' = nodes s" "ehs s' = ehs s" "cur_tid s' = cur_tid s" "loop_tid s' = loop_tid s"
      "evl.more s' = evl.more s" by blast
  have "interest (hist s') = [pipe_rd s' \<mapsto> (EPOLLIN, None)]"
    using es fresh interest_quiet [of es "hist s"] by simp
  then show "evl_inv os s' []"
    using r none thread by (simp add: evl_inv_def on_loop_thread_def heap_ok_def time_ok_def poll_ok_def dll_empty)
  show "sched s' = []" "timeout s' = d" "ehs s' = Map.empty" "evl.more s' = evl.more s"
    using r none by simp_all
qed

end
