(* ===== verification/Event_Dispatch.thy ===== *)
theory Event_Dispatch
  imports Event_Loop
begin

text \<open>
  \<open>EventLoop::Loop\<close> of \<open>src/src/event_loop.cc\<close>: waiting for events, running scheduled
  functions, dispatching events to handlers, expiring handlers.  The virtual functions
  \<open>OnEvent\<close>, \<open>OnTimeout\<close> and the destructor of a handler's class, and the call of a
  scheduled function, are parameters.  The locale \<open>event_handlers\<close> is the contract
  the loop relies on; its theorem \<open>Loop_body_ok\<close> is proved once for every kind of handler.
\<close>

section \<open>The code\<close>

definition PopFunc ::
  "('f \<Rightarrow> ('f, 'x) evl_scheme \<Rightarrow> ('f, 'x) evl_scheme option) \<Rightarrow>
     ('f, 'x) evl_scheme \<Rightarrow> ('f, 'x) evl_scheme option" where
  "PopFunc run s = (case sched s of [] \<Rightarrow> None | f # fs \<Rightarrow> run f (s\<lparr>sched := fs\<rparr>))"

definition EventLoop_Schedule :: "'f option \<Rightarrow> ('f, 'x) evl_scheme \<Rightarrow> ('f, 'x) evl_scheme option" where
  "EventLoop_Schedule func s = do {
     f \<leftarrow> func;
     CHECK (\<not> on_loop_thread s);
     Some (s\<lparr>sched := sched s @ [f]\<rparr>)
   }"

definition ScheduleOrRun ::
  "('f \<Rightarrow> ('f, 'x) evl_scheme \<Rightarrow> ('f, 'x) evl_scheme option) \<Rightarrow> 'f option \<Rightarrow>
     ('f, 'x) evl_scheme \<Rightarrow> ('f, 'x) evl_scheme option" where
  "ScheduleOrRun run func s = do {
     f \<leftarrow> func;
     if on_loop_thread s then run f s else EventLoop_Schedule (Some f) s
   }"

fun inc_refs ::
  "(epoll_events \<times> ptr) list \<Rightarrow> ('f, 'x) evl_scheme \<Rightarrow> ('f, 'x) evl_scheme option" where
  "inc_refs [] s = Some s"
| "inc_refs ((ev, p) # evs) s = do {
     s \<leftarrow> (case p of Some a \<Rightarrow> IncRef a s | None \<Rightarrow> Some s);
     inc_refs evs s
   }"

definition handle_event ::
  "(addr \<Rightarrow> epoll_events \<Rightarrow> ('f, 'x) evl_scheme \<Rightarrow> ('f, 'x) evl_scheme option) \<Rightarrow>
   (addr \<Rightarrow> ('f, 'x) evl_scheme \<Rightarrow> ('f, 'x) evl_scheme option) \<Rightarrow>
   addr \<Rightarrow> epoll_events \<Rightarrow> ('f, 'x) evl_scheme \<Rightarrow> ('f, 'x) evl_scheme option" where
  "handle_event on_event dtor a ev s = do {
     e \<leftarrow> ehs s a;
     s \<leftarrow> (if event_loop e = Some (self s) then on_event a ev s else Some s);
     DecRef dtor a s
   }"

fun dispatch ::
  "(addr \<Rightarrow> epoll_events \<Rightarrow> ('f, 'x) evl_scheme \<Rightarrow> ('f, 'x) evl_scheme option) \<Rightarrow>
   (addr \<Rightarrow> ('f, 'x) evl_scheme \<Rightarrow> ('f, 'x) evl_scheme option) \<Rightarrow>
   ('f \<Rightarrow> ('f, 'x) evl_scheme \<Rightarrow> ('f, 'x) evl_scheme option) \<Rightarrow>
   (epoll_events \<times> ptr) list \<Rightarrow> ('f, 'x) evl_scheme \<Rightarrow> ('f, 'x) evl_scheme option" where
  "dispatch on_event dtor run [] s = Some s"
| "dispatch on_event dtor run ((ev, p) # evs) s = do {
     s \<leftarrow> (case p of
         None \<Rightarrow> PopFunc run s
       | Some a \<Rightarrow> handle_event on_event dtor a ev s);
     dispatch on_event dtor run evs s
   }"

definition expire_one ::
  "os \<Rightarrow> (addr \<Rightarrow> ('f, 'x) evl_scheme \<Rightarrow> ('f, 'x) evl_scheme option) \<Rightarrow>
   (addr \<Rightarrow> ('f, 'x) evl_scheme \<Rightarrow> ('f, 'x) evl_scheme option) \<Rightarrow>
   addr \<Rightarrow> ('f, 'x) evl_scheme \<Rightarrow> ('f, 'x) evl_scheme option" where
  "expire_one os on_timeout dtor a s = do {
     e \<leftarrow> ehs s a;
     CHECK (event_loop e = Some (self s));
     s \<leftarrow> IncRef a s;
     s \<leftarrow> on_timeout a s;
     e \<leftarrow> ehs s a;
     s \<leftarrow> (if event_loop e = Some (self s) then EventLoop_Refresh os (Some a) s else Some s);
     DecRef dtor a s
   }"

partial_function (option) expire_loop ::
  "os \<Rightarrow> (addr \<Rightarrow> ('f, 'x) evl_scheme \<Rightarrow> ('f, 'x) evl_scheme option) \<Rightarrow>
   (addr \<Rightarrow> ('f, 'x) evl_scheme \<Rightarrow> ('f, 'x) evl_scheme option) \<Rightarrow>
   ('f, 'x) evl_scheme \<Rightarrow> ('f, 'x) evl_scheme option" where
  "expire_loop os on_timeout dtor s =
     (case l_head (expire s) of
        None \<Rightarrow> Some s
      | Some a \<Rightarrow> do {
          e \<leftarrow> ehs s a;
          let (now, s) = sys_clock os s;
          if deadline e > now then Some s
          else do {
            s \<leftarrow> expire_one os on_timeout dtor a s;
            expire_loop os on_timeout dtor s
          }
        })"

lemma expire_loop_empty: "l_head (expire s) = None \<Longrightarrow> expire_loop os on_timeout dtor s = Some s"
  by (simp add: expire_loop.simps [of os on_timeout dtor s])

definition Loop_body ::
  "os \<Rightarrow> (addr \<Rightarrow> epoll_events \<Rightarrow> ('f, 'x) evl_scheme \<Rightarrow> ('f, 'x) evl_scheme option) \<Rightarrow>
   (addr \<Rightarrow> ('f, 'x) evl_scheme \<Rightarrow> ('f, 'x) evl_scheme option) \<Rightarrow>
   (addr \<Rightarrow> ('f, 'x) evl_scheme \<Rightarrow> ('f, 'x) evl_scheme option) \<Rightarrow>
   ('f \<Rightarrow> ('f, 'x) evl_scheme \<Rightarrow> ('f, 'x) evl_scheme option) \<Rightarrow>
   ('f, 'x) evl_scheme \<Rightarrow> ('f, 'x) evl_scheme option" where
  "Loop_body os on_event on_timeout dtor run s = do {
     (ready, s) \<leftarrow> EPoll_Wait os (Some (timeout s)) s;
     s \<leftarrow> inc_refs ready s;
     s \<leftarrow> dispatch on_event dtor run ready s;
     expire_loop os on_timeout dtor s
   }"

text \<open>
  The call of \<open>epoll_wait\<close> with which the next pass begins fails, for instance with \<open>EINTR\<close>.  This is the case in
  which the \<open>CHECK\<close> in \<open>EPoll::Wait\<close> aborts the process.
\<close>

definition wait_fails :: "os \<Rightarrow> ('f, 'x) evl_scheme \<Rightarrow> bool" where
  "wait_fails os s \<longleftrightarrow>
     (let n = (if total_events s > events_size s then std_capacity os (events_size s) (total_events s) else events_size s)
      in \<exists>e. os_epoll_wait os (hist s) n (wait_ms (Some (timeout s))) = Inl e)"

lemma wait_fails_iff: "wait_fails os s \<longleftrightarrow> EPoll_Wait os (Some (timeout s)) s = None"
  by (auto simp: wait_fails_def EPoll_Wait_def sys_epoll_wait_def Let_def split: sum.splits if_splits)

lemma Loop_body_waits: "Loop_body os on_event on_timeout dtor run s = Some s' \<Longrightarrow> \<not> wait_fails os s"
  "wait_fails os s \<Longrightarrow> Loop_body os on_event on_timeout dtor run s = None"
  by (cases "EPoll_Wait os (Some (timeout s)) s"; simp add: wait_fails_iff Loop_body_def)+

text \<open>The wake-up pipe is reported as readable only when a function is waiting in it.\<close>

definition wakeup_ok :: "os \<Rightarrow> ('f, 'x) evl_scheme \<Rightarrow> bool" where
  "wakeup_ok os s \<longleftrightarrow>
     (\<forall>n ms r. os_epoll_wait os (hist s) n ms = Inr r \<longrightarrow> None \<in> snd ` set r \<longrightarrow> sched s \<noteq> [])"

section \<open>Reference counts and the invariant\<close>

lemma fd_of_same:
  assumes "m a = Some e" and "eh_fd e' = eh_fd e"
  shows "fd_of (m(a \<mapsto> e')) = fd_of m"
  using assms by (simp add: fun_upd_idem fd_of_at)

lemma heap_ok_refs:
  assumes "heap_ok b me ns l m xs" and "m a = Some e" and "n \<ge> 0" and "a \<in> set xs \<longrightarrow> n \<ge> 1"
  shows "heap_ok b me ns l (m(a \<mapsto> e\<lparr>ref_count := n\<rparr>)) xs"
  using assms by (intro heap_ok_change) (auto simp: heap_ok_def eh_ok_def)

lemma evl_inv_refs:
  assumes "evl_inv os s xs" and "ehs s a = Some e" and "n \<ge> 0" and "a \<in> set xs \<longrightarrow> n \<ge> 1"
  shows "evl_inv os (s\<lparr>ehs := (ehs s)(a \<mapsto> e\<lparr>ref_count := n\<rparr>)\<rparr>) xs"
proof -
  have "dl ((ehs s)(a \<mapsto> e\<lparr>ref_count := n\<rparr>)) = dl (ehs s)"
    and "fd_of ((ehs s)(a \<mapsto> e\<lparr>ref_count := n\<rparr>)) = fd_of (ehs s)"
    using dl_at [of "ehs s", OF assms(2)] fd_of_at [of "ehs s", OF assms(2)]
    by (simp_all add: fun_upd_idem)
  with evl_invD [OF assms(1)] heap_ok_refs [OF evl_invD(2) [OF assms(1)] assms(2-4)]
  show ?thesis
    by (intro evl_invI) (simp_all add: time_ok_def poll_ok_def)
qed

text \<open>Time and epoll parts of the invariant depend on the registered handlers only.\<close>

lemma time_poll_upd:
  assumes a: "a \<notin> set xs"
  shows "time_ok d now (m(a := v)) xs = time_ok d now m xs"
    and "poll_ok p i n (m(a := v)) xs = poll_ok p i n m xs"
proof -
  have d: "dl (m(a := v)) b = dl m b" and f: "fd_of (m(a := v)) b = fd_of m b" if "b \<in> set xs" for b
    using that a by (auto simp: dl_def fd_of_def)
  from d have md: "map (dl (m(a := v))) xs = map (dl m) xs" by simp
  show "time_ok d now (m(a := v)) xs = time_ok d now m xs"
    unfolding time_ok_def md by (simp add: d)
  from f have "fd_of (m(a := v)) ` set xs = fd_of m ` set xs"
    and "inj_on (fd_of (m(a := v))) (set xs) = inj_on (fd_of m) (set xs)"
    by (auto cong: inj_on_cong intro: image_cong)
  with f show "poll_ok p i n (m(a := v)) xs = poll_ok p i n m xs"
    by (simp add: poll_ok_def)
qed

lemma evl_inv_free:
  assumes inv: "evl_inv os s xs" and a: "a \<notin> set xs"
  shows "evl_inv os (s\<lparr>ehs := (ehs s)(a := None), nodes := (nodes s)(a := None)\<rparr>) xs"
proof -
  have "heap_ok (brk s) (self s) ((nodes s)(a := None)) (expire s) ((ehs s)(a := None)) xs"
    using evl_invD(2) [OF inv] a by (auto simp: heap_ok_def eh_ok_def split: if_splits)
  then show ?thesis
    using evl_invD [OF inv] a by (intro evl_invI) (simp_all add: time_poll_upd)
qed

lemma evl_inv_new:
  assumes inv: "evl_inv os s xs" and new: "new_EventHandler f s = Some (a, s')"
  shows "evl_inv os s' xs" and "a = brk s" and "f \<ge> 0" and "ehs s a = None"
    and "s' = s\<lparr>brk := Suc a, nodes := (nodes s)(a \<mapsto> new_node),
       ehs := (ehs s)(a \<mapsto> \<lparr>eh_fd = f, deadline = 0, event_loop = None, ref_count = 0\<rparr>)\<rparr>"
proof -
  let ?e = "\<lparr>eh_fd = f, deadline = 0, event_loop = None, ref_count = 0\<rparr>"
  from new show a: "a = brk s" and f: "f \<ge> 0"
    and s': "s' = s\<lparr>brk := Suc a, nodes := (nodes s)(a \<mapsto> new_node), ehs := (ehs s)(a \<mapsto> ?e)\<rparr>"
    by (auto simp: new_EventHandler_def Let_def split: if_splits)
  show "ehs s a = None"
    using evl_inv_eh [OF inv, of a] a by (cases "ehs s a") (auto simp: eh_ok_def)
  then have mem: "a \<notin> set xs" using evl_inv_mem [OF inv, of a] by auto
  have old: "eh_ok (Suc a) (self s) ((nodes s)(a \<mapsto> new_node)) xs c d" if "ehs s c = Some d" for c d
    using evl_inv_eh [OF inv that] a by (auto simp: eh_ok_def)
  have "heap_ok (Suc a) (self s) ((nodes s)(a \<mapsto> new_node)) (expire s) ((ehs s)(a \<mapsto> ?e)) xs"
    using evl_invD(2) [OF inv] mem f old by (auto simp: heap_ok_def eh_ok_def [of _ _ _ _ a])
  then show "evl_inv os s' xs"
    using evl_invD [OF inv] s' mem by (intro evl_invI) (simp_all add: time_poll_upd)
qed

text \<open>The batch \<open>epoll_wait\<close> reports: registered handlers, and at most one wake-up.\<close>

lemma wait_batch:
  assumes inv: "evl_inv os s xs" and wait: "epoll_wait_ok os" and ok: "\<not> wait_fails os s"
  shows "\<exists>ready k r. EPoll_Wait os (Some (timeout s)) s =
      Some (ready, log_event (Epoll_wait k (wait_ms (Some (timeout s))) r) (s\<lparr>events_size := k\<rparr>)) \<and>
    os_epoll_wait os (hist s) k (wait_ms (Some (timeout s))) = Inr ready \<and>
    (\<forall>ev a. (ev, Some a) \<in> set ready \<longrightarrow> registered s a) \<and>
    length (filter (\<lambda>x. snd x = None) ready) \<le> 1 \<and>
    k = (if total_events s > events_size s then std_capacity os (events_size s) (total_events s) else events_size s)"
proof -
  let ?k = "if total_events s > events_size s
            then std_capacity os (events_size s) (total_events s) else events_size s"
  let ?i = "interest (hist s)" and ?d = "Some (timeout s)"
  let ?g = "\<lambda>(f, ev :: epoll_events). (ev, snd (the (?i f)))"
  from ok obtain q where "os_epoll_wait os (hist s) ?k (wait_ms ?d) = Inr q"
    unfolding wait_fails_def Let_def by (cases "os_epoll_wait os (hist s) ?k (wait_ms ?d)") simp_all
  moreover from wait this obtain fes where fes: "distinct (map fst fes)" "fst ` set fes \<subseteq> dom ?i" "q = map ?g fes"
    unfolding epoll_wait_ok_def by (elim allE impE exE conjE) (assumption, rule that)
  ultimately have r: "os_epoll_wait os (hist s) ?k (wait_ms ?d) = Inr (map ?g fes)" by simp
  have i: "a \<in> set xs" if "f \<in> dom ?i" "snd (the (?i f)) = Some a" for f a
    using that evl_invD(4) [OF inv] by (auto simp: poll_ok_def)
  have none: "f = pipe_rd s" if "f \<in> dom ?i" "snd (the (?i f)) = None" for f
    using that evl_invD(4) [OF inv] by (auto simp: poll_ok_def)
  have "(ev, Some a) \<in> set (map ?g fes) \<Longrightarrow> registered s a" for ev a
    using i fes(2) evl_inv_registered [OF inv, of a] by force
  moreover have "length (filter (\<lambda>x. snd x = None) (map ?g fes)) \<le> 1"
  proof -
    let ?fs = "filter (\<lambda>x. snd (?g x) = None) fes"
    have "set (map fst ?fs) \<subseteq> {pipe_rd s}"
      using none fes(2) by force
    moreover have "distinct (map fst ?fs)" using fes(1) by (simp add: distinct_map_filter)
    ultimately have "length (map fst ?fs) \<le> 1"
      by (metis card.empty card_insert_disjoint card_mono distinct_card empty_iff finite.intros One_nat_def)
    then show ?thesis by (simp add: filter_map comp_def)
  qed
  moreover have "EPoll_Wait os ?d s =
      Some (map ?g fes, log_event (Epoll_wait ?k (wait_ms ?d) (Inr (map ?g fes))) (s\<lparr>events_size := ?k\<rparr>))"
    using r by (simp add: EPoll_Wait_def sys_epoll_wait_def Let_def log_event_def split: if_splits)
  ultimately show ?thesis using r by blast
qed

text \<open>The references a batch of events holds on a handler.\<close>

definition batch :: "(epoll_events \<times> ptr) list \<Rightarrow> addr \<Rightarrow> nat" where
  "batch evs a = length (filter (\<lambda>(ev, p). p = Some a) evs)"

lemma batch_simps:
  "batch [] = (\<lambda>a. 0)"
  "batch ((ev, p) # evs) = (\<lambda>a. batch evs a + (if p = Some a then 1 else 0))"
  by (auto simp: batch_def fun_eq_iff)

definition on_time :: "os \<Rightarrow> ('f, 'x) evl_scheme \<Rightarrow> addr \<Rightarrow> bool" where
  "on_time os s a \<longleftrightarrow> (\<exists>h. hist s = Clock_now (os_clock os h) # h \<and> os_clock os h < dl (ehs s) a)"

section \<open>The contract of event handlers\<close>

text \<open>
  \<open>inv t s\<close> is the invariant of the handlers' class, where \<open>t a\<close> counts the references
  somebody on the call stack holds on handler \<open>a\<close>.  A handler is called only while it is
  registered and while the loop holds a reference on it; it keeps the invariant and the pending
  functions.  A handler that times out unregisters itself and registers nobody.  A pending function
  does not schedule others.
\<close>

locale event_handlers =
  fixes os :: os
    and on_event :: "addr \<Rightarrow> epoll_events \<Rightarrow> ('f, 'x) evl_scheme \<Rightarrow> ('f, 'x) evl_scheme option"
    and on_timeout :: "addr \<Rightarrow> ('f, 'x) evl_scheme \<Rightarrow> ('f, 'x) evl_scheme option"
    and dtor :: "addr \<Rightarrow> ('f, 'x) evl_scheme \<Rightarrow> ('f, 'x) evl_scheme option"
    and run :: "'f \<Rightarrow> ('f, 'x) evl_scheme \<Rightarrow> ('f, 'x) evl_scheme option"
    and inv :: "(addr \<Rightarrow> nat) \<Rightarrow> ('f, 'x) evl_scheme \<Rightarrow> bool"
  assumes inv_evl: "inv t s \<Longrightarrow> \<exists>xs. evl_inv os s xs"
    and inv_clock: "inv t s \<Longrightarrow> inv t (log_event (Clock_now now) s)"
    and inv_wait: "inv t s \<Longrightarrow> inv t (log_event (Epoll_wait n ms r) (s\<lparr>events_size := k\<rparr>))"
    and inv_held: "inv t s \<Longrightarrow> t a > 0 \<Longrightarrow> ehs s a \<noteq> None"
    and inv_IncRef: "inv t s \<Longrightarrow> registered s a \<Longrightarrow> ehs s a = Some e \<Longrightarrow>
      inv (t(a := Suc (t a))) (s\<lparr>ehs := (ehs s)(a \<mapsto> e\<lparr>ref_count := ref_count e + 1\<rparr>)\<rparr>)"
    and inv_DecRef: "inv t s \<Longrightarrow> t a > 0 \<Longrightarrow>
      \<exists>s'. DecRef dtor a s = Some s' \<and> inv (t(a := t a - 1)) s' \<and> sched s' = sched s \<and>
        registered s' = registered s"
    and on_event: "inv t s \<Longrightarrow> t a > 0 \<Longrightarrow> registered s a \<Longrightarrow>
      \<exists>s'. on_event a ev s = Some s' \<and> inv t s' \<and> sched s' = sched s"
    and on_timeout: "inv t s \<Longrightarrow> t a > 0 \<Longrightarrow> registered s a \<Longrightarrow>
      \<exists>s'. on_timeout a s = Some s' \<and> inv t s' \<and> sched s' = sched s \<and> \<not> registered s' a \<and>
        (\<forall>b. registered s' b \<longrightarrow> registered s b)"
    and run: "inv t s \<Longrightarrow> sched s = f # fs \<Longrightarrow>
      \<exists>s'. run f (s\<lparr>sched := fs\<rparr>) = Some s' \<and> inv t s' \<and> sched s' = fs"
begin

lemma IncRef_ok:
  assumes "inv t s" and "registered s a"
  shows "\<exists>s'. IncRef a s = Some s' \<and> inv (t(a := Suc (t a))) s' \<and> sched s' = sched s \<and>
    registered s' = registered s \<and> hist s' = hist s"
proof -
  from assms(2) obtain e where e: "ehs s a = Some e" by (auto simp: registered_def)
  from inv_evl [OF assms(1)] obtain xs where "evl_inv os s xs" by blast
  then have "ref_count e \<ge> 0" using evl_inv_eh [OF _ e] by (simp add: eh_ok_def)
  with inv_IncRef [OF assms e] e show ?thesis
    by (auto simp: IncRef_def registered_def fun_eq_iff)
qed

lemma inc_refs_ok:
  assumes "inv t s" and "\<And>ev a. (ev, Some a) \<in> set evs \<Longrightarrow> registered s a"
  shows "\<exists>s'. inc_refs evs s = Some s' \<and> inv (\<lambda>a. t a + batch evs a) s' \<and> sched s' = sched s"
  using assms
proof (induction evs arbitrary: t s)
  case Nil
  then show ?case by (simp add: batch_simps)
next
  case (Cons x evs)
  obtain ev p where x: "x = (ev, p)" by fastforce
  show ?case
  proof (cases p)
    case None
    from Cons.IH [OF Cons.prems(1)] Cons.prems(2) x None show ?thesis
      by (auto simp: batch_simps)
  next
    case (Some a)
    with Cons.prems(2) x have "registered s a" by auto
    from IncRef_ok [OF Cons.prems(1) this] obtain s1 where s1: "IncRef a s = Some s1"
      "inv (t(a := Suc (t a))) s1" "sched s1 = sched s" "registered s1 = registered s"
      by blast
    have "\<exists>s2. inc_refs evs s1 = Some s2 \<and>
        inv (\<lambda>b. (t(a := Suc (t a))) b + batch evs b) s2 \<and> sched s2 = sched s1"
    proof (rule Cons.IH [OF s1(2)])
      fix ev' b assume "(ev', Some b) \<in> set evs"
      with Cons.prems(2) s1(4) show "registered s1 b" by auto
    qed
    then obtain s2 where "inc_refs evs s1 = Some s2"
      "inv (\<lambda>b. (t(a := Suc (t a))) b + batch evs b) s2" "sched s2 = sched s1"
      by blast
    moreover have "(\<lambda>b. (t(a := Suc (t a))) b + batch evs b) = (\<lambda>b. t b + batch ((ev, Some a) # evs) b)"
      by (auto simp: batch_simps fun_eq_iff)
    ultimately show ?thesis using s1 x Some by simp
  qed
qed

text \<open>An event whose handler was unregistered meanwhile is dropped; the reference is returned.\<close>

lemma handle_event_ok:
  assumes "inv t s" and "t a > 0"
  shows "\<exists>s'. handle_event on_event dtor a ev s = Some s' \<and> inv (t(a := t a - 1)) s' \<and>
    sched s' = sched s"
proof -
  from inv_held [OF assms] obtain e where e: "ehs s a = Some e" by blast
  obtain s1 where s1: "(if event_loop e = Some (self s) then on_event a ev s else Some s) = Some s1"
    "inv t s1" "sched s1 = sched s"
    using on_event [OF assms, of ev] assms(1) e
    by (cases "event_loop e = Some (self s)") (auto simp: registered_def)
  with e inv_DecRef [OF s1(2) assms(2)] show ?thesis
    by (auto simp: handle_event_def)
qed

lemma dispatch_ok:
  assumes "inv (\<lambda>a. t a + batch evs a) s" and "None \<in> snd ` set evs \<longrightarrow> sched s \<noteq> []"
    and "length (filter (\<lambda>x. snd x = None) evs) \<le> 1"
  shows "\<exists>s'. dispatch on_event dtor run evs s = Some s' \<and> inv t s' \<and>
    sched s' = (if None \<in> snd ` set evs then tl (sched s) else sched s)"
  using assms
proof (induction evs arbitrary: s)
  case Nil
  then show ?case by (simp add: batch_simps)
next
  case (Cons x evs)
  obtain ev p where x: "x = (ev, p)" by fastforce
  show ?case
  proof (cases p)
    case None
    with Cons.prems x obtain f fs where fs: "sched s = f # fs" by (cases "sched s") auto
    from run [OF Cons.prems(1) fs] obtain s1 where s1: "PopFunc run s = Some s1"
      "inv (\<lambda>a. t a + batch evs a) s1" "sched s1 = fs"
      using fs x None by (auto simp: PopFunc_def batch_simps)
    have "None \<notin> snd ` set evs"
      using Cons.prems(3) x None by (auto simp: filter_empty_conv)
    with Cons.IH [OF s1(2)] Cons.prems(3) s1(1,3) x None fs show ?thesis by auto
  next
    case (Some a)
    have pos: "(\<lambda>b. t b + batch ((ev, p) # evs) b) a > 0" by (simp add: Some batch_simps)
    from handle_event_ok [OF Cons.prems(1) [unfolded x] pos, of ev] obtain s2
      where s2: "handle_event on_event dtor a ev s = Some s2" "sched s2 = sched s"
        "inv ((\<lambda>b. t b + batch ((ev, p) # evs) b)(a := (t a + batch ((ev, p) # evs) a) - 1)) s2"
      by blast
    have "(\<lambda>b. t b + batch ((ev, p) # evs) b)(a := (t a + batch ((ev, p) # evs) a) - 1) =
        (\<lambda>b. t b + batch evs b)"
      by (auto simp: Some batch_simps fun_eq_iff)
    with s2 have "inv (\<lambda>b. t b + batch evs b) s2" by simp
    with Cons.IH [of s2] Cons.prems(2,3) s2(1,2) x Some show ?thesis by auto
  qed
qed

text \<open>
  The expiration loop returns: every round unregisters a handler.  When it returns, all
  deadlines lie after the last reading of the clock (\<open>on_time\<close>).
\<close>

lemma expire_one_ok:
  assumes "inv t s" and "registered s a"
  shows "\<exists>s'. expire_one os on_timeout dtor a s = Some s' \<and> inv t s' \<and> sched s' = sched s \<and>
    \<not> registered s' a \<and> (\<forall>b. registered s' b \<longrightarrow> registered s b)"
proof -
  from assms(2) obtain e where e: "ehs s a = Some e" "event_loop e = Some (self s)"
    by (auto simp: registered_def)
  from IncRef_ok [OF assms] obtain s1 where s1: "IncRef a s = Some s1"
    "inv (t(a := Suc (t a))) s1" "registered s1 = registered s" "sched s1 = sched s" by blast
  from on_timeout [OF s1(2), of a] s1(3) assms(2) obtain s2 where s2: "on_timeout a s1 = Some s2"
    "inv (t(a := Suc (t a))) s2" "\<not> registered s2 a" "\<forall>b. registered s2 b \<longrightarrow> registered s1 b"
    "sched s2 = sched s1" by auto
  from inv_held [OF s2(2), of a] obtain e2 where e2: "ehs s2 a = Some e2" by auto
  from inv_DecRef [OF s2(2), of a] obtain s3 where s3: "DecRef dtor a s2 = Some s3"
    "inv t s3" "registered s3 = registered s2" "sched s3 = sched s2" by auto
  have "event_loop e2 \<noteq> Some (self s2)"
    using s2(3) e2 by (auto simp: registered_def)
  with e s1 s2 e2 s3 show ?thesis by (auto simp: expire_one_def)
qed

lemma registered_shrinks:
  assumes "evl_inv os s xs" and "evl_inv os s' zs" and "registered s a" and "\<not> registered s' a"
    and "\<forall>b. registered s' b \<longrightarrow> registered s b"
  shows "length zs < length xs"
proof -
  have "set zs \<subset> set xs"
    using assms(3-5) evl_inv_registered [OF assms(1)] evl_inv_registered [OF assms(2)] by blast
  then have "card (set zs) < card (set xs)" by (simp add: psubset_card_mono)
  then show ?thesis
    using evl_inv_distinct [OF assms(1)] evl_inv_distinct [OF assms(2)] by (simp add: distinct_card)
qed

lemma expire_loop_ok:
  assumes "inv t s"
  shows "\<exists>s'. expire_loop os on_timeout dtor s = Some s' \<and> inv t s' \<and> sched s' = sched s \<and>
    (\<forall>a. registered s' a \<longrightarrow> registered s a \<and> on_time os s' a)"
proof -
  from inv_evl [OF assms] obtain xs where "evl_inv os s xs" by blast
  with assms show ?thesis
  proof (induction "length xs" arbitrary: s xs rule: less_induct)
    case less
    note hd = dll_head [OF evl_inv_dll [OF less.prems(2)]]
      and reg = evl_inv_registered [OF less.prems(2)]
    show ?case
    proof (cases xs)
      case Nil
      with hd reg less.prems show ?thesis
        by (auto simp: expire_loop.simps [of os on_timeout dtor s])
    next
      case (Cons a ys)
      then obtain e where e: "ehs s a = Some e" "event_loop e = Some (self s)"
        using evl_inv_mem [OF less.prems(2), of a] by auto
      let ?now = "os_clock os (hist s)"
      let ?s = "log_event (Clock_now ?now) s"
      have inv1: "inv t ?s" by (rule inv_clock [OF less.prems(1)])
      have reg1: "registered ?s = registered s"
        by (simp add: registered_def log_event_def fun_eq_iff)
      show ?thesis
      proof (cases "deadline e > ?now")
        case True
        have "deadline e \<le> dl (ehs s) b" if "b \<in> set xs" for b
          using that evl_invD(3) [OF less.prems(2)] Cons dl_at [of "ehs s", OF e(1)]
          by (auto simp: time_ok_def)
        with True have "?now < dl (ehs s) b" if "b \<in> set xs" for b
          using that by fastforce
        with True hd Cons e inv1 reg reg1 show ?thesis
          by (auto simp: expire_loop.simps [of os on_timeout dtor s] sys_clock_def Let_def
              log_event_def on_time_def)
      next
        case False
        have "registered ?s a" using reg1 reg Cons by simp
        from expire_one_ok [OF inv1 this] obtain s3 where s3:
          "expire_one os on_timeout dtor a ?s = Some s3" "inv t s3" "\<not> registered s3 a"
          "\<forall>b. registered s3 b \<longrightarrow> registered s b" "sched s3 = sched s"
          using reg1 by (auto simp: log_event_def)
        from inv_evl [OF s3(2)] obtain zs where zs: "evl_inv os s3 zs" by blast
        have "length zs < length xs"
          using less.prems(2) zs _ s3(3,4) by (rule registered_shrinks) (simp add: reg Cons)
        from less.hyps [OF this s3(2) zs] s3 False hd Cons e show ?thesis
          by (auto simp: expire_loop.simps [of os on_timeout dtor s] sys_clock_def Let_def)
      qed
    qed
  qed
qed

text \<open>
  One pass of the loop, unless \<open>epoll_wait\<close> fails: it returns, runs the oldest pending function if \<open>epoll_wait\<close> reports the
  wake-up pipe, and leaves no handler past its deadline.
\<close>

lemma Loop_after_wait:
  assumes w: "EPoll_Wait os (Some (timeout s)) s =
      Some (ready, log_event (Epoll_wait k ms r) (s\<lparr>events_size := k\<rparr>))"
    and inv: "inv (\<lambda>_. 0) (log_event (Epoll_wait k ms r) (s\<lparr>events_size := k\<rparr>))"
    and ready: "\<And>ev a. (ev, Some a) \<in> set ready \<Longrightarrow> registered s a" "length (filter (\<lambda>x. snd x = None) ready) \<le> 1"
      "None \<in> snd ` set ready \<longrightarrow> sched s \<noteq> []"
  shows "\<exists>s'. Loop_body os on_event on_timeout dtor run s = Some s' \<and> inv (\<lambda>_. 0) s' \<and>
    (\<forall>a. registered s' a \<longrightarrow> on_time os s' a) \<and>
    sched s' = (if None \<in> snd ` set ready then tl (sched s) else sched s)"
proof -
  let ?s = "log_event (Epoll_wait k ms r) (s\<lparr>events_size := k\<rparr>)"
  have "\<exists>s1. inc_refs ready ?s = Some s1 \<and> inv (\<lambda>a. 0 + batch ready a) s1 \<and> sched s1 = sched ?s"
    using inv ready(1) by (intro inc_refs_ok) (auto simp: log_event_def registered_def)
  then obtain s1 where s1: "inc_refs ready ?s = Some s1" "inv (\<lambda>a. 0 + batch ready a) s1"
    "sched s1 = sched s" by (auto simp: log_event_def)
  from dispatch_ok [OF s1(2) _ ready(2)] ready(3) s1(3) obtain s2 where
    s2: "dispatch on_event dtor run ready s1 = Some s2" "inv (\<lambda>_. 0) s2"
      "sched s2 = (if None \<in> snd ` set ready then tl (sched s) else sched s)" by auto
  from expire_loop_ok [OF s2(2)] w s1(1) s2(1,3) show ?thesis
    by (auto simp: Loop_body_def)
qed

theorem Loop_body_ok:
  assumes "inv (\<lambda>_. 0) s" and "epoll_wait_ok os" and "wakeup_ok os s" and "\<not> wait_fails os s"
  shows "\<exists>s'. Loop_body os on_event on_timeout dtor run s = Some s' \<and> inv (\<lambda>_. 0) s' \<and>
    (\<forall>a. registered s' a \<longrightarrow> on_time os s' a)"
proof -
  from inv_evl [OF assms(1)] obtain xs where "evl_inv os s xs" by blast
  from wait_batch [OF this assms(2,4)] obtain ready k r where
    w: "EPoll_Wait os (Some (timeout s)) s =
      Some (ready, log_event (Epoll_wait k (wait_ms (Some (timeout s))) r) (s\<lparr>events_size := k\<rparr>))"
    "os_epoll_wait os (hist s) k (wait_ms (Some (timeout s))) = Inr ready"
    "\<And>ev a. (ev, Some a) \<in> set ready \<Longrightarrow> registered s a"
    "length (filter (\<lambda>x. snd x = None) ready) \<le> 1" by blast
  have "None \<in> snd ` set ready \<longrightarrow> sched s \<noteq> []" using assms(3) w(2) by (auto simp: wakeup_ok_def)
  from Loop_after_wait [OF w(1) inv_wait [OF assms(1)] _ w(4) this] w(3) show ?thesis by blast
qed

end

end
