(* ===== verification/Link_Buffer.thy ===== *)
theory Link_Buffer
  imports Posix_Env "HOL-Library.Sublist"
begin

text \<open>
  The class \<open>Buffer\<close> of \<open>src/src/forwarder.cc\<close>: a pipe that holds the bytes on their way
  to one socket.  The fields \<open>b_capacity\<close>, \<open>b_size\<close>, \<open>b_rd\<close> and \<open>b_wr\<close> are the members
  \<open>capacity_\<close>, \<open>size_\<close>, \<open>pipe_[0]\<close> and \<open>pipe_[1]\<close>.  The kernel's pipe object behind the two
  descriptors is \<open>k_data\<close>, its content in order; \<open>k_src\<close>, \<open>k_in\<close> and \<open>k_out\<close> are history
  variables that no operation reads: the bytes spliced from the other socket, all bytes that
  entered the pipe, and the bytes spliced out to this socket.
\<close>

section \<open>The code\<close>

datatype IoStatus = kData | kEof | kError | kNoOp

record buffer =
  b_capacity :: int
  b_size :: int
  b_rd :: fd
  b_wr :: fd
  k_data :: string
  k_src :: string
  k_in :: string
  k_out :: string

definition new_buffer :: buffer where
  "new_buffer = \<lparr>b_capacity = 0, b_size = 0, b_rd = - 1, b_wr = - 1,
     k_data = [], k_src = [], k_in = [], k_out = []\<rparr>"

definition INT_MAX :: int where
  "INT_MAX = 2147483647"

definition Buffer_Init ::
  "os \<Rightarrow> nat \<Rightarrow> buffer \<Rightarrow> 'a world_scheme \<Rightarrow> (bool \<times> buffer \<times> 'a world_scheme) option" where
  "Buffer_Init os size_bytes b s = do {
     CHECK (size_bytes > 0 \<and> int size_bytes < INT_MAX);
     let (r, s) = sys_pipe os s;
     (case r of
        Inl e \<Rightarrow> do {
          CHECK (e = EMFILE \<or> e = ENFILE);
          Some (False, b\<lparr>b_rd := - 1, b_wr := - 1\<rparr>, s)
        }
      | Inr (rd, wr) \<Rightarrow> do {
          let (c, s) = sys_setpipe_sz os rd size_bytes s;
          CHECK (c > 0);
          CHECK (rd \<ge> 0);
          let (c1, s) = sys_getpipe_sz os rd s;
          CHECK (c1 = c);
          CHECK (wr \<ge> 0);
          let (c2, s) = sys_getpipe_sz os wr s;
          CHECK (c2 = c);
          Some (True, b\<lparr>b_capacity := c, b_rd := rd, b_wr := wr, k_data := []\<rparr>, s)
        })
   }"

definition close_checked :: "os \<Rightarrow> fd \<Rightarrow> 'a world_scheme \<Rightarrow> 'a world_scheme option" where
  "close_checked os f s = do {
     let (r, s) = sys_close os f s;
     CHECK (r = 0);
     Some s
   }"

definition Buffer_dtor :: "os \<Rightarrow> buffer \<Rightarrow> 'a world_scheme \<Rightarrow> 'a world_scheme option" where
  "Buffer_dtor os b s = do {
     s \<leftarrow> (if b_rd b \<ge> 0 then close_checked os (b_rd b) s else Some s);
     (if b_wr b \<ge> 0 then close_checked os (b_wr b) s else Some s)
   }"

definition Buffer_Write ::
  "os \<Rightarrow> string \<Rightarrow> buffer \<Rightarrow> 'a world_scheme \<Rightarrow> (buffer \<times> 'a world_scheme) option" where
  "Buffer_Write os data b s = do {
     CHECK (b_size b \<ge> 0);
     CHECK (b_size b \<le> b_capacity b);
     CHECK (int (length data) \<le> b_capacity b - b_size b);
     CHECK (b_wr b \<ge> 0);
     let (r, s) = sys_write os (b_wr b) data s;
     CHECK (r = Inr (length data));
     let b = b\<lparr>b_size := b_size b + int (length data), k_data := k_data b @ data,
               k_in := k_in b @ data\<rparr>;
     CHECK (b_size b \<ge> 0);
     CHECK (b_size b \<le> b_capacity b);
     Some (b, s)
   }"

definition WriteFrom ::
  "os \<Rightarrow> fd \<Rightarrow> buffer \<Rightarrow> 'a world_scheme \<Rightarrow> (IoStatus \<times> buffer \<times> 'a world_scheme) option" where
  "WriteFrom os f b s = do {
     CHECK (b_wr b \<ge> 0);
     CHECK (b_size b \<ge> 0);
     CHECK (b_size b \<le> b_capacity b);
     if b_size b = b_capacity b then Some (kNoOp, b, s)
     else do {
       let (r, s) = sys_splice_in os f (b_wr b) (nat (b_capacity b - b_size b)) s;
       (case r of
          Inl e \<Rightarrow>
            if e = EAGAIN then Some (kNoOp, b, s)
            else do {
              s \<leftarrow> close_checked os (b_wr b) s;
              Some (kError, b\<lparr>b_wr := - 1\<rparr>, s)
            }
        | Inr bs \<Rightarrow>
            if bs = [] then do {
              s \<leftarrow> close_checked os (b_wr b) s;
              Some (kEof, b\<lparr>b_wr := - 1\<rparr>, s)
            }
            else do {
              let b = b\<lparr>b_size := b_size b + int (length bs), k_data := k_data b @ bs,
                        k_src := k_src b @ bs, k_in := k_in b @ bs\<rparr>;
              CHECK (b_size b \<ge> 0);
              CHECK (b_size b \<le> b_capacity b);
              Some (kData, b, s)
            })
     }
   }"

definition ReadTo ::
  "os \<Rightarrow> fd \<Rightarrow> buffer \<Rightarrow> 'a world_scheme \<Rightarrow> (IoStatus \<times> buffer \<times> 'a world_scheme) option" where
  "ReadTo os f b s = do {
     CHECK (b_rd b \<ge> 0);
     CHECK (b_size b \<ge> 0);
     if b_size b = 0 then
       (if b_wr b \<ge> 0 then Some (kNoOp, b, s)
        else do {
          s \<leftarrow> close_checked os (b_rd b) s;
          Some (kEof, b\<lparr>b_rd := - 1\<rparr>, s)
        })
     else do {
       let (p, s) = sys_write_probe os f s;
       if p = EAGAIN \<or> p = EWOULDBLOCK then Some (kNoOp, b, s)
       else do {
         let (r, s) = sys_splice_out os (b_rd b) f (k_data b) (nat (b_size b)) s;
         (case r of
            Inl (e, rest) \<Rightarrow> do {
              let b = b\<lparr>k_data := rest\<rparr>;
              (again, s) \<leftarrow> (if e = EAGAIN then do {
                  let (q, s) = sys_fionread os (b_rd b) (k_data b) s;
                  len \<leftarrow> (case q of Inr n \<Rightarrow> Some n | Inl _ \<Rightarrow> None);
                  Some (int len = b_size b, s)
                } else Some (False, s));
              if again then Some (kNoOp, b, s)
              else do {
                s \<leftarrow> close_checked os (b_rd b) s;
                Some (kError, b\<lparr>b_rd := - 1\<rparr>, s)
              }
            }
          | Inr n \<Rightarrow> do {
              CHECK (n \<noteq> 0);
              let b = b\<lparr>b_size := b_size b - int n, k_out := k_out b @ take n (k_data b),
                        k_data := drop n (k_data b)\<rparr>;
              CHECK (b_size b \<ge> 0);
              CHECK (b_size b \<le> b_capacity b);
              Some (kData, b, s)
            })
       }
     }
   }"

section \<open>The invariant of a buffer\<close>

text \<open>
  What is in the pipe is what went in and has not come out, and \<open>size_\<close> counts it, as long
  as the read end is open.  Closing the read end may drop bytes, but never reorders,
  duplicates or invents any.
\<close>

definition buffer_ok :: "buffer \<Rightarrow> bool" where
  "buffer_ok b \<longleftrightarrow>
     0 < b_capacity b \<and> 0 \<le> b_size b \<and> b_size b \<le> b_capacity b \<and>
     prefix (k_out b) (k_in b) \<and>
     (b_rd b \<ge> 0 \<longrightarrow> k_in b = k_out b @ k_data b \<and> b_size b = int (length (k_data b)))"

lemma close_checked_ok:
  "close_ok os \<Longrightarrow> close_checked os f s = Some (log_event (Close f 0) s)"
  by (simp add: close_checked_def sys_close_def close_ok_def)

text \<open>A group of calls in which the kernel said that socket \<open>f\<close> has no more bytes, or takes none.\<close>

definition would_block_in :: "fd \<Rightarrow> event list \<Rightarrow> bool" where
  "would_block_in f es \<longleftrightarrow> (\<exists>p n. Splice_in f p n (Inl EAGAIN) \<in> set es)"

definition would_block_out :: "fd \<Rightarrow> event list \<Rightarrow> bool" where
  "would_block_out f es \<longleftrightarrow>
     Write_probe f EAGAIN \<in> set es \<or> (\<exists>p n. Splice_out p f n (Inl EAGAIN) \<in> set es)"

section \<open>WriteFrom\<close>

text \<open>\<open>WriteFrom\<close> on an open buffer never aborts; its four results.\<close>

lemma WriteFrom_spec:
  assumes ok: "buffer_ok b" and wr: "b_wr b \<ge> 0" and k: "splice_ok os" "close_ok os"
  shows "\<exists>st b' es. WriteFrom os f b s = Some (st, b', s\<lparr>hist := es @ hist s\<rparr>) \<and> buffer_ok b' \<and>
    (\<forall>e \<in> set es. quiet e) \<and> b_rd b' = b_rd b \<and> b_capacity b' = b_capacity b \<and>
    (\<exists>bs. k_src b' = k_src b @ bs \<and> k_in b' = k_in b @ bs \<and> k_out b' = k_out b \<and>
       k_data b' = k_data b @ bs \<and> b_size b' = b_size b + int (length bs) \<and>
       (st = kData \<longleftrightarrow> bs \<noteq> []) \<and>
       (st = kData \<longrightarrow> (\<exists>n. os_splice_in os (hist s) f n = Inr bs \<and>
          es = [Splice_in f (b_wr b) n (Inr bs)]))) \<and>
    (b_wr b' = (if st \<in> {kEof, kError} then - 1 else b_wr b)) \<and>
    (st = kNoOp \<longrightarrow> b' = b \<and> (b_size b = b_capacity b \<or> would_block_in f es))"
proof (cases "b_size b = b_capacity b")
  case True
  with ok wr show ?thesis
    by (intro exI [of _ kNoOp] exI [of _ b] exI [of _ "[]"]) (auto simp: WriteFrom_def buffer_ok_def)
next
  case False
  let ?n = "nat (b_capacity b - b_size b)"
  let ?r = "os_splice_in os (hist s) f ?n"
  let ?e = "Splice_in f (b_wr b) ?n ?r"
  have closes: "close_checked os (b_wr b) (log_event ?e s) =
      Some (s\<lparr>hist := [Close (b_wr b) 0, ?e] @ hist s\<rparr>)"
    using k(2) by (simp add: close_checked_ok log_event_def)
  show ?thesis
  proof (cases ?r)
    case (Inl e)
    show ?thesis
    proof (cases "e = EAGAIN")
      case True
      with Inl False ok wr show ?thesis
        by (intro exI [of _ kNoOp] exI [of _ b] exI [of _ "[?e]"])
          (auto simp: would_block_in_def WriteFrom_def buffer_ok_def sys_splice_in_def Let_def log_event_def)
    next
      case False
      with Inl \<open>b_size b \<noteq> b_capacity b\<close> ok wr closes show ?thesis
        by (intro exI [of _ kError] exI [of _ "b\<lparr>b_wr := - 1\<rparr>"] exI [of _ "[Close (b_wr b) 0, ?e]"])
          (auto simp: WriteFrom_def buffer_ok_def sys_splice_in_def Let_def)
    qed
  next
    case (Inr bs)
    then have len: "length bs \<le> ?n" using k(1) by (auto simp: splice_ok_def)
    show ?thesis
    proof (cases "bs = []")
      case True
      with Inr False ok wr closes show ?thesis
        by (intro exI [of _ kEof] exI [of _ "b\<lparr>b_wr := - 1\<rparr>"] exI [of _ "[Close (b_wr b) 0, ?e]"])
          (auto simp: WriteFrom_def buffer_ok_def sys_splice_in_def Let_def)
    next
      case False
      with Inr \<open>b_size b \<noteq> b_capacity b\<close> ok wr len show ?thesis
        by (intro exI [of _ kData] exI [of _ "b\<lparr>b_size := b_size b + int (length bs),
              k_data := k_data b @ bs, k_src := k_src b @ bs, k_in := k_in b @ bs\<rparr>"] exI [of _ "[?e]"])
          (auto simp: WriteFrom_def buffer_ok_def sys_splice_in_def Let_def log_event_def)
    qed
  qed
qed

section \<open>ReadTo\<close>

text \<open>
  \<open>ReadTo\<close> on an open buffer never aborts.  It reports the end of the stream only when the
  write end is closed and every byte that entered the pipe has been delivered; when it loses
  bytes, which a failing \<open>splice\<close> may do, it reports an error and closes the read end.
\<close>

lemma ReadTo_spec:
  assumes ok: "buffer_ok b" and rd: "b_rd b \<ge> 0" and k: "splice_ok os" "close_ok os" "pipe_ok os"
  shows "\<exists>st b' es. ReadTo os f b s = Some (st, b', s\<lparr>hist := es @ hist s\<rparr>) \<and> buffer_ok b' \<and>
    (\<forall>e \<in> set es. quiet e) \<and> b_wr b' = b_wr b \<and> b_capacity b' = b_capacity b \<and>
    k_src b' = k_src b \<and> k_in b' = k_in b \<and>
    (\<exists>bs. k_out b' = k_out b @ bs \<and> b_size b' = b_size b - int (length bs) \<and>
       (st = kData \<longleftrightarrow> bs \<noteq> [])) \<and>
    b_rd b' = (if st \<in> {kEof, kError} then - 1 else b_rd b) \<and>
    (st = kEof \<longrightarrow> b_size b = 0 \<and> b_wr b < 0 \<and> k_out b' = k_in b') \<and>
    (st = kNoOp \<longrightarrow> b' = b \<and> (b_size b = 0 \<and> b_wr b \<ge> 0 \<or> would_block_out f es))"
proof (cases "b_size b = 0")
  case True
  show ?thesis
  proof (cases "b_wr b \<ge> 0")
    case True
    with \<open>b_size b = 0\<close> ok rd show ?thesis
      by (intro exI [of _ kNoOp] exI [of _ b] exI [of _ "[]"]) (auto simp: ReadTo_def buffer_ok_def)
  next
    case False
    with \<open>b_size b = 0\<close> ok rd k(2) show ?thesis
      by (intro exI [of _ kEof] exI [of _ "b\<lparr>b_rd := - 1\<rparr>"] exI [of _ "[Close (b_rd b) 0]"])
        (auto simp: ReadTo_def buffer_ok_def close_checked_ok log_event_def)
  qed
next
  case False
  let ?p = "Write_probe f (os_write_probe os (hist s) f)"
  have full: "take (nat (b_size b)) (k_data b) = k_data b"
    using ok rd by (simp add: buffer_ok_def)
  show ?thesis
  proof (cases "os_write_probe os (hist s) f = EAGAIN")
    case True
    with False ok rd show ?thesis
      by (intro exI [of _ kNoOp] exI [of _ b] exI [of _ "[?p]"])
        (auto simp: ReadTo_def sys_write_probe_def Let_def log_event_def buffer_ok_def would_block_out_def)
  next
    case probed: False
    let ?r = "os_splice_out os (?p # hist s) f (k_data b)"
    let ?o = "Splice_out (b_rd b) f (nat (b_size b))
                (case ?r of Inl (e, _) \<Rightarrow> Inl e | Inr k \<Rightarrow> Inr (take k (k_data b)))"
    note run = ReadTo_def sys_write_probe_def sys_splice_out_def sys_fionread_def Let_def log_event_def
    show ?thesis
    proof (cases ?r)
      case (Inr n)
      then have n: "0 < n" "n \<le> length (k_data b)" using k(1) by (auto simp: splice_ok_def)
      have "k_data b \<noteq> []" using n by auto
      with n Inr False probed ok rd full show ?thesis
        by (intro exI [of _ kData] exI [of _ "b\<lparr>b_size := b_size b - int n,
              k_out := k_out b @ take n (k_data b), k_data := drop n (k_data b)\<rparr>"] exI [of _ "[?o, ?p]"])
          (auto simp: run buffer_ok_def take_is_prefix)
    next
      case (Inl er)
      obtain e rest where er: "er = (e, rest)" by fastforce
      with Inl k(1) have rest: "rest = k_data b \<or> rest = []" by (auto simp: splice_ok_def)
      let ?b = "b\<lparr>k_data := rest\<rparr>"
      have ioctl: "os_ioctl os h q = 0" for h q using k(3) by (simp add: pipe_ok_def)
      show ?thesis
      proof (cases "e = EAGAIN \<and> int (length rest) = b_size b")
        case True
        with rest False have "rest = k_data b" by auto
        then have "?b = b" by simp
        with True Inl er False probed ok rd full ioctl show ?thesis
          by (intro exI [of _ kNoOp] exI [of _ b]
              exI [of _ "[Ioctl_fionread (b_rd b) (Inr (length rest)), ?o, ?p]"])
            (auto simp: run buffer_ok_def would_block_out_def)
      next
        case gone: False
        let ?es = "(if e = EAGAIN then [Ioctl_fionread (b_rd b) (Inr (length rest)), ?o, ?p] else [?o, ?p])"
        from gone Inl er False probed ok rd full ioctl k(2) show ?thesis
          by (intro exI [of _ kError] exI [of _ "?b\<lparr>b_rd := - 1\<rparr>"] exI [of _ "Close (b_rd b) 0 # ?es"])
            (auto simp: run buffer_ok_def close_checked_ok)
      qed
    qed
  qed
qed

section \<open>Init, Write and the destructor\<close>

lemma Buffer_Init_spec:
  assumes k: "pipe_ok os" and n: "0 < n" "int n < INT_MAX" "n \<le> os_pipe_max os"
  shows "\<exists>r b es. Buffer_Init os n new_buffer s = Some (r, b, s\<lparr>hist := es @ hist s\<rparr>) \<and>
    (\<forall>e \<in> set es. quiet e) \<and> b_size b = 0 \<and> k_in b = [] \<and> k_src b = [] \<and> k_out b = [] \<and>
    (if r then buffer_ok b \<and> b_rd b \<ge> 0 \<and> b_wr b \<ge> 0 \<and> int n \<le> b_capacity b
     else b = new_buffer \<and> (\<exists>e. os_pipe os (hist s) = Inl e))"
proof (cases "os_pipe os (hist s)")
  case (Inl e)
  with k have "e = EMFILE \<or> e = ENFILE" by (auto simp: pipe_ok_def)
  with Inl n show ?thesis
    by (intro exI [of _ False] exI [of _ new_buffer] exI [of _ "[Pipe (Inl e)]"])
      (auto simp: Buffer_Init_def sys_pipe_def Let_def log_event_def new_buffer_def)
next
  case (Inr p)
  obtain r w where p: "p = (r, w)" by fastforce
  let ?h1 = "Pipe (Inr (r, w)) # hist s"
  let ?c = "os_setpipe_sz os ?h1 r n"
  let ?h2 = "Fcntl_setpipe_sz r n ?c # ?h1"
  let ?h3 = "Fcntl_getpipe_sz r ?c # ?h2"
  have c: "int n \<le> ?c" "os_getpipe_sz os ?h2 r = ?c" "os_getpipe_sz os ?h3 w = ?c"
    and rw: "r \<ge> 0" "w \<ge> 0"
    using k Inr p n(3) by (auto simp: pipe_ok_def Let_def)
  with Inr p n show ?thesis
    by (intro exI [of _ True] exI [of _ "new_buffer\<lparr>b_capacity := ?c, b_rd := r, b_wr := w\<rparr>"]
        exI [of _ "[Fcntl_getpipe_sz w ?c, Fcntl_getpipe_sz r ?c, Fcntl_setpipe_sz r n ?c, Pipe (Inr (r, w))]"])
      (auto simp: Buffer_Init_def sys_pipe_def sys_setpipe_sz_def sys_getpipe_sz_def Let_def log_event_def
        new_buffer_def buffer_ok_def)
qed

lemma Buffer_Write_spec:
  assumes k: "pipe_ok os" and ok: "buffer_ok b" and fd: "b_rd b \<ge> 0" "b_wr b \<ge> 0"
    and room: "int (length data) \<le> b_capacity b - b_size b" and len: "length data \<le> PIPE_BUF"
  shows "\<exists>b'. Buffer_Write os data b s =
      Some (b', s\<lparr>hist := Write (b_wr b) data (Inr (length data)) # hist s\<rparr>) \<and> buffer_ok b' \<and>
    k_in b' = k_in b @ data \<and> k_src b' = k_src b \<and> k_out b' = k_out b \<and>
    b_rd b' = b_rd b \<and> b_wr b' = b_wr b \<and> b_capacity b' = b_capacity b"
  using assms by (auto simp: Buffer_Write_def sys_write_def Let_def log_event_def buffer_ok_def pipe_ok_def)

lemma Buffer_dtor_spec:
  assumes "close_ok os"
  shows "\<exists>es. Buffer_dtor os b s = Some (s\<lparr>hist := es @ hist s\<rparr>) \<and> (\<forall>e \<in> set es. quiet e) \<and>
    es = (if b_wr b \<ge> 0 then [Close (b_wr b) 0] else []) @ (if b_rd b \<ge> 0 then [Close (b_rd b) 0] else [])"
  using assms by (auto simp: Buffer_dtor_def close_checked_ok log_event_def)

end
