(* ===== verification/Sock.thy ===== *)
theory Sock
  imports Posix_Env
begin

text \<open>
  \<open>src/src/sock.cc\<close>: reading a socket's pending error.  The output parameters of
  \<open>getsockopt\<close> are part of its outcome.
\<close>

definition SockError :: "os \<Rightarrow> fd \<Rightarrow> 'a world_scheme \<Rightarrow> (int \<times> 'a world_scheme) option" where
  "SockError os f s = do {
     let (r, s) = sys_getsockopt os f s;
     (err, len) \<leftarrow> (case r of Inr x \<Rightarrow> Some x | Inl _ \<Rightarrow> None);
     CHECK (len = 4);
     Some (err, s)
   }"

lemma SockError_ok:
  assumes "sock_ok os"
  shows "\<exists>err. SockError os f s = Some (err, log_event (Getsockopt f (Inr (err, 4))) s)"
proof -
  from assms obtain err where "os_getsockopt os (hist s) f = Inr (err, 4)"
    unfolding sock_ok_def by blast
  then show ?thesis by (simp add: SockError_def sys_getsockopt_def Let_def)
qed

end
