(* ===== verification/Forwarder.thy ===== *)
theory Forwarder
  imports Event_Dispatch Link_Buffer Sock
begin

text \<open>
  The forwarder: \<open>src/src/forwarder.h\<close> and the class
  \<open>LinkEventHandler\<close> of \<open>src/src/forwarder.cc\<close>.  A tunnel is a pair of links, one per socket;
  each owns the buffer of the bytes on their way to its socket and points to the other.
  The state extends that of the event loop by \<open>links\<close>, the fields of the derived class.
\<close>

section \<open>Links\<close>

definition kResponse :: string where
  "kResponse = ''HTTP/1.1 200 OK'' @ [CHR 0x0D, CHR 0x0A, CHR 0x0D, CHR 0x0A]"

datatype fwd_func = NewLink fd fd

record fwd_options =
  client_to_server_buffer_size_bytes :: nat
  server_to_client_buffer_size_bytes :: nat
  read_write_timeout :: duration

definition default_fwd_options :: fwd_options where
  "default_fwd_options = \<lparr>client_to_server_buffer_size_bytes = 4096,
     server_to_client_buffer_size_bytes = 8192, read_write_timeout = 600 * 1000000000\<rparr>"

record link =
  is_client :: bool
  out :: buffer
  readable :: bool
  writable :: bool
  other :: ptr

record fwd = "fwd_func evl" +
  links :: "addr \<rightharpoonup> link"

definition upd_link :: "addr \<Rightarrow> (link \<Rightarrow> link) \<Rightarrow> fwd \<Rightarrow> fwd option" where
  "upd_link a f s = do { l \<leftarrow> links s a; Some (s\<lparr>links := (links s)(a \<mapsto> f l)\<rparr>) }"

definition new_LinkEventHandler :: "fd \<Rightarrow> bool \<Rightarrow> fwd \<Rightarrow> (addr \<times> fwd) option" where
  "new_LinkEventHandler f client s = do {
     (a, s) \<leftarrow> new_EventHandler f s;
     Some (a, s\<lparr>links := (links s)(a \<mapsto>
       \<lparr>is_client = client, out = new_buffer, readable = True, writable = True, other = None\<rparr>)\<rparr>)
   }"

definition Link_dtor :: "os \<Rightarrow> addr \<Rightarrow> fwd \<Rightarrow> fwd option" where
  "Link_dtor os a s = do {
     l \<leftarrow> links s a;
     CHECK (\<not> readable l \<and> \<not> writable l);
     s \<leftarrow> Buffer_dtor os (out l) s;
     Some (s\<lparr>links := (links s)(a := None)\<rparr>)
   }"

definition Link_Close :: "os \<Rightarrow> addr \<Rightarrow> fwd \<Rightarrow> fwd option" where
  "Link_Close os a s = do {
     l \<leftarrow> links s a;
     if readable l \<or> writable l then do {
       s \<leftarrow> upd_link a (\<lambda>l. l\<lparr>readable := False, writable := False\<rparr>) s;
       o' \<leftarrow> other l;
       s \<leftarrow> DecRef (Link_dtor os) o' s;
       s \<leftarrow> EventLoop_Remove os (Link_dtor os) (Some a) s;
       e \<leftarrow> ehs s a;
       close_checked os (eh_fd e) s
     } else Some s
   }"

definition Terminate :: "os \<Rightarrow> addr \<Rightarrow> fwd \<Rightarrow> fwd option" where
  "Terminate os a s = do {
     s \<leftarrow> Link_Close os a s;
     l \<leftarrow> links s a;
     o' \<leftarrow> other l;
     Link_Close os o' s
   }"

definition Link_Refresh :: "os \<Rightarrow> addr \<Rightarrow> fwd \<Rightarrow> fwd option" where
  "Link_Refresh os a s = do {
     l \<leftarrow> links s a;
     if readable l \<or> writable l then EventLoop_Refresh os (Some a) s else Some s
   }"

definition CloseForReading :: "os \<Rightarrow> addr \<Rightarrow> fwd \<Rightarrow> fwd option" where
  "CloseForReading os a s = do {
     l \<leftarrow> links s a;
     CHECK (readable l);
     if writable l then do {
       s \<leftarrow> upd_link a (\<lambda>l. l\<lparr>readable := False\<rparr>) s;
       s \<leftarrow> EventLoop_Modify os (Some a) (EPOLLOUT OR EPOLLET) s;
       e \<leftarrow> ehs s a;
       let (r, s) = sys_shutdown os (eh_fd e) SHUT_RD s;
       CHECK (r = 0 \<or> r = ENOTCONN);
       Some s
     } else Link_Close os a s
   }"

definition CloseForWriting :: "os \<Rightarrow> addr \<Rightarrow> fwd \<Rightarrow> fwd option" where
  "CloseForWriting os a s = do {
     l \<leftarrow> links s a;
     CHECK (writable l);
     if readable l then do {
       s \<leftarrow> upd_link a (\<lambda>l. l\<lparr>writable := False\<rparr>) s;
       s \<leftarrow> EventLoop_Modify os (Some a) (EPOLLIN OR EPOLLET) s;
       e \<leftarrow> ehs s a;
       let (r, s) = sys_shutdown os (eh_fd e) SHUT_WR s;
       CHECK (r = 0 \<or> r = ENOTCONN);
       Some s
     } else Link_Close os a s
   }"

text \<open>
  One round of the loop of \<open>ForwardFromOther\<close>: the first \<open>switch\<close>, then the second.  The
  result is \<open>None\<close> when the tunnel was terminated, which makes the loop return \<open>false\<close>, and
  \<open>Some io\<close> otherwise.
\<close>

definition fwd_read :: "os \<Rightarrow> addr \<Rightarrow> fwd \<Rightarrow> (bool option \<times> fwd) option" where
  "fwd_read os a s = do {
     l \<leftarrow> links s a;
     o' \<leftarrow> other l;
     lo \<leftarrow> links s o';
     if readable lo then do {
       eo \<leftarrow> ehs s o';
       (st, b, s) \<leftarrow> WriteFrom os (eh_fd eo) (out l) s;
       s \<leftarrow> upd_link a (\<lambda>l. l\<lparr>out := b\<rparr>) s;
       (case st of
          kData \<Rightarrow> Some (Some True, s)
        | kEof \<Rightarrow> do { s \<leftarrow> CloseForReading os o' s; Some (Some True, s) }
        | kError \<Rightarrow> do { s \<leftarrow> Terminate os a s; Some (None, s) }
        | kNoOp \<Rightarrow> Some (Some False, s))
     } else Some (Some False, s)
   }"

definition fwd_write :: "os \<Rightarrow> addr \<Rightarrow> fwd \<Rightarrow> (bool option \<times> fwd) option" where
  "fwd_write os a s = do {
     l \<leftarrow> links s a;
     if writable l then do {
       e \<leftarrow> ehs s a;
       (st, b, s) \<leftarrow> ReadTo os (eh_fd e) (out l) s;
       s \<leftarrow> upd_link a (\<lambda>l. l\<lparr>out := b\<rparr>) s;
       (case st of
          kData \<Rightarrow> Some (Some True, s)
        | kEof \<Rightarrow> do { s \<leftarrow> CloseForWriting os a s; Some (Some True, s) }
        | kError \<Rightarrow> do { s \<leftarrow> Terminate os a s; Some (None, s) }
        | kNoOp \<Rightarrow> Some (Some False, s))
     } else Some (Some False, s)
   }"

partial_function (option) ForwardFromOther :: "os \<Rightarrow> addr \<Rightarrow> bool \<Rightarrow> fwd \<Rightarrow> (bool \<times> fwd) option" where
  "ForwardFromOther os a res s = do {
     (r1, s) \<leftarrow> fwd_read os a s;
     (case r1 of
        None \<Rightarrow> Some (False, s)
      | Some io1 \<Rightarrow> do {
          (r2, s) \<leftarrow> fwd_write os a s;
          (case r2 of
             None \<Rightarrow> Some (False, s)
           | Some io2 \<Rightarrow>
               if io1 \<or> io2 then ForwardFromOther os a True s else Some (res, s))
        })
   }"

text \<open>
  The operands of \<open>|\<close> in the lambda \<open>Process\<close> are evaluated in an order the language leaves
  open; \<open>left_first\<close> is the compiler's choice.
\<close>

definition Link_Process :: "os \<Rightarrow> bool \<Rightarrow> addr \<Rightarrow> epoll_events \<Rightarrow> fwd \<Rightarrow> (bool \<times> fwd) option" where
  "Link_Process os left_first a events s = do {
     e \<leftarrow> ehs s a;
     if HasBits events EPOLLERR then do {
       (err, s) \<leftarrow> SockError os (eh_fd e) s;
       s \<leftarrow> Terminate os a s;
       Some (False, s)
     } else do {
       let from_other = (\<lambda>s. if HasBits events EPOLLOUT then ForwardFromOther os a False s
                             else Some (False, s));
       let to_other = (\<lambda>s. if HasBits events EPOLLIN
                           then do { l \<leftarrow> links s a; o' \<leftarrow> other l; ForwardFromOther os o' False s }
                           else Some (False, s));
       (x, s) \<leftarrow> (if left_first then from_other s else to_other s);
       (y, s) \<leftarrow> (if left_first then to_other s else from_other s);
       Some (x \<or> y, s)
     }
   }"

definition Link_OnEvent :: "os \<Rightarrow> bool \<Rightarrow> addr \<Rightarrow> epoll_events \<Rightarrow> fwd \<Rightarrow> fwd option" where
  "Link_OnEvent os left_first a events s = do {
     l \<leftarrow> links s a;
     o' \<leftarrow> other l;
     s \<leftarrow> IncRef o' s;
     (r, s) \<leftarrow> Link_Process os left_first a events s;
     s \<leftarrow> (if r then do {
         s \<leftarrow> Link_Refresh os a s;
         l \<leftarrow> links s a;
         o' \<leftarrow> other l;
         Link_Refresh os o' s
       } else Some s);
     l \<leftarrow> links s a;
     o' \<leftarrow> other l;
     DecRef (Link_dtor os) o' s
   }"

definition Link_OnTimeout :: "os \<Rightarrow> addr \<Rightarrow> fwd \<Rightarrow> fwd option" where
  "Link_OnTimeout os a s = do {
     l \<leftarrow> links s a;
     o' \<leftarrow> other l;
     s \<leftarrow> IncRef o' s;
     s \<leftarrow> Terminate os a s;
     l \<leftarrow> links s a;
     o' \<leftarrow> other l;
     DecRef (Link_dtor os) o' s
   }"

text \<open>\<open>LinkEventHandler::New\<close>; \<open>abandon\<close> is the body of its loop over the two handlers.\<close>

definition link_Init :: "os \<Rightarrow> addr \<Rightarrow> nat \<Rightarrow> fwd \<Rightarrow> (bool \<times> fwd) option" where
  "link_Init os a n s = do {
     l \<leftarrow> links s a;
     (r, b, s) \<leftarrow> Buffer_Init os n (out l) s;
     s \<leftarrow> upd_link a (\<lambda>l. l\<lparr>out := b\<rparr>) s;
     Some (r, s)
   }"

definition abandon :: "os \<Rightarrow> addr \<Rightarrow> fwd \<Rightarrow> fwd option" where
  "abandon os a s = do {
     e \<leftarrow> ehs s a;
     s \<leftarrow> close_checked os (eh_fd e) s;
     s \<leftarrow> upd_link a (\<lambda>l. l\<lparr>readable := False, writable := False\<rparr>) s;
     delete_EventHandler (Link_dtor os) a s
   }"

definition LinkEventHandler_New :: "os \<Rightarrow> fwd_options \<Rightarrow> fd \<Rightarrow> fd \<Rightarrow> fwd \<Rightarrow> fwd option" where
  "LinkEventHandler_New os opt client_fd server_fd s = do {
     (client, s) \<leftarrow> new_LinkEventHandler client_fd True s;
     (server, s) \<leftarrow> new_LinkEventHandler server_fd False s;
     (r, s) \<leftarrow> link_Init os client (server_to_client_buffer_size_bytes opt) s;
     (r, s) \<leftarrow> (if r then link_Init os server (client_to_server_buffer_size_bytes opt) s
                else Some (False, s));
     if \<not> r then do {
       s \<leftarrow> abandon os client s;
       abandon os server s
     } else do {
       s \<leftarrow> upd_link client (\<lambda>l. l\<lparr>other := Some server\<rparr>) s;
       s \<leftarrow> upd_link server (\<lambda>l. l\<lparr>other := Some client\<rparr>) s;
       s \<leftarrow> IncRef client s;
       s \<leftarrow> IncRef server s;
       s \<leftarrow> EventLoop_Add os (Some client) (EPOLLIN OR EPOLLOUT OR EPOLLET) s;
       s \<leftarrow> EventLoop_Add os (Some server) (EPOLLIN OR EPOLLOUT OR EPOLLET) s;
       l \<leftarrow> links s client;
       (b, s) \<leftarrow> Buffer_Write os kResponse (out l) s;
       upd_link client (\<lambda>l. l\<lparr>out := b\<rparr>) s
     }
   }"

primrec fwd_run :: "os \<Rightarrow> fwd_options \<Rightarrow> fwd_func \<Rightarrow> fwd \<Rightarrow> fwd option" where
  "fwd_run os opt (NewLink c d) s = LinkEventHandler_New os opt c d s"

definition Forwarder_Forward :: "os \<Rightarrow> fwd_options \<Rightarrow> fd \<Rightarrow> fd \<Rightarrow> fwd \<Rightarrow> fwd option" where
  "Forwarder_Forward os opt client_fd server_fd s = do {
     CHECK (client_fd \<ge> 0);
     CHECK (server_fd \<ge> 0);
     ScheduleOrRun (fwd_run os opt) (Some (NewLink client_fd server_fd)) s
   }"

definition Forwarder_ctor :: "os \<Rightarrow> fwd_options \<Rightarrow> fwd \<Rightarrow> fwd option" where
  "Forwarder_ctor os opt s = EventLoop_ctor os (read_write_timeout opt) s"

end
