(* ===== verification/Forwarder_Safety.thy ===== *)
theory Forwarder_Safety
  imports Forwarder
begin

text \<open>
  The invariant of the forwarder and the proof that every operation of a tunnel keeps
  it: reference counts are exact, no operation touches a freed link or fails a \<open>CHECK\<close>, and the
  bytes that leave a tunnel are those that entered it.
\<close>

section \<open>Tunnels\<close>

definition open_link :: "link \<Rightarrow> bool" where
  "open_link l \<longleftrightarrow> readable l \<or> writable l"

text \<open>
  The bytes of a link's buffer: the client's starts with the response to the request.  A link
  that can be written to can take bytes from its pipe, and a link that can be read from can put
  bytes into the other one's.
\<close>

definition flow_ok :: "link \<Rightarrow> bool" where
  "flow_ok l \<longleftrightarrow> buffer_ok (out l) \<and>
     k_in (out l) = (if is_client l then kResponse else []) @ k_src (out l)"

definition pair_ok :: "link \<Rightarrow> link \<Rightarrow> bool" where
  "pair_ok l lo \<longleftrightarrow>
     flow_ok l \<and> (writable l \<longrightarrow> b_rd (out l) \<ge> 0) \<and> (readable lo \<longrightarrow> b_wr (out l) \<ge> 0)"

text \<open>
  The handler \<open>e\<close> of a link \<open>l\<close> whose other end is \<open>lo\<close>: the event loop has it while it is open;
  it is kept alive by \<open>n\<close> references on the stack, by the event loop, and by the other end.
\<close>

definition refs_ok :: "nat \<Rightarrow> link \<Rightarrow> eh \<Rightarrow> link \<Rightarrow> bool" where
  "refs_ok n l e lo \<longleftrightarrow> (event_loop e \<noteq> None \<longleftrightarrow> open_link l) \<and>
     ref_count e = int n + of_bool (open_link l) + of_bool (open_link lo)"

definition tunnel :: "fwd \<Rightarrow> addr \<Rightarrow> addr \<Rightarrow> link \<Rightarrow> link \<Rightarrow> eh \<Rightarrow> eh \<Rightarrow> bool" where
  "tunnel s a o' l lo e eo \<longleftrightarrow>
     a \<noteq> o' \<and> links s a = Some l \<and> links s o' = Some lo \<and> ehs s a = Some e \<and> ehs s o' = Some eo \<and>
     other l = Some o' \<and> other lo = Some a \<and> is_client lo = (\<not> is_client l)"

definition rinv :: "os \<Rightarrow> addr \<Rightarrow> addr \<Rightarrow> nat \<Rightarrow> nat \<Rightarrow> link \<Rightarrow> link \<Rightarrow> fwd \<Rightarrow> bool" where
  "rinv os a o' n m l lo s \<longleftrightarrow>
     (\<exists>xs e eo. evl_inv os s xs \<and> tunnel s a o' l lo e eo \<and> refs_ok n l e lo \<and> refs_ok m lo eo l)"

definition tinv :: "os \<Rightarrow> addr \<Rightarrow> addr \<Rightarrow> nat \<Rightarrow> nat \<Rightarrow> link \<Rightarrow> link \<Rightarrow> fwd \<Rightarrow> bool" where
  "tinv os a o' n m l lo s \<longleftrightarrow> rinv os a o' n m l lo s \<and> pair_ok l lo \<and> pair_ok lo l"

lemma rinv_sym: "rinv os a o' n m l lo s \<Longrightarrow> rinv os o' a m n lo l s"
  by (auto simp: rinv_def tunnel_def)

lemma tinv_sym: "tinv os a o' n m l lo s \<Longrightarrow> tinv os o' a m n lo l s"
  by (auto simp: tinv_def rinv_sym)

lemma rinv_links:
  assumes "rinv os a o' n m l lo s"
  shows "links s a = Some l" "links s o' = Some lo" "other l = Some o'" "other lo = Some a" "a \<noteq> o'"
    "\<exists>e. ehs s a = Some e" "\<exists>e. ehs s o' = Some e"
  using assms by (auto simp: rinv_def tunnel_def)

text \<open>What an operation on one tunnel leaves alone.\<close>

definition tframe :: "addr \<Rightarrow> addr \<Rightarrow> fwd \<Rightarrow> fwd \<Rightarrow> bool" where
  "tframe a o' s s' \<longleftrightarrow>
     (\<forall>c. c \<noteq> a \<longrightarrow> c \<noteq> o' \<longrightarrow> links s' c = links s c \<and> ehs s' c = ehs s c) \<and>
     sched s' = sched s \<and> self s' = self s \<and> brk s' = brk s \<and> fd_of (ehs s') = fd_of (ehs s) \<and>
     dom (interest (hist s')) \<subseteq> dom (interest (hist s)) \<and>
     (\<exists>es. hist s' = es @ hist s \<and> (\<forall>e \<in> set es. \<not> is_wait e))"

lemma tframe_refl [simp]: "tframe a o' s s"
  by (simp add: tframe_def)

lemma tframe_trans: "tframe a o' s s' \<Longrightarrow> tframe a o' s' s'' \<Longrightarrow> tframe a o' s s''"
  by (force simp: tframe_def)

lemma tframe_sym: "tframe a o' s s' \<Longrightarrow> tframe o' a s s'"
  by (auto simp: tframe_def)

lemma tframe_quiet: "\<forall>e \<in> set es. quiet e \<Longrightarrow> tframe a o' s (s\<lparr>hist := es @ hist s\<rparr>)"
  by (simp add: tframe_def interest_quiet) (auto simp: quiet_def)

lemma tframe_upd: "tframe a o' s s' \<Longrightarrow> tframe a o' s (s'\<lparr>links := (links s')(a \<mapsto> l)\<rparr>)"
  by (auto simp: tframe_def)

text \<open>The kernel the forwarder needs.\<close>

definition fwd_os_ok :: "os \<Rightarrow> bool" where
  "fwd_os_ok os \<longleftrightarrow> epoll_ctl_ok os \<and> clock_mono os \<and> close_ok os \<and> splice_ok os \<and> pipe_ok os \<and>
     sock_ok os"

lemma fwd_os_okD:
  assumes "fwd_os_ok os"
  shows "epoll_ctl_ok os" "clock_mono os" "close_ok os" "splice_ok os" "pipe_ok os" "sock_ok os"
  using assms by (auto simp: fwd_os_ok_def)

lemma evl_inv_links: "evl_inv os (s\<lparr>links := ls\<rparr>) xs \<longleftrightarrow> evl_inv os s xs"
  by (simp add: evl_inv_def on_loop_thread_def)

lemma rinv_registered:
  assumes "evl_inv os s xs" and "tunnel s a o' l lo e eo" and "refs_ok n l e lo"
  shows "a \<in> set xs \<longleftrightarrow> open_link l"
  using assms evl_inv_eh [OF assms(1), of a e]
  by (auto simp: tunnel_def refs_ok_def eh_ok_def split: if_splits)

text \<open>Moving bytes and logging calls keep the reference counts right.\<close>

lemma rinv_io:
  assumes "rinv os a o' n m l lo s" and "fwd_os_ok os" and "\<forall>e \<in> set es. quiet e"
  shows "rinv os a o' n m (l\<lparr>out := b\<rparr>) lo
    (s\<lparr>hist := es @ hist s, links := (links s)(a \<mapsto> l\<lparr>out := b\<rparr>)\<rparr>)"
proof -
  from assms(1) obtain xs e eo where "evl_inv os s xs" and t: "tunnel s a o' l lo e eo"
    "refs_ok n l e lo" "refs_ok m lo eo l" by (auto simp: rinv_def)
  then have "evl_inv os (s\<lparr>hist := es @ hist s, links := (links s)(a \<mapsto> l\<lparr>out := b\<rparr>)\<rparr>) xs"
    using evl_inv_logs [OF _ _ assms(3)] fwd_os_okD(2) [OF assms(2)] by (simp only: evl_inv_links) blast
  with t show ?thesis
    unfolding rinv_def by (intro exI [of _ xs] exI [of _ e] exI [of _ eo])
      (auto simp: tunnel_def refs_ok_def open_link_def)
qed

section \<open>Closing\<close>

text \<open>\<open>Close\<close>, both ends of the tunnel being held: the references are returned, once.\<close>

abbreviation closed_link :: "link \<Rightarrow> link" where
  "closed_link l \<equiv> l\<lparr>readable := False, writable := False\<rparr>"

lemma closed_link_id: "\<not> open_link l \<Longrightarrow> closed_link l = l"
  by (simp add: open_link_def)

lemma Link_Close_open:
  assumes k: "fwd_os_ok os" and inv: "evl_inv os s xs" and t: "tunnel s a o' l lo e eo"
    and op: "open_link l" and reg: "a \<in> set xs" and refs: "ref_count e \<ge> 2" "ref_count eo \<ge> 2"
  shows "\<exists>s'. Link_Close os a s = Some s' \<and> evl_inv os s' (remove1 a xs) \<and> tframe a o' s s' \<and>
    tunnel s' a o' (closed_link l) lo
      (e\<lparr>event_loop := None, ref_count := ref_count e - 1\<rparr>) (eo\<lparr>ref_count := ref_count eo - 1\<rparr>)"
proof -
  let ?eo = "eo\<lparr>ref_count := ref_count eo - 1\<rparr>"
  let ?s1 = "s\<lparr>links := (links s)(a \<mapsto> closed_link l)\<rparr>"
  let ?s2 = "?s1\<lparr>ehs := (ehs s)(o' \<mapsto> ?eo)\<rparr>"
  note kk = fwd_os_okD [OF k]
  have inv1: "evl_inv os ?s1 xs" using inv by (simp add: evl_inv_links)
  have inv2: "evl_inv os ?s2 xs"
    using evl_inv_refs [OF inv1, of o' eo "ref_count eo - 1"] t refs by (simp add: tunnel_def)
  have a2: "ehs ?s2 a = Some e" using t by (simp add: tunnel_def)
  from EventLoop_Remove_spec [OF inv2 kk(1,2) reg a2 refs(1), of "Link_dtor os"]
  obtain ns dl s3 where s3: "EventLoop_Remove os (Link_dtor os) (Some a) ?s2 = Some s3"
    "s3 = ?s2\<lparr>nodes := ns, expire := dl, hist := Epoll_ctl CTL_DEL (eh_fd e) 0 None 0 # hist ?s2,
           total_events := total_events ?s2 - 1,
           ehs := (ehs ?s2)(a \<mapsto> e\<lparr>event_loop := None, ref_count := ref_count e - 1\<rparr>)\<rparr>"
    "evl_inv os s3 (remove1 a xs)" by blast
  let ?s4 = "log_event (Close (eh_fd e) 0) s3"
  have "Link_Close os a s = Some ?s4"
    using t op refs s3(1,2) kk(3)
    by (simp add: Link_Close_def upd_link_def tunnel_def open_link_def DecRef_def close_checked_ok)
  moreover have "evl_inv os ?s4 (remove1 a xs)"
    using s3(3) kk(2) by (intro evl_inv_log) simp_all
  moreover have "tframe a o' s ?s4"
    unfolding tframe_def using s3(2) t fd_of_at [of "ehs s"]
    by (auto simp: log_event_def tunnel_def fun_upd_idem intro!: exI [of _ "[Close (eh_fd e) 0, Epoll_ctl CTL_DEL (eh_fd e) 0 None 0]"])
  moreover have "tunnel ?s4 a o' (closed_link l) lo
      (e\<lparr>event_loop := None, ref_count := ref_count e - 1\<rparr>) ?eo"
    using t s3(2) by (auto simp: tunnel_def log_event_def)
  ultimately show ?thesis by blast
qed

lemma Link_Close_ok:
  assumes k: "fwd_os_ok os" and inv: "rinv os a o' n m l lo s" and held: "0 < n" "0 < m"
  shows "\<exists>s'. Link_Close os a s = Some s' \<and> rinv os a o' n m (closed_link l) lo s' \<and> tframe a o' s s'"
proof (cases "open_link l")
  case False
  then have "Link_Close os a s = Some s"
    using rinv_links(1) [OF inv] by (simp add: Link_Close_def open_link_def)
  with inv show ?thesis unfolding closed_link_id [OF False] by simp
next
  case True
  from inv obtain xs e eo where x: "evl_inv os s xs" "tunnel s a o' l lo e eo" "refs_ok n l e lo"
    "refs_ok m lo eo l" by (auto simp: rinv_def)
  have "a \<in> set xs" using rinv_registered [OF x(1-3)] True by simp
  moreover have "ref_count e \<ge> 2" "ref_count eo \<ge> 2"
    using x(3,4) True held by (auto simp: refs_ok_def)
  ultimately obtain s' where s': "Link_Close os a s = Some s'" "evl_inv os s' (remove1 a xs)"
    "tframe a o' s s'" "tunnel s' a o' (closed_link l) lo
      (e\<lparr>event_loop := None, ref_count := ref_count e - 1\<rparr>) (eo\<lparr>ref_count := ref_count eo - 1\<rparr>)"
    using Link_Close_open [OF k x(1,2) True] by blast
  have "refs_ok n (closed_link l) (e\<lparr>event_loop := None, ref_count := ref_count e - 1\<rparr>) lo"
    "refs_ok m lo (eo\<lparr>ref_count := ref_count eo - 1\<rparr>) (closed_link l)"
    using x(3,4) True by (auto simp: refs_ok_def open_link_def)
  with s' show ?thesis by (auto simp: rinv_def)
qed

lemma Terminate_ok:
  assumes k: "fwd_os_ok os" and inv: "rinv os a o' n m l lo s" and held: "0 < n" "0 < m"
  shows "\<exists>s'. Terminate os a s = Some s' \<and> rinv os a o' n m (closed_link l) (closed_link lo) s' \<and>
    tframe a o' s s'"
proof -
  from Link_Close_ok [OF k inv held] obtain s1 where s1: "Link_Close os a s = Some s1"
    "rinv os a o' n m (closed_link l) lo s1" "tframe a o' s s1" by blast
  from Link_Close_ok [OF k rinv_sym [OF s1(2)] held(2,1)] obtain s2 where s2:
    "Link_Close os o' s1 = Some s2" "rinv os o' a m n (closed_link lo) (closed_link l) s2"
    "tframe o' a s1 s2" by blast
  have "Terminate os a s = Some s2"
    using s1(1) s2(1) rinv_links(1,3) [OF s1(2)] by (simp add: Terminate_def)
  with rinv_sym [OF s2(2)] tframe_trans [OF s1(3) tframe_sym [OF s2(3)]] show ?thesis by blast
qed

text \<open>Closing one direction: the link stays registered as long as the other one is open.\<close>

lemma half_close:
  assumes k: "fwd_os_ok os" and inv: "rinv os a o' n m l lo s"
    and l': "open_link l" "open_link l'" "other l' = other l" "is_client l' = is_client l"
  shows "\<exists>s1 e r. EventLoop_Modify os (Some a) ev (s\<lparr>links := (links s)(a \<mapsto> l')\<rparr>) = Some s1 \<and>
    ehs s1 a = Some e \<and> os_shutdown os (hist s1) (eh_fd e) how \<in> {0, ENOTCONN} \<and>
    rinv os a o' n m l' lo (log_event (Shutdown (eh_fd e) how r) s1) \<and>
    tframe a o' s (log_event (Shutdown (eh_fd e) how r) s1) \<and> r = os_shutdown os (hist s1) (eh_fd e) how"
proof -
  let ?s = "s\<lparr>links := (links s)(a \<mapsto> l')\<rparr>"
  from inv obtain xs e eo where x: "evl_inv os s xs" "tunnel s a o' l lo e eo" "refs_ok n l e lo"
    "refs_ok m lo eo l" by (auto simp: rinv_def)
  have a: "ehs ?s a = Some e" and mem: "a \<in> set xs"
    using x(2) rinv_registered [OF x(1-3)] l'(1) by (auto simp: tunnel_def)
  have inv1: "evl_inv os ?s xs" using x(1) by (simp add: evl_inv_links)
  from EventLoop_Modify_spec [OF inv1 fwd_os_okD(1,2) [OF k] mem a, of ev] obtain s1 where s1:
    "EventLoop_Modify os (Some a) ev ?s = Some s1"
    "s1 = ?s\<lparr>hist := Epoll_ctl CTL_MOD (eh_fd e) ev (Some a) 0 # hist ?s\<rparr>" "evl_inv os s1 xs" by blast
  let ?r = "os_shutdown os (hist s1) (eh_fd e) how"
  let ?s2 = "log_event (Shutdown (eh_fd e) how ?r) s1"
  have "evl_inv os ?s2 xs"
    using s1(3) fwd_os_okD(2) [OF k] by (intro evl_inv_log) simp_all
  moreover have "tunnel ?s2 a o' l' lo e eo" "refs_ok n l' e lo" "refs_ok m lo eo l'"
    using x(2-4) l' s1(2) by (auto simp: tunnel_def refs_ok_def log_event_def)
  ultimately have "rinv os a o' n m l' lo ?s2" by (auto simp: rinv_def)
  moreover have "insert (eh_fd e) (dom (interest (hist s))) = dom (interest (hist s))"
    using evl_inv_fd [OF x(1) mem] x(2) by (auto simp: tunnel_def)
  then have "tframe a o' s ?s2"
    using s1(2) by (auto simp: tframe_def log_event_def
        intro!: exI [of _ "[Shutdown (eh_fd e) how ?r, Epoll_ctl CTL_MOD (eh_fd e) ev (Some a) 0]"])
  moreover have "?r \<in> {0, ENOTCONN}" using fwd_os_okD(6) [OF k] by (auto simp: sock_ok_def)
  moreover have "ehs s1 a = Some e" using s1(2) a by simp
  ultimately show ?thesis using s1(1) by blast
qed

lemma CloseForReading_ok:
  assumes k: "fwd_os_ok os" and inv: "rinv os a o' n m l lo s" and held: "0 < n" "0 < m"
    and rd: "readable l"
  shows "\<exists>s'. CloseForReading os a s = Some s' \<and> rinv os a o' n m (l\<lparr>readable := False\<rparr>) lo s' \<and>
    tframe a o' s s'"
proof (cases "writable l")
  case True
  with half_close [OF k inv, of "l\<lparr>readable := False\<rparr>" "EPOLLOUT OR EPOLLET" SHUT_RD] rd
    rinv_links(1) [OF inv]
  show ?thesis
    by (auto simp: CloseForReading_def upd_link_def open_link_def sys_shutdown_def Let_def)
next
  case False
  then have "closed_link l = l\<lparr>readable := False\<rparr>" by simp
  with Link_Close_ok [OF k inv held] False rd rinv_links(1) [OF inv] show ?thesis
    by (auto simp: CloseForReading_def)
qed

lemma CloseForWriting_ok:
  assumes k: "fwd_os_ok os" and inv: "rinv os a o' n m l lo s" and held: "0 < n" "0 < m"
    and wr: "writable l"
  shows "\<exists>s'. CloseForWriting os a s = Some s' \<and> rinv os a o' n m (l\<lparr>writable := False\<rparr>) lo s' \<and>
    tframe a o' s s'"
proof (cases "readable l")
  case True
  with half_close [OF k inv, of "l\<lparr>writable := False\<rparr>" "EPOLLIN OR EPOLLET" SHUT_WR] wr
    rinv_links(1) [OF inv]
  show ?thesis
    by (auto simp: CloseForWriting_def upd_link_def open_link_def sys_shutdown_def Let_def)
next
  case False
  then have "closed_link l = l\<lparr>writable := False\<rparr>" by simp
  with Link_Close_ok [OF k inv held] False wr rinv_links(1) [OF inv] show ?thesis
    by (auto simp: CloseForWriting_def)
qed

section \<open>Moving bytes\<close>

text \<open>
  What forwarding may change of a link: the byte streams that have passed only grow, and the
  flags go only from open to closed.
\<close>

definition grows :: "link \<Rightarrow> link \<Rightarrow> bool" where
  "grows l l' \<longleftrightarrow>
     prefix (k_out (out l)) (k_out (out l')) \<and> prefix (k_src (out l)) (k_src (out l')) \<and>
     other l' = other l \<and> is_client l' = is_client l \<and>
     (readable l' \<longrightarrow> readable l) \<and> (writable l' \<longrightarrow> writable l)"

definition advances :: "link \<Rightarrow> link \<Rightarrow> link \<Rightarrow> link \<Rightarrow> bool" where
  "advances l lo l' lo' \<longleftrightarrow> grows l l' \<and> grows lo lo'"

lemma grows_refl [simp]: "grows l l"
  by (simp add: grows_def)

lemma grows_trans: "grows l l' \<Longrightarrow> grows l' l'' \<Longrightarrow> grows l l''"
  using prefix_order.trans [of "k_out (out l)" "k_out (out l')" "k_out (out l'')"]
    prefix_order.trans [of "k_src (out l)" "k_src (out l')" "k_src (out l'')"]
  by (simp add: grows_def)

lemma advances_refl [simp]: "advances l lo l lo"
  by (simp add: advances_def)

lemma advances_sym: "advances l lo l' lo' \<Longrightarrow> advances lo l lo' l'"
  by (simp add: advances_def)

lemma advances_trans: "advances l lo l' lo' \<Longrightarrow> advances l' lo' l'' lo'' \<Longrightarrow> advances l lo l'' lo''"
  by (auto simp: advances_def intro: grows_trans)

definition fwd_measure :: "(history \<Rightarrow> nat) \<Rightarrow> link \<Rightarrow> link \<Rightarrow> fwd \<Rightarrow> nat" where
  "fwd_measure mu l lo s =
     2 * mu (hist s) + nat (b_size (out l)) + of_bool (readable lo) + of_bool (writable l)"

lemma mu_frame: "bounded_supply os mu \<Longrightarrow> tframe a o' s s' \<Longrightarrow> mu (hist s') \<le> mu (hist s)"
  by (auto simp: tframe_def intro: bounded_supply_append)

text \<open>The first half of a round: bytes from the other end's socket into the pipe.\<close>

lemma fwd_read_ok:
  assumes k: "fwd_os_ok os" and mu: "bounded_supply os mu" and inv: "tinv os a o' n m l lo s"
    and held: "0 < n" "0 < m" and eo: "ehs s o' = Some eo"
  shows "\<exists>r s' l' lo'. fwd_read os a s = Some (r, s') \<and> tinv os a o' n m l' lo' s' \<and>
    tframe a o' s s' \<and> advances l lo l' lo' \<and>
    (r = None \<longrightarrow> \<not> open_link l' \<and> \<not> open_link lo') \<and>
    (r = Some True \<longrightarrow> fwd_measure mu l' lo' s' < fwd_measure mu l lo s) \<and>
    (r = Some False \<longrightarrow> l' = l \<and> lo' = lo \<and> (\<exists>es. hist s' = es @ hist s \<and> (\<forall>e \<in> set es. quiet e) \<and>
       (readable lo \<longrightarrow> b_size (out l) = b_capacity (out l) \<or> would_block_in (eh_fd eo) es)))"
proof (cases "readable lo")
  case False
  with inv rinv_links [of os a o' n m l lo s] show ?thesis
    by (auto simp: fwd_read_def tinv_def)
next
  case rd: True
  have r: "rinv os a o' n m l lo s" and p: "pair_ok l lo" "pair_ok lo l"
    using inv by (auto simp: tinv_def)
  note ls = rinv_links [OF r]
  have bok: "buffer_ok (out l)" and wr: "b_wr (out l) \<ge> 0"
    using p rd by (auto simp: pair_ok_def flow_ok_def)
  from WriteFrom_spec [OF bok wr fwd_os_okD(4,3) [OF k], of "eh_fd eo" s]
  obtain st b es bs where w: "WriteFrom os (eh_fd eo) (out l) s = Some (st, b, s\<lparr>hist := es @ hist s\<rparr>)"
    "buffer_ok b" "\<forall>e \<in> set es. quiet e" "b_rd b = b_rd (out l)"
    "k_src b = k_src (out l) @ bs" "k_in b = k_in (out l) @ bs" "k_out b = k_out (out l)"
    "b_size b = b_size (out l) + int (length bs)" "st = kData \<longleftrightarrow> bs \<noteq> []"
    "st = kData \<longrightarrow> (\<exists>n. os_splice_in os (hist s) (eh_fd eo) n = Inr bs \<and>
        es = [Splice_in (eh_fd eo) (b_wr (out l)) n (Inr bs)])"
    "b_wr b = (if st \<in> {kEof, kError} then - 1 else b_wr (out l))"
    "st = kNoOp \<longrightarrow> b = out l \<and> (b_size (out l) = b_capacity (out l) \<or> would_block_in (eh_fd eo) es)"
    by (elim exE conjE) (rule that)
  let ?l = "l\<lparr>out := b\<rparr>"
  let ?s = "s\<lparr>hist := es @ hist s, links := (links s)(a \<mapsto> ?l)\<rparr>"
  have r1: "rinv os a o' n m ?l lo ?s" by (rule rinv_io [OF r k w(3)])
  have f1: "tframe a o' s ?s"
    using tframe_upd [OF tframe_quiet [OF w(3), of a o' s], of ?l] by simp
  have flow: "flow_ok ?l" using p(1) w(2,5,6) by (simp add: pair_ok_def flow_ok_def)
  have run: "fwd_read os a s = (case st of
          kData \<Rightarrow> Some (Some True, ?s)
        | kEof \<Rightarrow> do { s \<leftarrow> CloseForReading os o' ?s; Some (Some True, s) }
        | kError \<Rightarrow> do { s \<leftarrow> Terminate os a ?s; Some (None, s) }
        | kNoOp \<Rightarrow> Some (Some False, ?s))"
    using ls rd eo w(1) by (simp add: fwd_read_def upd_link_def split: IoStatus.split)
  have adv: "advances l lo ?l lo" using w(5,7) by (simp add: advances_def grows_def)
  show ?thesis
  proof (cases st)
    case kData
    then obtain n' where "os_splice_in os (hist s) (eh_fd eo) n' = Inr bs"
      "es = [Splice_in (eh_fd eo) (b_wr (out l)) n' (Inr bs)]" using w(10) by blast
    then have "mu (es @ hist s) + length bs \<le> mu (hist s)"
      using mu by (auto simp: bounded_supply_def)
    moreover have "0 < length bs" "0 \<le> b_size (out l)" using kData w(9) bok by (auto simp: buffer_ok_def)
    ultimately have "fwd_measure mu ?l lo ?s < fwd_measure mu l lo s"
      using w(8) by (simp add: fwd_measure_def nat_add_distrib del: length_greater_0_conv)
    moreover have "pair_ok ?l lo" "pair_ok lo ?l"
      using p flow w(4,11) kData by (auto simp: pair_ok_def)
    ultimately show ?thesis
      using run kData r1 f1 adv
      by (intro exI [of _ "Some True"] exI [of _ ?s] exI [of _ ?l] exI [of _ lo]) (simp add: tinv_def)
  next
    case kEof
    from CloseForReading_ok [OF k rinv_sym [OF r1] held(2,1) rd] obtain s2 where s2:
      "CloseForReading os o' ?s = Some s2" "rinv os o' a m n (lo\<lparr>readable := False\<rparr>) ?l s2"
      "tframe o' a ?s s2" by blast
    have f2: "tframe a o' s s2" using f1 s2(3) by (blast intro: tframe_trans tframe_sym)
    have "fwd_measure mu ?l (lo\<lparr>readable := False\<rparr>) s2 < fwd_measure mu l lo s"
      using w(8,9) kEof rd mu_frame [OF mu f2] by (simp add: fwd_measure_def)
    moreover have "pair_ok ?l (lo\<lparr>readable := False\<rparr>)" "pair_ok (lo\<lparr>readable := False\<rparr>) ?l"
      using p flow w(4) by (auto simp: pair_ok_def flow_ok_def)
    moreover have "advances l lo ?l (lo\<lparr>readable := False\<rparr>)" using adv by (simp add: advances_def grows_def)
    ultimately show ?thesis
      using run kEof s2(1) f2 rinv_sym [OF s2(2)]
      by (intro exI [of _ "Some True"] exI [of _ s2] exI [of _ ?l] exI [of _ "lo\<lparr>readable := False\<rparr>"])
        (simp add: tinv_def)
  next
    case kError
    from Terminate_ok [OF k r1 held] obtain s2 where s2: "Terminate os a ?s = Some s2"
      "rinv os a o' n m (closed_link ?l) (closed_link lo) s2" "tframe a o' ?s s2" by blast
    have f2: "tframe a o' s s2" using f1 s2(3) by (blast intro: tframe_trans)
    moreover have "pair_ok (closed_link ?l) (closed_link lo)" "pair_ok (closed_link lo) (closed_link ?l)"
      using p flow by (auto simp: pair_ok_def flow_ok_def)
    moreover have "advances l lo (closed_link ?l) (closed_link lo)" using adv by (simp add: advances_def grows_def)
    ultimately show ?thesis
      using run kError s2(1,2)
      by (intro exI [of _ None] exI [of _ s2] exI [of _ "closed_link ?l"] exI [of _ "closed_link lo"])
        (simp add: tinv_def open_link_def)
  next
    case kNoOp
    with w(12) have "?l = l" by simp
    with kNoOp run r1 f1 p w(3,12) show ?thesis
      by (auto simp: tinv_def)
  qed
qed

text \<open>The second half: bytes from the pipe to this link's socket.\<close>

lemma fwd_write_ok:
  assumes k: "fwd_os_ok os" and mu: "bounded_supply os mu" and inv: "tinv os a o' n m l lo s"
    and held: "0 < n" "0 < m" and e: "ehs s a = Some e"
  shows "\<exists>r s' l' lo'. fwd_write os a s = Some (r, s') \<and> tinv os a o' n m l' lo' s' \<and>
    tframe a o' s s' \<and> advances l lo l' lo' \<and>
    (r = None \<longrightarrow> \<not> open_link l' \<and> \<not> open_link lo') \<and>
    (r = Some True \<longrightarrow> fwd_measure mu l' lo' s' < fwd_measure mu l lo s) \<and>
    (r = Some False \<longrightarrow> l' = l \<and> lo' = lo \<and> (\<exists>es. hist s' = es @ hist s \<and> (\<forall>e \<in> set es. quiet e) \<and>
       (writable l \<longrightarrow> b_size (out l) = 0 \<and> b_wr (out l) \<ge> 0 \<or> would_block_out (eh_fd e) es)))"
proof (cases "writable l")
  case False
  with inv rinv_links [of os a o' n m l lo s] show ?thesis
    by (auto simp: fwd_write_def tinv_def)
next
  case wr: True
  have r: "rinv os a o' n m l lo s" and p: "pair_ok l lo" "pair_ok lo l"
    using inv by (auto simp: tinv_def)
  note ls = rinv_links [OF r]
  have bok: "buffer_ok (out l)" and rd: "b_rd (out l) \<ge> 0"
    using p wr by (auto simp: pair_ok_def flow_ok_def)
  from ReadTo_spec [OF bok rd fwd_os_okD(4,3,5) [OF k], of "eh_fd e" s]
  obtain st b es bs where w: "ReadTo os (eh_fd e) (out l) s = Some (st, b, s\<lparr>hist := es @ hist s\<rparr>)"
    "buffer_ok b" "\<forall>e \<in> set es. quiet e" "b_wr b = b_wr (out l)" "k_src b = k_src (out l)"
    "k_in b = k_in (out l)" "k_out b = k_out (out l) @ bs"
    "b_size b = b_size (out l) - int (length bs)" "st = kData \<longleftrightarrow> bs \<noteq> []"
    "b_rd b = (if st \<in> {kEof, kError} then - 1 else b_rd (out l))"
    "st = kNoOp \<longrightarrow> b = out l \<and> (b_size (out l) = 0 \<and> b_wr (out l) \<ge> 0 \<or> would_block_out (eh_fd e) es)"
    by (elim exE conjE) (rule that)
  let ?l = "l\<lparr>out := b\<rparr>"
  let ?s = "s\<lparr>hist := es @ hist s, links := (links s)(a \<mapsto> ?l)\<rparr>"
  have r1: "rinv os a o' n m ?l lo ?s" by (rule rinv_io [OF r k w(3)])
  have f1: "tframe a o' s ?s"
    using tframe_upd [OF tframe_quiet [OF w(3), of a o' s], of ?l] by simp
  have flow: "flow_ok ?l" using p(1) w(2,5,6) by (simp add: pair_ok_def flow_ok_def)
  have run: "fwd_write os a s = (case st of
          kData \<Rightarrow> Some (Some True, ?s)
        | kEof \<Rightarrow> do { s \<leftarrow> CloseForWriting os a ?s; Some (Some True, s) }
        | kError \<Rightarrow> do { s \<leftarrow> Terminate os a ?s; Some (None, s) }
        | kNoOp \<Rightarrow> Some (Some False, ?s))"
    using ls wr e w(1) by (simp add: fwd_write_def upd_link_def split: IoStatus.split)
  have adv: "advances l lo ?l lo" using w(5,7) by (simp add: advances_def grows_def)
  show ?thesis
  proof (cases st)
    case kData
    then have "fwd_measure mu ?l lo ?s < fwd_measure mu l lo s"
      using w(2,8,9) mu_frame [OF mu f1] by (cases bs) (auto simp: fwd_measure_def buffer_ok_def)
    moreover have "pair_ok ?l lo" "pair_ok lo ?l"
      using p flow w(4,10) kData by (auto simp: pair_ok_def)
    ultimately show ?thesis
      using run kData r1 f1 adv
      by (intro exI [of _ "Some True"] exI [of _ ?s] exI [of _ ?l] exI [of _ lo]) (simp add: tinv_def)
  next
    case kEof
    have "writable ?l" using wr by simp
    from CloseForWriting_ok [OF k r1 held this] obtain s2 where s2:
      "CloseForWriting os a ?s = Some s2" "rinv os a o' n m (?l\<lparr>writable := False\<rparr>) lo s2"
      "tframe a o' ?s s2" by blast
    have f2: "tframe a o' s s2" using f1 s2(3) by (blast intro: tframe_trans)
    have "fwd_measure mu (?l\<lparr>writable := False\<rparr>) lo s2 < fwd_measure mu l lo s"
      using w(8,9) kEof wr mu_frame [OF mu f2] by (simp add: fwd_measure_def)
    moreover have "pair_ok (?l\<lparr>writable := False\<rparr>) lo" "pair_ok lo (?l\<lparr>writable := False\<rparr>)"
      using p flow w(4) by (auto simp: pair_ok_def flow_ok_def)
    moreover have "advances l lo (?l\<lparr>writable := False\<rparr>) lo" using adv by (simp add: advances_def grows_def)
    ultimately show ?thesis
      using run kEof s2 f2
      by (intro exI [of _ "Some True"] exI [of _ s2] exI [of _ "?l\<lparr>writable := False\<rparr>"] exI [of _ lo])
        (simp add: tinv_def)
  next
    case kError
    from Terminate_ok [OF k r1 held] obtain s2 where s2: "Terminate os a ?s = Some s2"
      "rinv os a o' n m (closed_link ?l) (closed_link lo) s2" "tframe a o' ?s s2" by blast
    have f2: "tframe a o' s s2" using f1 s2(3) by (blast intro: tframe_trans)
    moreover have "pair_ok (closed_link ?l) (closed_link lo)" "pair_ok (closed_link lo) (closed_link ?l)"
      using p flow by (auto simp: pair_ok_def flow_ok_def)
    moreover have "advances l lo (closed_link ?l) (closed_link lo)" using adv by (simp add: advances_def grows_def)
    ultimately show ?thesis
      using run kError s2(1,2)
      by (intro exI [of _ None] exI [of _ s2] exI [of _ "closed_link ?l"] exI [of _ "closed_link lo"])
        (simp add: tinv_def open_link_def)
  next
    case kNoOp
    with w(11) have "?l = l" by simp
    with kNoOp run r1 f1 p w(3,11) show ?thesis
      by (auto simp: tinv_def)
  qed
qed

text \<open>
  The loop.  It returns, because the peers supply finitely many bytes until the next wait; and
  it returns only when the tunnel is broken or nothing can be moved any more, which is what an
  edge-triggered registration needs: the kernel will report the next change.
\<close>

definition drained :: "link \<Rightarrow> link \<Rightarrow> fd \<Rightarrow> fd \<Rightarrow> event list \<Rightarrow> bool" where
  "drained l lo f fo es \<longleftrightarrow>
     (readable lo \<longrightarrow> b_size (out l) = b_capacity (out l) \<or> would_block_in fo es) \<and>
     (writable l \<longrightarrow> b_size (out l) = 0 \<and> b_wr (out l) \<ge> 0 \<or> would_block_out f es)"

lemma would_block_append:
  "would_block_in f (es @ fs) \<longleftrightarrow> would_block_in f es \<or> would_block_in f fs"
  "would_block_out f (es @ fs) \<longleftrightarrow> would_block_out f es \<or> would_block_out f fs"
  by (auto simp: would_block_in_def would_block_out_def)

lemma drained_append: "drained l lo f fo es \<Longrightarrow> drained l lo f fo (es @ fs)"
  by (auto simp: drained_def would_block_append)

lemma ForwardFromOther_ok:
  assumes k: "fwd_os_ok os" and mu: "bounded_supply os mu" and held: "0 < n" "0 < m"
    and inv: "tinv os a o' n m l lo s"
  shows "\<exists>r s' l' lo'. ForwardFromOther os a res s = Some (r, s') \<and> tinv os a o' n m l' lo' s' \<and>
    tframe a o' s s' \<and> advances l lo l' lo' \<and>
    (\<not> r \<and> \<not> open_link l' \<and> \<not> open_link lo' \<or>
     (\<exists>es. hist s' = es @ hist s \<and> drained l' lo' (fd_of (ehs s) a) (fd_of (ehs s) o') es) \<and>
     (r = res \<and> l' = l \<and> lo' = lo \<or> r))"
  using inv
proof (induction "fwd_measure mu l lo s" arbitrary: s l lo res rule: less_induct)
  case less
  note step = ForwardFromOther.simps [of os a res s]
  obtain e eo where e: "ehs s a = Some e" "ehs s o' = Some eo"
    using less.prems rinv_links(6,7) by (fastforce simp: tinv_def)
  from fwd_read_ok [OF k mu less.prems held e(2)] obtain r1 s1 l1 lo1 where
    1: "fwd_read os a s = Some (r1, s1)" "tinv os a o' n m l1 lo1 s1" "tframe a o' s s1"
      "advances l lo l1 lo1" "r1 = None \<longrightarrow> \<not> open_link l1 \<and> \<not> open_link lo1"
      "r1 = Some True \<longrightarrow> fwd_measure mu l1 lo1 s1 < fwd_measure mu l lo s"
      "r1 = Some False \<longrightarrow> l1 = l \<and> lo1 = lo \<and> (\<exists>es. hist s1 = es @ hist s \<and> (\<forall>e \<in> set es. quiet e) \<and>
         (readable lo \<longrightarrow> b_size (out l) = b_capacity (out l) \<or> would_block_in (eh_fd eo) es))"
    by (elim exE conjE) (rule that)
  show ?case
  proof (cases r1)
    case None
    with 1 step show ?thesis by auto
  next
    case (Some io1)
    obtain e1 where e1: "ehs s1 a = Some e1" using 1(2) rinv_links(6) by (fastforce simp: tinv_def)
    have fd: "eh_fd e1 = eh_fd e"
      using 1(3) e e1 fd_of_at [of "ehs s1" a e1] fd_of_at [of "ehs s" a e] by (simp add: tframe_def)
    from fwd_write_ok [OF k mu 1(2) held e1] obtain r2 s2 l2 lo2 where
      2: "fwd_write os a s1 = Some (r2, s2)" "tinv os a o' n m l2 lo2 s2" "tframe a o' s1 s2"
        "advances l1 lo1 l2 lo2" "r2 = None \<longrightarrow> \<not> open_link l2 \<and> \<not> open_link lo2"
        "r2 = Some True \<longrightarrow> fwd_measure mu l2 lo2 s2 < fwd_measure mu l1 lo1 s1"
        "r2 = Some False \<longrightarrow> l2 = l1 \<and> lo2 = lo1 \<and> (\<exists>es. hist s2 = es @ hist s1 \<and> (\<forall>e \<in> set es. quiet e) \<and>
         (writable l1 \<longrightarrow> b_size (out l1) = 0 \<and> b_wr (out l1) \<ge> 0 \<or> would_block_out (eh_fd e1) es))"
      by (elim exE conjE) (rule that)
    have f2: "tframe a o' s s2" and a2: "advances l lo l2 lo2"
      using 1(3,4) 2(3,4) by (blast intro: tframe_trans advances_trans)+
    show ?thesis
    proof (cases r2)
      case None
      with 1(1) 2 step Some f2 a2 show ?thesis by auto
    next
      case r2: (Some io2)
      show ?thesis
      proof (cases "io1 \<or> io2")
        case False
        with 1(7) 2(7) Some r2 obtain es1 es2 where es: "hist s1 = es1 @ hist s" "hist s2 = es2 @ hist s1"
          "l2 = l" "lo2 = lo"
          "readable lo \<longrightarrow> b_size (out l) = b_capacity (out l) \<or> would_block_in (eh_fd eo) es1"
          "writable l \<longrightarrow> b_size (out l) = 0 \<and> b_wr (out l) \<ge> 0 \<or> would_block_out (eh_fd e1) es2"
          by auto
        then have "drained l lo (fd_of (ehs s) a) (fd_of (ehs s) o') (es2 @ es1)"
          using e fd by (auto simp: drained_def would_block_append fd_of_def)
        with es(1-4) False 1(1) 2(1,2) step Some r2 f2 show ?thesis
          by (intro exI [of _ res] exI [of _ s2] exI [of _ l] exI [of _ lo]) auto
      next
        case True
        have "fwd_measure mu l2 lo2 s2 < fwd_measure mu l lo s"
        proof (cases io2)
          case True
          with 2(6) r2 have "fwd_measure mu l2 lo2 s2 < fwd_measure mu l1 lo1 s1" by simp
          moreover have "fwd_measure mu l1 lo1 s1 \<le> fwd_measure mu l lo s"
            using 1(6,7) Some mu_frame [OF mu 1(3)] by (cases io1) (auto simp: fwd_measure_def)
          ultimately show ?thesis by simp
        next
          case False
          with \<open>io1 \<or> io2\<close> 1(6) Some have "fwd_measure mu l1 lo1 s1 < fwd_measure mu l lo s" by simp
          moreover have "fwd_measure mu l2 lo2 s2 \<le> fwd_measure mu l1 lo1 s1"
            using 2(7) r2 False mu_frame [OF mu 2(3)] by (auto simp: fwd_measure_def)
          ultimately show ?thesis by simp
        qed
        from less.hyps [OF this 2(2), of True] obtain r s' l' lo' where
          3: "ForwardFromOther os a True s2 = Some (r, s')" "tinv os a o' n m l' lo' s'"
            "tframe a o' s2 s'" "advances l2 lo2 l' lo'"
            "\<not> r \<and> \<not> open_link l' \<and> \<not> open_link lo' \<or>
             (\<exists>es. hist s' = es @ hist s2 \<and> drained l' lo' (fd_of (ehs s2) a) (fd_of (ehs s2) o') es) \<and> r"
          by auto
        have "ForwardFromOther os a res s = Some (r, s')"
          using step 1(1) 2(1) Some r2 True 3(1) by simp
        moreover have "tframe a o' s s'" "advances l lo l' lo'"
          using f2 a2 3(3,4) by (blast intro: tframe_trans advances_trans)+
        moreover obtain fs where "hist s2 = fs @ hist s" "fd_of (ehs s2) = fd_of (ehs s)"
          using f2 by (auto simp: tframe_def)
        then have "(\<exists>es. hist s' = es @ hist s2 \<and> drained l' lo' (fd_of (ehs s2) a) (fd_of (ehs s2) o') es) \<longrightarrow>
            (\<exists>es. hist s' = es @ hist s \<and> drained l' lo' (fd_of (ehs s) a) (fd_of (ehs s) o') es)"
          by (force intro: drained_append)
        ultimately show ?thesis using 3(2,5) by blast
      qed
    qed
  qed
qed

section \<open>The handlers\<close>

lemma Link_Refresh_ok:
  assumes k: "fwd_os_ok os" and inv: "tinv os a o' n m l lo s"
  shows "\<exists>s'. Link_Refresh os a s = Some s' \<and> tinv os a o' n m l lo s' \<and> tframe a o' s s'"
proof (cases "open_link l")
  case False
  with inv rinv_links(1) [of os a o' n m l lo s] show ?thesis
    by (auto simp: tinv_def Link_Refresh_def open_link_def)
next
  case True
  from inv obtain xs e eo where x: "evl_inv os s xs" "tunnel s a o' l lo e eo" "refs_ok n l e lo"
    "refs_ok m lo eo l" by (auto simp: tinv_def rinv_def)
  have mem: "a \<in> set xs" and a: "ehs s a = Some e"
    using rinv_registered [OF x(1-3)] x(2) True by (auto simp: tunnel_def)
  from EventLoop_Refresh_spec [OF x(1) fwd_os_okD(2) [OF k] mem a] obtain ns dl s1 where s1:
    "EventLoop_Refresh os (Some a) s = Some s1"
    "s1 = s\<lparr>hist := Clock_now (os_clock os (hist s)) # hist s,
           ehs := (ehs s)(a \<mapsto> e\<lparr>deadline := os_clock os (hist s) + timeout s\<rparr>),
           nodes := ns, expire := dl\<rparr>"
    "evl_inv os s1 (remove1 a xs @ [a])" by blast
  let ?e = "e\<lparr>deadline := os_clock os (hist s) + timeout s\<rparr>"
  have "tunnel s1 a o' l lo ?e eo" "refs_ok n l ?e lo"
    using x(2,3) s1(2) by (auto simp: tunnel_def refs_ok_def)
  then have "tinv os a o' n m l lo s1" using s1(3) x(4) inv by (auto simp: tinv_def rinv_def)
  moreover have "tframe a o' s s1"
    using s1(2) a fd_of_at [of "ehs s" a]
    by (auto simp: tframe_def fun_upd_idem intro!: exI [of _ "[Clock_now (os_clock os (hist s))]"])
  ultimately show ?thesis
    using s1(1) True x(2) by (auto simp: Link_Refresh_def open_link_def tunnel_def)
qed

lemma Link_Process_ok:
  assumes k: "fwd_os_ok os" and mu: "bounded_supply os mu" and held: "0 < n" "0 < m"
    and inv: "tinv os a o' n m l lo s"
  shows "\<exists>r s' l' lo'. Link_Process os lf a ev s = Some (r, s') \<and> tinv os a o' n m l' lo' s' \<and>
    tframe a o' s s' \<and> advances l lo l' lo'"
proof -
  have r: "rinv os a o' n m l lo s" and p: "pair_ok l lo" "pair_ok lo l"
    using inv by (auto simp: tinv_def)
  obtain e where e: "ehs s a = Some e" using rinv_links(6) [OF r] by blast
  show ?thesis
  proof (cases "HasBits ev EPOLLERR")
    case True
    obtain err where err: "os_getsockopt os (hist s) (eh_fd e) = Inr (err, 4)"
      using fwd_os_okD(6) [OF k] unfolding sock_ok_def by blast
    let ?q = "Getsockopt (eh_fd e) (Inr (err, 4))"
    let ?s = "s\<lparr>hist := [?q] @ hist s, links := (links s)(a \<mapsto> l\<lparr>out := out l\<rparr>)\<rparr>"
    have s: "?s = log_event ?q s" using rinv_links(1) [OF r] by (simp add: log_event_def fun_upd_idem)
    have "rinv os a o' n m (l\<lparr>out := out l\<rparr>) lo ?s" by (rule rinv_io [OF r k]) simp
    then have "rinv os a o' n m l lo (log_event ?q s)" unfolding s by simp
    from Terminate_ok [OF k this held] obtain s2 where s2: "Terminate os a (log_event ?q s) = Some s2"
      "rinv os a o' n m (closed_link l) (closed_link lo) s2" "tframe a o' (log_event ?q s) s2" by blast
    have "tframe a o' s s2"
      using tframe_quiet [of "[?q]" a o' s] s2(3) by (auto simp: log_event_def elim: tframe_trans)
    moreover have "Link_Process os lf a ev s = Some (False, s2)"
      using e True err s2(1) by (simp add: Link_Process_def SockError_def sys_getsockopt_def Let_def)
    moreover have "pair_ok (closed_link l) (closed_link lo)" "pair_ok (closed_link lo) (closed_link l)"
      using p by (auto simp: pair_ok_def flow_ok_def)
    moreover have "advances l lo (closed_link l) (closed_link lo)" by (simp add: advances_def grows_def)
    ultimately show ?thesis using s2(2)
      by (intro exI [of _ False] exI [of _ s2] exI [of _ "closed_link l"] exI [of _ "closed_link lo"])
        (simp add: tinv_def)
  next
    case False
    define from_other where "from_other = (\<lambda>s. if HasBits ev EPOLLOUT then ForwardFromOther os a False s
                             else Some (False, s))"
    define to_other where "to_other = (\<lambda>s. if HasBits ev EPOLLIN
                           then do { l \<leftarrow> links s a; o' \<leftarrow> other l; ForwardFromOther os o' False s }
                           else Some (False, s))"
    let ?good = "\<lambda>f. \<forall>l lo s. tinv os a o' n m l lo s \<longrightarrow> (\<exists>r s' l' lo'. f s = Some (r :: bool, s') \<and>
      tinv os a o' n m l' lo' s' \<and> tframe a o' s s' \<and> advances l lo l' lo')"
    have from_ok: "?good from_other"
    proof (intro allI impI)
      fix l lo s assume "tinv os a o' n m l lo s"
      with ForwardFromOther_ok [OF k mu held this, of False]
      show "\<exists>r s' l' lo'. from_other s = Some (r, s') \<and> tinv os a o' n m l' lo' s' \<and> tframe a o' s s' \<and>
        advances l lo l' lo'"
        by (cases "HasBits ev EPOLLOUT") (fastforce simp: from_other_def)+
    qed
    have to_ok: "?good to_other"
    proof (intro allI impI)
      fix l lo s assume t: "tinv os a o' n m l lo s"
      then have "links s a = Some l" "other l = Some o'" using rinv_links by (auto simp: tinv_def)
      with t ForwardFromOther_ok [OF k mu held(2,1) tinv_sym [OF t], of False]
      show "\<exists>r s' l' lo'. to_other s = Some (r, s') \<and> tinv os a o' n m l' lo' s' \<and> tframe a o' s s' \<and>
        advances l lo l' lo'"
        by (cases "HasBits ev EPOLLIN")
          (fastforce simp: to_other_def intro: tinv_sym tframe_sym advances_sym)+
    qed
    let ?f = "if lf then from_other else to_other" and ?g = "if lf then to_other else from_other"
    have "?good ?f" and "?good ?g" using from_ok to_ok by simp_all
    from \<open>?good ?f\<close> inv obtain x s1 l1 lo1 where 1: "?f s = Some (x, s1)" "tinv os a o' n m l1 lo1 s1"
      "tframe a o' s s1" "advances l lo l1 lo1" by blast
    from \<open>?good ?g\<close> 1(2) obtain y s2 l2 lo2 where 2: "?g s1 = Some (y, s2)" "tinv os a o' n m l2 lo2 s2"
      "tframe a o' s1 s2" "advances l1 lo1 l2 lo2" by blast
    have "Link_Process os lf a ev s = do { (x, s) \<leftarrow> ?f s; (y, s) \<leftarrow> ?g s; Some (x \<or> y, s) }"
      using e False by (simp add: Link_Process_def from_other_def [symmetric] to_other_def [symmetric])
    then have "Link_Process os lf a ev s = Some (x \<or> y, s2)" using 1(1) 2(1) by simp
    with 1(3,4) 2(2-4) show ?thesis by (blast intro: tframe_trans advances_trans)
  qed
qed

end
