(* ===== verification/Forwarder_Loop.thy ===== *)
theory Forwarder_Loop
  imports Forwarder_Safety
begin

text \<open>
  The forwarder as a client of the event loop: the invariant over all of its tunnels, and the
  interpretation of \<open>event_handlers\<close> with the class \<open>LinkEventHandler\<close>.
\<close>

section \<open>The invariant\<close>

text \<open>
  A link's other end exists, unless both are closed and the link itself is only
  waiting for references on the stack (\<open>t\<close> counts them) to be returned.  Every link is referenced.
\<close>

definition link_ok :: "(addr \<Rightarrow> nat) \<Rightarrow> fwd \<Rightarrow> addr \<Rightarrow> link \<Rightarrow> bool" where
  "link_ok t s a l \<longleftrightarrow>
     (\<exists>e o'. ehs s a = Some e \<and> ref_count e > 0 \<and> other l = Some o' \<and> o' \<noteq> a \<and> o' < brk s \<and>
        (case links s o' of
           Some lo \<Rightarrow> other lo = Some a \<and> is_client lo = (\<not> is_client l) \<and> pair_ok l lo \<and>
             refs_ok (t a) l e lo
         | None \<Rightarrow> \<not> open_link l \<and> flow_ok l \<and> event_loop e = None \<and> ref_count e = int (t a)))"

lemma link_okE:
  assumes "link_ok t s a l"
  obtains (peer) e o' lo where "ehs s a = Some e" "ref_count e > 0" "other l = Some o'" "o' \<noteq> a"
      "o' < brk s" "links s o' = Some lo" "other lo = Some a" "is_client lo = (\<not> is_client l)"
      "pair_ok l lo" "refs_ok (t a) l e lo"
  | (gone) e o' where "ehs s a = Some e" "ref_count e > 0" "other l = Some o'" "o' \<noteq> a" "o' < brk s"
      "links s o' = None" "\<not> open_link l" "flow_ok l" "event_loop e = None" "ref_count e = int (t a)"
proof -
  from assms obtain e o' where e: "ehs s a = Some e" "ref_count e > 0" "other l = Some o'" "o' \<noteq> a"
      "o' < brk s"
    and c: "case links s o' of
           Some lo \<Rightarrow> other lo = Some a \<and> is_client lo = (\<not> is_client l) \<and> pair_ok l lo \<and>
             refs_ok (t a) l e lo
         | None \<Rightarrow> \<not> open_link l \<and> flow_ok l \<and> event_loop e = None \<and> ref_count e = int (t a)"
    unfolding link_ok_def by blast
  show ?thesis
  proof (cases "links s o'")
    case None
    with e c show ?thesis by (intro gone [of e o']) simp_all
  next
    case (Some lo)
    with e c show ?thesis by (intro peer [of e o' lo]) simp_all
  qed
qed

primrec func_fds :: "fwd_func \<Rightarrow> fd list" where
  "func_fds (NewLink c d) = [c, d]"

definition sched_ok :: "fwd \<Rightarrow> bool" where
  "sched_ok s \<longleftrightarrow>
     distinct (concat (map func_fds (sched s))) \<and>
     (\<forall>f \<in> set (concat (map func_fds (sched s))). f \<ge> 0 \<and> f \<notin> dom (interest (hist s)))"

lemma sched_ok_mono:
  "sched_ok s \<Longrightarrow> sched s' = sched s \<Longrightarrow> dom (interest (hist s')) \<subseteq> dom (interest (hist s)) \<Longrightarrow>
   sched_ok s'"
  by (simp add: sched_ok_def) blast

definition linv :: "os \<Rightarrow> (addr \<Rightarrow> nat) \<Rightarrow> fwd \<Rightarrow> bool" where
  "linv os t s \<longleftrightarrow>
     (\<exists>xs. evl_inv os s xs) \<and> dom (links s) = dom (ehs s) \<and>
     (\<forall>a l. links s a = Some l \<longrightarrow> link_ok t s a l) \<and>
     (\<forall>a. t a > 0 \<longrightarrow> a \<in> dom (ehs s)) \<and> sched_ok s"

lemma linv_evl: "linv os t s \<Longrightarrow> \<exists>xs. evl_inv os s xs"
  by (simp add: linv_def)

lemma linv_link: "linv os t s \<Longrightarrow> links s a = Some l \<Longrightarrow> link_ok t s a l"
  by (simp add: linv_def)

lemma linv_dom: "linv os t s \<Longrightarrow> ehs s a = Some e \<Longrightarrow> \<exists>l. links s a = Some l"
  by (simp add: linv_def set_eq_iff domIff)

lemma linv_held: "linv os t s \<Longrightarrow> t a > 0 \<Longrightarrow> ehs s a \<noteq> None"
  by (simp add: linv_def domIff)

lemma link_ok_frame:
  assumes ok: "link_ok t s c l" and "ehs s' c = ehs s c"
    and "\<And>d. other l = Some d \<Longrightarrow> links s' d = links s d" and "brk s \<le> brk s'" and "t' c = t c"
  shows "link_ok t' s' c l"
  using ok by (cases rule: link_okE) (use assms(2-5) in \<open>simp_all add: link_ok_def\<close>)

text \<open>Only the heap of handlers, the links, the pending functions and the interest list matter.\<close>

lemma linv_cong:
  assumes "linv os t s" and "evl_inv os s' xs" and "links s' = links s" and "ehs s' = ehs s"
    and "brk s \<le> brk s'" and "sched s' = sched s" and "interest (hist s') = interest (hist s)"
  shows "linv os t s'"
proof -
  have "link_ok t s' a l" if "links s a = Some l" for a l
    by (rule link_ok_frame [OF linv_link [OF assms(1) that]]) (use assms in simp_all)
  moreover have "sched_ok s'" using assms(1,6,7) by (simp add: linv_def sched_ok_def)
  ultimately show ?thesis using assms(1-4) unfolding linv_def by auto
qed

lemma linv_log:
  assumes "linv os t s" and "clock_mono os" and "interest (e # hist s) = interest (hist s)"
  shows "linv os t (log_event e (s\<lparr>events_size := k\<rparr>))"
proof -
  from linv_evl [OF assms(1)] obtain xs where "evl_inv os s xs" by blast
  then have "evl_inv os (s\<lparr>events_size := k\<rparr>) xs" by (simp add: evl_inv_def on_loop_thread_def)
  with assms(2,3) have "evl_inv os (log_event e (s\<lparr>events_size := k\<rparr>)) xs" by (intro evl_inv_log) simp_all
  with assms(1) show ?thesis
    by (rule linv_cong) (simp_all add: log_event_def assms(3) del: interest.simps)
qed

text \<open>An open link has a tunnel; an operation on a tunnel that is held keeps the invariant.\<close>

lemma linv_tinv:
  assumes inv: "linv os t s" and l: "links s a = Some l" and op: "open_link l"
  shows "\<exists>o' lo. tinv os a o' (t a) (t o') l lo s"
proof -
  from linv_link [OF inv l] op obtain e o' lo where 1: "ehs s a = Some e" "other l = Some o'" "o' \<noteq> a"
    "links s o' = Some lo" "other lo = Some a" "is_client lo = (\<not> is_client l)" "pair_ok l lo"
    "refs_ok (t a) l e lo"
    by (auto simp: link_ok_def split: option.splits)
  from linv_link [OF inv 1(4)] 1(5) l obtain eo where "ehs s o' = Some eo" "pair_ok lo l"
    "refs_ok (t o') lo eo l"
    by (auto simp: link_ok_def)
  moreover obtain xs where "evl_inv os s xs" using linv_evl [OF inv] by blast
  ultimately have "tinv os a o' (t a) (t o') l lo s"
    using 1 l unfolding tinv_def rinv_def tunnel_def
    by (intro conjI exI [of _ xs] exI [of _ e] exI [of _ eo]) auto
  then show ?thesis by blast
qed

lemma tinv_linv:
  assumes inv: "linv os t s" and before: "tinv os a o' n m l lo s"
    and after: "tinv os a o' n' m' l' lo' s'" and held: "0 < n'" "0 < m'" and fr: "tframe a o' s s'"
  shows "linv os (t(a := n', o' := m')) s'"
proof -
  let ?t = "t(a := n', o' := m')"
  note b = rinv_links [of os a o' n m l lo s] and f = rinv_links [of os a o' n' m' l' lo' s']
  have b': "links s a = Some l" "links s o' = Some lo" "other l = Some o'" "other lo = Some a" "a \<noteq> o'"
    using b before by (auto simp: tinv_def)
  from after obtain xs e eo where x: "evl_inv os s' xs" "tunnel s' a o' l' lo' e eo"
    "refs_ok n' l' e lo'" "refs_ok m' lo' eo l'" "pair_ok l' lo'" "pair_ok lo' l'"
    by (auto simp: tinv_def rinv_def)
  have lt: "a < brk s'" "o' < brk s'"
    using evl_inv_eh [OF x(1), of a] evl_inv_eh [OF x(1), of o'] x(2) by (auto simp: tunnel_def eh_ok_def)
  have ends: "link_ok ?t s' a l'" "link_ok ?t s' o' lo'"
    using x(2-6) held lt by (auto simp: link_ok_def tunnel_def refs_ok_def)
  have rest: "link_ok ?t s' c lc" if c: "c \<noteq> a" "c \<noteq> o'" "links s' c = Some lc" for c lc
  proof -
    have sc: "links s c = Some lc" "ehs s' c = ehs s c" "brk s' = brk s"
      using fr c by (auto simp: tframe_def)
    have "other lc \<noteq> Some a" "other lc \<noteq> Some o'"
      using b' c by (cases rule: link_okE [OF linv_link [OF inv sc(1)]]; force)+
    then have "links s' d = links s d" if "other lc = Some d" for d
      using that fr by (auto simp: tframe_def)
    then show ?thesis
      by (intro link_ok_frame [OF linv_link [OF inv sc(1)]]) (use sc c in simp_all)
  qed
  have "link_ok ?t s' c lc" if "links s' c = Some lc" for c lc
    using that ends rest x(2) by (cases "c = a"; cases "c = o'") (auto simp: tunnel_def)
  moreover have "(c \<in> dom (links s')) = (c \<in> dom (ehs s'))" for c
    using inv fr x(2) by (cases "c = a"; cases "c = o'") (auto simp: linv_def tframe_def tunnel_def dom_def)
  then have "dom (links s') = dom (ehs s')" by blast
  moreover have "c \<in> dom (ehs s')" if "?t c > 0" for c
    using that inv fr x(2) by (cases "c = a"; cases "c = o'") (auto simp: linv_def tframe_def tunnel_def dom_def)
  moreover have "sched_ok s'"
    by (rule sched_ok_mono [of s]) (use inv fr in \<open>auto simp: linv_def tframe_def\<close>)
  ultimately show ?thesis using x(1) unfolding linv_def by blast
qed

section \<open>Reference counts\<close>

lemma link_ok_refs:
  assumes ok: "link_ok t s c l" and a: "ehs s a = Some e"
    and r: "r = ref_count e + int n - int (t a)" "r > 0"
  shows "link_ok (t(a := n)) (s\<lparr>ehs := (ehs s)(a \<mapsto> e\<lparr>ref_count := r\<rparr>)\<rparr>) c l"
  using ok
proof (cases rule: link_okE)
  case peer
  with a r show ?thesis by (cases "c = a") (simp_all add: link_ok_def refs_ok_def)
next
  case gone
  with a r show ?thesis by (cases "c = a") (simp_all add: link_ok_def)
qed

lemma linv_IncRef:
  assumes inv: "linv os t s" and a: "ehs s a = Some e"
  shows "linv os (t(a := Suc (t a))) (s\<lparr>ehs := (ehs s)(a \<mapsto> e\<lparr>ref_count := ref_count e + 1\<rparr>)\<rparr>)"
proof -
  from linv_evl [OF inv] obtain xs where x: "evl_inv os s xs" by blast
  have "evl_inv os (s\<lparr>ehs := (ehs s)(a \<mapsto> e\<lparr>ref_count := ref_count e + 1\<rparr>)\<rparr>) xs"
    using evl_inv_refs [OF x a] evl_inv_eh [OF x a] by (simp add: eh_ok_def)
  moreover have "dom (links s) = insert a (dom (ehs s))" using inv a by (auto simp: linv_def)
  ultimately show ?thesis
    using inv a link_ok_refs [of t s _ _ a e _ "Suc (t a)"] evl_inv_eh [OF x a]
    unfolding linv_def by (auto simp: sched_ok_def eh_ok_def)
qed

text \<open>Returning a reference that is not the last one.\<close>

lemma linv_DecRef_held:
  assumes inv: "linv os t s" and a: "ehs s a = Some e" and pos: "t a > 0" and r: "ref_count e > 1"
  shows "DecRef (Link_dtor os) a s = Some (s\<lparr>ehs := (ehs s)(a \<mapsto> e\<lparr>ref_count := ref_count e - 1\<rparr>)\<rparr>) \<and>
    linv os (t(a := t a - 1)) (s\<lparr>ehs := (ehs s)(a \<mapsto> e\<lparr>ref_count := ref_count e - 1\<rparr>)\<rparr>)"
proof
  let ?s = "s\<lparr>ehs := (ehs s)(a \<mapsto> e\<lparr>ref_count := ref_count e - 1\<rparr>)\<rparr>"
  show "DecRef (Link_dtor os) a s = Some ?s" using a r by (simp add: DecRef_def)
  from linv_evl [OF inv] obtain xs where x: "evl_inv os s xs" by blast
  have "evl_inv os ?s xs" using evl_inv_refs [OF x a, of "ref_count e - 1"] r by simp
  moreover have "link_ok (t(a := t a - 1)) ?s c l" if "link_ok t s c l" for c l
    using that a r pos by (intro link_ok_refs) auto
  moreover have "dom (links s) = insert a (dom (ehs s))" using inv a by (auto simp: linv_def)
  ultimately show "linv os (t(a := t a - 1)) ?s"
    using inv unfolding linv_def by (auto simp: sched_ok_def split: if_splits)
qed

text \<open>Returning the last reference: both ends are closed, the link is deleted.\<close>

lemma linv_DecRef_last:
  assumes k: "fwd_os_ok os" and inv: "linv os t s" and a: "ehs s a = Some e" and pos: "t a > 0"
    and r: "ref_count e = 1"
  shows "\<exists>s'. DecRef (Link_dtor os) a s = Some s' \<and> linv os (t(a := t a - 1)) s' \<and> sched s' = sched s \<and>
    registered s' = registered s"
proof -
  from linv_dom [OF inv a] obtain l where l: "links s a = Some l" by blast
  from linv_link [OF inv l] a obtain o' where o': "other l = Some o'" "o' \<noteq> a" by (auto simp: link_ok_def)
  have t: "t a = 1" and cl: "\<not> open_link l" "event_loop e = None"
    and clo: "\<And>lo. links s o' = Some lo \<Longrightarrow> \<not> open_link lo"
    using a pos r o'
    by (cases rule: link_okE [OF linv_link [OF inv l]];
        force simp: refs_ok_def of_bool_def split: if_splits)+
  from Buffer_dtor_spec [OF fwd_os_okD(3) [OF k], of "out l"] obtain es where es:
    "\<forall>e \<in> set es. quiet e" "\<And>s :: fwd. Buffer_dtor os (out l) s = Some (s\<lparr>hist := es @ hist s\<rparr>)"
    by metis
  let ?s1 = "s\<lparr>ehs := (ehs s)(a \<mapsto> e\<lparr>ref_count := 0\<rparr>)\<rparr>"
  let ?s = "?s1\<lparr>hist := es @ hist s, links := (links s)(a := None),
      ehs := (ehs s)(a := None), nodes := (nodes s)(a := None)\<rparr>"
  have run: "DecRef (Link_dtor os) a s = Some ?s"
    using a r cl l es(2) by (simp add: DecRef_def delete_EventHandler_def Link_dtor_def open_link_def)
  from linv_evl [OF inv] obtain xs where x: "evl_inv os s xs" by blast
  have na: "a \<notin> set xs" by (rule evl_inv_detached(1) [OF x a cl(2)])
  have "evl_inv os ?s1 xs" using evl_inv_refs [OF x a, of 0] na by simp
  then have "evl_inv os (?s1\<lparr>hist := es @ hist ?s1\<rparr>) xs"
    using evl_inv_logs [OF _ fwd_os_okD(2) [OF k] es(1)] by blast
  from evl_inv_free [OF this na] have "evl_inv os (s\<lparr>ehs := (ehs s)(a := None), hist := es @ hist s,
      nodes := (nodes s)(a := None)\<rparr>) xs"
    by (simp add: evl_inv_def on_loop_thread_def)
  then have e1: "evl_inv os ?s xs" by (simp add: evl_inv_def on_loop_thread_def)
  have lk: "link_ok (t(a := t a - 1)) ?s c lc" if c: "c \<noteq> a" "links s c = Some lc" for c lc
  proof (cases "c = o'")
    case True
    with c clo have cl': "\<not> open_link lc" by simp
    have to_a: "other lc = Some a"
      by (cases rule: link_okE [OF linv_link [OF inv l]]) (use True c o' in auto)
    show ?thesis
      by (cases rule: link_okE [OF linv_link [OF inv c(2)]])
        (use cl cl' to_a c l in \<open>simp_all add: link_ok_def refs_ok_def pair_ok_def\<close>)
  next
    case False
    have "other lc \<noteq> Some a" using linv_link [OF inv c(2)] l o' False by (auto simp: link_ok_def)
    then show ?thesis
      by (intro link_ok_frame [OF linv_link [OF inv c(2)]]) (use c in auto)
  qed
  have "sched_ok ?s" using inv interest_quiet [OF es(1)] by (simp add: linv_def sched_ok_def)
  moreover have "dom ((links s)(a := None)) = dom ((ehs s)(a := None))"
    using inv by (auto simp: linv_def)
  moreover have "\<forall>c. (t(a := t a - 1)) c > 0 \<longrightarrow> c \<in> dom ((ehs s)(a := None))"
    using inv t by (auto simp: linv_def)
  ultimately have "linv os (t(a := t a - 1)) ?s"
    using e1 lk unfolding linv_def by (auto split: if_splits)
  moreover have "registered ?s = registered s"
    using a cl(2) by (auto simp: registered_def fun_eq_iff)
  ultimately show ?thesis using run by auto
qed

lemma linv_DecRef:
  assumes "fwd_os_ok os" and inv: "linv os t s" and pos: "t a > 0"
  shows "\<exists>s'. DecRef (Link_dtor os) a s = Some s' \<and> linv os (t(a := t a - 1)) s' \<and> sched s' = sched s \<and>
    registered s' = registered s"
proof -
  from linv_held [OF inv pos] obtain e where e: "ehs s a = Some e" by blast
  from linv_dom [OF inv e] obtain l where "links s a = Some l" by blast
  from linv_link [OF inv this] e have "ref_count e > 0" by (auto simp: link_ok_def)
  then consider "ref_count e = 1" | "ref_count e > 1" by linarith
  then show ?thesis
  proof cases
    case 1
    then show ?thesis by (rule linv_DecRef_last [OF assms(1,2) e pos])
  next
    case 2
    with linv_DecRef_held [OF inv e pos] e show ?thesis
      by (auto simp: registered_def fun_eq_iff)
  qed
qed

section \<open>Events and timeouts\<close>

lemma linv_registered:
  assumes inv: "linv os t s" and reg: "registered s a"
  shows "\<exists>l o' lo. links s a = Some l \<and> tinv os a o' (t a) (t o') l lo s"
proof -
  from reg obtain e where e: "ehs s a = Some e" "event_loop e = Some (self s)" by (auto simp: registered_def)
  from linv_dom [OF inv e(1)] obtain l where l: "links s a = Some l" by blast
  have "open_link l"
    by (cases rule: link_okE [OF linv_link [OF inv l]]) (use e in \<open>auto simp: refs_ok_def\<close>)
  from linv_tinv [OF inv l this] l show ?thesis by blast
qed

text \<open>Both handlers take a reference on the other end first.\<close>

lemma hold_other:
  assumes inv: "linv os t s" and reg: "registered s a"
  shows "\<exists>l o' lo s1. links s a = Some l \<and> other l = Some o' \<and> o' \<noteq> a \<and> IncRef o' s = Some s1 \<and>
    linv os (t(o' := Suc (t o'))) s1 \<and> tinv os a o' (t a) (Suc (t o')) l lo s1 \<and>
    sched s1 = sched s \<and> registered s1 = registered s"
proof -
  from linv_registered [OF inv reg] obtain l o' lo where t: "links s a = Some l"
    "tinv os a o' (t a) (t o') l lo s" by blast
  then obtain xs e eo where x: "evl_inv os s xs" "tunnel s a o' l lo e eo" "refs_ok (t a) l e lo"
    "refs_ok (t o') lo eo l" "pair_ok l lo" "pair_ok lo l" by (auto simp: tinv_def rinv_def)
  then have eo: "ehs s o' = Some eo" "ref_count eo \<ge> 0"
    using evl_inv_eh [OF x(1), of o' eo] by (auto simp: tunnel_def eh_ok_def)
  let ?s = "s\<lparr>ehs := (ehs s)(o' \<mapsto> eo\<lparr>ref_count := ref_count eo + 1\<rparr>)\<rparr>"
  have inv1: "linv os (t(o' := Suc (t o'))) ?s" by (rule linv_IncRef [OF inv eo(1)])
  have "registered ?s a" using reg x(2) by (auto simp: registered_def tunnel_def)
  from linv_registered [OF inv1 this] x(2) obtain lo' where
    "tinv os a o' (t a) (Suc (t o')) l lo' ?s"
    using rinv_links by (fastforce simp: tinv_def tunnel_def)
  moreover have "IncRef o' s = Some ?s" using eo by (simp add: IncRef_def)
  moreover have "registered ?s = registered s" using eo(1) by (auto simp: registered_def fun_eq_iff)
  ultimately show ?thesis using t(1) x(2) inv1 by (auto simp: tunnel_def)
qed

text \<open>They return it at the end; what is left of the tunnel is as the invariant says.\<close>

lemma release_other:
  assumes k: "fwd_os_ok os" and inv: "linv os (t(o' := Suc (t o'))) s1" and held: "t a > 0"
    and before: "tinv os a o' (t a) (Suc (t o')) l lo s1"
    and after: "tinv os a o' (t a) (Suc (t o')) l' lo' s2" and fr: "tframe a o' s1 s2"
  shows "links s2 a = Some l' \<and> other l' = Some o' \<and>
    (\<exists>s3. DecRef (Link_dtor os) o' s2 = Some s3 \<and> linv os t s3 \<and> sched s3 = sched s1 \<and>
      registered s3 = registered s2)"
proof -
  let ?t = "t(o' := Suc (t o'))"
  have "linv os (?t(a := t a, o' := Suc (t o'))) s2"
    using tinv_linv [OF inv before after held _ fr] by simp
  moreover have ne: "a \<noteq> o'" using before by (auto simp: tinv_def rinv_def tunnel_def)
  then have "?t(a := t a, o' := Suc (t o')) = ?t" by (auto simp: fun_eq_iff)
  ultimately have "linv os ?t s2" by simp
  from linv_DecRef [OF k this, of o'] have "\<exists>s3. DecRef (Link_dtor os) o' s2 = Some s3 \<and>
      linv os (?t(o' := ?t o' - 1)) s3 \<and> sched s3 = sched s2 \<and> registered s3 = registered s2" by simp
  moreover have "?t(o' := ?t o' - 1) = t" by simp
  moreover have "sched s2 = sched s1" using fr by (simp add: tframe_def)
  ultimately show ?thesis
    using after rinv_links(1,3) [of os a o' "t a" "Suc (t o')" l' lo' s2] by (auto simp: tinv_def)
qed

lemma Link_OnEvent_ok:
  assumes k: "fwd_os_ok os" and mu: "bounded_supply os mu" and inv: "linv os t s" and held: "t a > 0"
    and reg: "registered s a"
  shows "\<exists>s'. Link_OnEvent os lf a ev s = Some s' \<and> linv os t s' \<and> sched s' = sched s"
proof -
  from hold_other [OF inv reg] obtain l o' lo s1 where 1: "links s a = Some l" "other l = Some o'"
    "IncRef o' s = Some s1" "linv os (t(o' := Suc (t o'))) s1" "tinv os a o' (t a) (Suc (t o')) l lo s1"
    "sched s1 = sched s" by blast
  from Link_Process_ok [OF k mu held _ 1(5), of lf ev] obtain r s2 l2 lo2 where
    2: "Link_Process os lf a ev s1 = Some (r, s2)" "tinv os a o' (t a) (Suc (t o')) l2 lo2 s2"
      "tframe a o' s1 s2" by auto
  from Link_Refresh_ok [OF k 2(2)] obtain s3 where 3: "Link_Refresh os a s2 = Some s3"
    "tinv os a o' (t a) (Suc (t o')) l2 lo2 s3" "tframe a o' s2 s3" by blast
  from Link_Refresh_ok [OF k tinv_sym [OF 3(2)]] obtain s4 where 4: "Link_Refresh os o' s3 = Some s4"
    "tinv os o' a (Suc (t o')) (t a) lo2 l2 s4" "tframe o' a s3 s4" by blast
  let ?s = "if r then s4 else s2"
  have 5: "tinv os a o' (t a) (Suc (t o')) l2 lo2 ?s" using 2(2) tinv_sym [OF 4(2)] by simp
  have 6: "tframe a o' s1 ?s"
    using 2(3) tframe_trans [OF tframe_trans [OF 2(3) 3(3)] tframe_sym [OF 4(3)]] by simp
  have "links s3 a = Some l2" "other l2 = Some o'" using 3(2) rinv_links(1,3) by (auto simp: tinv_def)
  moreover from release_other [OF k 1(4) held 1(5) 5 6] obtain s' where
    "links ?s a = Some l2" "DecRef (Link_dtor os) o' ?s = Some s'" "linv os t s'" "sched s' = sched s1" by blast
  ultimately show ?thesis
    using 1 2(1) 3(1) 4(1) by (cases r) (auto simp: Link_OnEvent_def)
qed

text \<open>A link that times out takes the whole tunnel down.\<close>

lemma Link_OnTimeout_ok:
  assumes k: "fwd_os_ok os" and inv: "linv os t s" and held: "t a > 0" and reg: "registered s a"
  shows "\<exists>s' o' l. Link_OnTimeout os a s = Some s' \<and> linv os t s' \<and> sched s' = sched s \<and>
    links s a = Some l \<and> other l = Some o' \<and> \<not> registered s' a \<and> \<not> registered s' o' \<and>
    (\<forall>b. registered s' b \<longrightarrow> registered s b)"
proof -
  from hold_other [OF inv reg] obtain l o' lo s1 where 1: "links s a = Some l" "other l = Some o'"
    "IncRef o' s = Some s1" "linv os (t(o' := Suc (t o'))) s1" "tinv os a o' (t a) (Suc (t o')) l lo s1"
    "sched s1 = sched s" "registered s1 = registered s" by blast
  have r: "rinv os a o' (t a) (Suc (t o')) l lo s1" and p: "pair_ok l lo" "pair_ok lo l"
    using 1(5) by (auto simp: tinv_def)
  from Terminate_ok [OF k r held] obtain s2 where 2: "Terminate os a s1 = Some s2"
    "rinv os a o' (t a) (Suc (t o')) (closed_link l) (closed_link lo) s2" "tframe a o' s1 s2" by blast
  have p2: "pair_ok (closed_link l) (closed_link lo)" "pair_ok (closed_link lo) (closed_link l)"
    using p by (auto simp: pair_ok_def flow_ok_def)
  with 2(2) have 3: "tinv os a o' (t a) (Suc (t o')) (closed_link l) (closed_link lo) s2"
    by (simp add: tinv_def)
  from release_other [OF k 1(4) held 1(5) 3 2(3)] obtain s' where 4: "links s2 a = Some (closed_link l)"
    "DecRef (Link_dtor os) o' s2 = Some s'" "linv os t s'" "sched s' = sched s1"
    "registered s' = registered s2" by blast
  have un: "\<not> registered s2 a" "\<not> registered s2 o'"
    using 2(2) by (auto simp: rinv_def tunnel_def refs_ok_def open_link_def registered_def)
  then have "registered s b" if "registered s2 b" for b
    using that 2(3) 1(7) by (cases "b = a"; cases "b = o'") (auto simp: tframe_def registered_def fun_eq_iff)
  with un 1 2(1) 4 show ?thesis by (auto simp: Link_OnTimeout_def)
qed

section \<open>New tunnels\<close>

definition opts_ok :: "os \<Rightarrow> fwd_options \<Rightarrow> bool" where
  "opts_ok os opt \<longleftrightarrow>
     0 < client_to_server_buffer_size_bytes opt \<and> int (client_to_server_buffer_size_bytes opt) < INT_MAX \<and>
     client_to_server_buffer_size_bytes opt \<le> os_pipe_max os \<and>
     length kResponse \<le> server_to_client_buffer_size_bytes opt \<and>
     int (server_to_client_buffer_size_bytes opt) < INT_MAX \<and>
     server_to_client_buffer_size_bytes opt \<le> os_pipe_max os"

text \<open>Steps that leave everything but the new handlers alone.\<close>

definition same_loop :: "fwd \<Rightarrow> fwd \<Rightarrow> bool" where
  "same_loop s s' \<longleftrightarrow> sched s' = sched s \<and> self s' = self s \<and> interest (hist s') = interest (hist s) \<and>
     suffix (hist s) (hist s')"

lemma new_link_ok:
  assumes inv: "evl_inv os s xs" and f: "f \<ge> 0"
  shows "\<exists>s'. new_LinkEventHandler f cl s = Some (brk s, s') \<and> evl_inv os s' xs \<and> same_loop s s' \<and>
    links s' = (links s)(brk s \<mapsto>
       \<lparr>is_client = cl, out = new_buffer, readable = True, writable = True, other = None\<rparr>) \<and>
    ehs s' = (ehs s)(brk s \<mapsto> \<lparr>eh_fd = f, deadline = 0, event_loop = None, ref_count = 0\<rparr>) \<and>
    brk s' = Suc (brk s) \<and> ehs s (brk s) = None"
proof -
  let ?s1 = "s\<lparr>brk := Suc (brk s), nodes := (nodes s)(brk s \<mapsto> new_node),
       ehs := (ehs s)(brk s \<mapsto> \<lparr>eh_fd = f, deadline = 0, event_loop = None, ref_count = 0\<rparr>)\<rparr>"
  have new: "new_EventHandler f s = Some (brk s, ?s1)"
    using f by (simp add: new_EventHandler_def Let_def)
  from evl_inv_new(1,4) [OF inv new] new show ?thesis
    by (simp add: new_LinkEventHandler_def same_loop_def evl_inv_links)
qed

lemma link_Init_ok:
  assumes k: "fwd_os_ok os" and inv: "evl_inv os s xs" and l: "links s a = Some l" "out l = new_buffer"
    and n: "0 < n" "int n < INT_MAX" "n \<le> os_pipe_max os"
  shows "\<exists>r b s'. link_Init os a n s = Some (r, s') \<and> evl_inv os s' xs \<and> same_loop s s' \<and>
    links s' = (links s)(a \<mapsto> l\<lparr>out := b\<rparr>) \<and> ehs s' = ehs s \<and> brk s' = brk s \<and>
    b_size b = 0 \<and> k_in b = [] \<and> k_src b = [] \<and> k_out b = [] \<and>
    (r \<longrightarrow> buffer_ok b \<and> b_rd b \<ge> 0 \<and> b_wr b \<ge> 0 \<and> int n \<le> b_capacity b) \<and>
    (\<not> r \<longrightarrow> (\<exists>h e. os_pipe os h = Inl e))"
proof -
  from Buffer_Init_spec [OF fwd_os_okD(5) [OF k] n, of s] obtain r b es where
    1: "Buffer_Init os n new_buffer s = Some (r, b, s\<lparr>hist := es @ hist s\<rparr>)" "\<forall>e \<in> set es. quiet e"
      "b_size b = 0" "k_in b = []" "k_src b = []" "k_out b = []"
      "r \<longrightarrow> buffer_ok b \<and> b_rd b \<ge> 0 \<and> b_wr b \<ge> 0 \<and> int n \<le> b_capacity b"
      "\<not> r \<longrightarrow> (\<exists>h e. os_pipe os h = Inl e)"
    by (metis (full_types))
  let ?s = "s\<lparr>hist := es @ hist s, links := (links s)(a \<mapsto> l\<lparr>out := b\<rparr>)\<rparr>"
  have "evl_inv os ?s xs"
    using evl_inv_logs [OF inv fwd_os_okD(2) [OF k] 1(2)] by (simp only: evl_inv_links)
  with 1 l show ?thesis
    by (intro exI [of _ r] exI [of _ b] exI [of _ ?s])
      (simp add: link_Init_def upd_link_def same_loop_def interest_quiet suffix_def)
qed

lemma abandon_ok:
  assumes k: "fwd_os_ok os" and inv: "evl_inv os s xs" and l: "links s a = Some l" "ehs s a = Some e"
    and e: "event_loop e = None" "ref_count e = 0"
  shows "\<exists>s'. abandon os a s = Some s' \<and> evl_inv os s' xs \<and> same_loop s s' \<and>
    links s' = (links s)(a := None) \<and> ehs s' = (ehs s)(a := None) \<and> brk s' = brk s \<and>
    Close (eh_fd e) 0 \<in> set (hist s')"
proof -
  from Buffer_dtor_spec [OF fwd_os_okD(3) [OF k], of "out l"] obtain es where es:
    "\<forall>e \<in> set es. quiet e" "\<And>s :: fwd. Buffer_dtor os (out l) s = Some (s\<lparr>hist := es @ hist s\<rparr>)"
    by metis
  let ?fs = "es @ [Close (eh_fd e) 0]"
  let ?s1 = "s\<lparr>hist := ?fs @ hist s\<rparr>"
  let ?s = "s\<lparr>hist := ?fs @ hist s, links := (links s)(a := None),
      ehs := (ehs s)(a := None), nodes := (nodes s)(a := None)\<rparr>"
  have na: "a \<notin> set xs" by (rule evl_inv_detached(1) [OF inv l(2) e(1)])
  have q: "\<forall>e \<in> set ?fs. quiet e" using es(1) by simp
  have "evl_inv os ?s1 xs" using inv fwd_os_okD(2) [OF k] q by (rule evl_inv_logs)
  from evl_inv_free [OF this na] have "evl_inv os ?s xs" by (simp add: evl_inv_def on_loop_thread_def)
  moreover have "abandon os a s = Some ?s"
    using l e es(2) fwd_os_okD(3) [OF k]
    by (simp add: abandon_def close_checked_ok upd_link_def delete_EventHandler_def Link_dtor_def log_event_def)
  ultimately show ?thesis using interest_quiet [OF q] by (simp add: same_loop_def suffix_def)
qed

lemma same_loop_trans: "same_loop s s' \<Longrightarrow> same_loop s' s'' \<Longrightarrow> same_loop s s''"
  by (auto simp: same_loop_def intro: suffix_order.trans)

lemma linv_none: "linv os t s \<Longrightarrow> ehs s a = None \<Longrightarrow> links s a = None"
  by (metis domIff linv_def)

lemma linv_fresh:
  assumes "linv os t s" and "brk s \<le> a"
  shows "ehs s a = None"
proof (cases "ehs s a")
  case (Some e)
  moreover obtain xs where "evl_inv os s xs" using linv_evl [OF assms(1)] by blast
  ultimately show ?thesis using evl_inv_eh [of os s xs a e] assms(2) by (simp add: eh_ok_def)
qed

text \<open>When a pipe cannot be created, both handlers are deleted and both sockets are closed.\<close>

lemma abandon_both:
  assumes k: "fwd_os_ok os" and inv: "linv os t s" and ev: "evl_inv os s' xs" and sl: "same_loop s s'"
    and ls: "links s' = (links s)(a \<mapsto> la, b \<mapsto> lb)" and es: "ehs s' = (ehs s)(a \<mapsto> ea, b \<mapsto> eb)"
    and new: "a \<noteq> b" "ehs s a = None" "ehs s b = None" "brk s \<le> brk s'"
    and e: "event_loop ea = None" "ref_count ea = 0" "event_loop eb = None" "ref_count eb = 0"
  shows "\<exists>s''. do { s \<leftarrow> abandon os a s'; abandon os b s } = Some s'' \<and> linv os t s'' \<and>
    links s'' = links s \<and> ehs s'' = ehs s \<and> Close (eh_fd ea) 0 \<in> set (hist s'') \<and>
    Close (eh_fd eb) 0 \<in> set (hist s'') \<and> sched s'' = sched s"
proof -
  from abandon_ok [OF k ev, of a la ea] ls es new e obtain s1 where 1: "abandon os a s' = Some s1"
    "evl_inv os s1 xs" "same_loop s' s1" "links s1 = (links s')(a := None)" "ehs s1 = (ehs s')(a := None)"
    "brk s1 = brk s'" "Close (eh_fd ea) 0 \<in> set (hist s1)" by auto
  from abandon_ok [OF k 1(2), of b lb eb] 1(4,5) ls es new e obtain s2 where 2: "abandon os b s1 = Some s2"
    "evl_inv os s2 xs" "same_loop s1 s2" "links s2 = (links s1)(b := None)" "ehs s2 = (ehs s1)(b := None)"
    "brk s2 = brk s1" "Close (eh_fd eb) 0 \<in> set (hist s2)" by auto
  have "links s a = None" "links s b = None" using linv_none [OF inv] new by simp_all
  then have same: "links s2 = links s" "ehs s2 = ehs s"
    using 1(4,5) 2(4,5) ls es new by (auto simp: fun_eq_iff)
  have sl2: "same_loop s s2" using sl 1(3) 2(3) by (blast intro: same_loop_trans)
  with same have "linv os t s2"
    using 1(6) 2(6) new(4) by (intro linv_cong [OF inv 2(2)]) (simp_all add: same_loop_def)
  moreover have "Close (eh_fd ea) 0 \<in> set (hist s2)"
    using 1(7) 2(3) by (auto simp: same_loop_def suffix_def)
  ultimately show ?thesis using 1(1) 2(1,7) same sl2 by (simp add: same_loop_def)
qed

text \<open>The single steps of the other case, by what they do to the state.\<close>

lemma upd_link_ok:
  assumes "evl_inv os s xs" and "links s a = Some l"
  shows "\<exists>s'. upd_link a f s = Some s' \<and> evl_inv os s' xs \<and> same_loop s s' \<and>
    links s' = (links s)(a \<mapsto> f l) \<and> ehs s' = ehs s \<and> brk s' = brk s"
  using assms by (simp add: upd_link_def evl_inv_links same_loop_def)

lemma new_IncRef_ok:
  assumes "evl_inv os s xs" and "ehs s a = Some e"
  shows "\<exists>s'. IncRef a s = Some s' \<and> evl_inv os s' xs \<and> same_loop s s' \<and> links s' = links s \<and>
    ehs s' = (ehs s)(a \<mapsto> e\<lparr>ref_count := ref_count e + 1\<rparr>) \<and> brk s' = brk s"
  using assms evl_inv_eh [OF assms] evl_inv_refs [OF assms, of "ref_count e + 1"]
  by (simp add: IncRef_def eh_ok_def same_loop_def)

lemma link_Add_ok:
  assumes k: "fwd_os_ok os" and inv: "evl_inv os s xs" and a: "ehs s a = Some e" "event_loop e = None"
    and f: "eh_fd e \<notin> dom (interest (hist s))"
  shows "\<exists>s' e'. EventLoop_Add os (Some a) ev s = Some s' \<and> evl_inv os s' (xs @ [a]) \<and>
    links s' = links s \<and> ehs s' = (ehs s)(a \<mapsto> e') \<and> event_loop e' \<noteq> None \<and>
    ref_count e' = ref_count e + 1 \<and> brk s' = brk s \<and> sched s' = sched s \<and>
    interest (hist s') = (interest (hist s))(eh_fd e \<mapsto> (ev, Some a))"
proof -
  let ?e = "e\<lparr>ref_count := ref_count e + 1, event_loop := Some (self s),
          deadline := os_clock os (hist s) + timeout s\<rparr>"
  from EventLoop_Add_spec [OF inv fwd_os_okD(1,2) [OF k] a f, of ev] obtain s' where
    "EventLoop_Add os (Some a) ev s = Some s'" "evl_inv os s' (xs @ [a])" "links s' = links s"
    "ehs s' = (ehs s)(a \<mapsto> ?e)" "brk s' = brk s" "sched s' = sched s"
    "interest (hist s') = (interest (hist s))(eh_fd e \<mapsto> (ev, Some a))"
    by (elim exE conjE) simp
  then show ?thesis by (intro exI [of _ s'] exI [of _ ?e]) simp
qed

lemma link_Write_ok:
  assumes k: "fwd_os_ok os" and inv: "evl_inv os s xs" and l: "links s a = Some l"
    and b: "buffer_ok (out l)" "b_rd (out l) \<ge> 0" "b_wr (out l) \<ge> 0" "b_size (out l) = 0"
      "int (length kResponse) \<le> b_capacity (out l)"
  shows "\<exists>s' b. do { (b, s) \<leftarrow> Buffer_Write os kResponse (out l) s; upd_link a (\<lambda>l. l\<lparr>out := b\<rparr>) s } = Some s' \<and>
    evl_inv os s' xs \<and> same_loop s s' \<and> links s' = (links s)(a \<mapsto> l\<lparr>out := b\<rparr>) \<and> ehs s' = ehs s \<and>
    brk s' = brk s \<and> buffer_ok b \<and> k_in b = k_in (out l) @ kResponse \<and> k_src b = k_src (out l) \<and>
    b_rd b = b_rd (out l) \<and> b_wr b = b_wr (out l)"
proof -
  have "length kResponse \<le> PIPE_BUF" by (simp add: kResponse_def)
  from Buffer_Write_spec [OF fwd_os_okD(5) [OF k] b(1-3) _ this, of s] b(4,5) obtain b' where
    w: "Buffer_Write os kResponse (out l) s =
        Some (b', s\<lparr>hist := [Write (b_wr (out l)) kResponse (Inr (length kResponse))] @ hist s\<rparr>)"
      "buffer_ok b'" "k_in b' = k_in (out l) @ kResponse" "k_src b' = k_src (out l)"
      "b_rd b' = b_rd (out l)" "b_wr b' = b_wr (out l)" by auto
  have "evl_inv os (s\<lparr>hist := [Write (b_wr (out l)) kResponse (Inr (length kResponse))] @ hist s\<rparr>) xs"
    by (rule evl_inv_logs [OF inv fwd_os_okD(2) [OF k]]) simp
  from upd_link_ok [OF this, of a l "\<lambda>l. l\<lparr>out := b'\<rparr>"] l obtain s' where
    "upd_link a (\<lambda>l. l\<lparr>out := b'\<rparr>) (s\<lparr>hist := [Write (b_wr (out l)) kResponse (Inr (length kResponse))] @ hist s\<rparr>) =
      Some s'" "evl_inv os s' xs" "same_loop s s'" "links s' = (links s)(a \<mapsto> l\<lparr>out := b'\<rparr>)"
    "ehs s' = ehs s" "brk s' = brk s"
    by (auto simp: same_loop_def suffix_def)
  with w show ?thesis by (intro exI [of _ s'] exI [of _ b']) simp
qed

text \<open>A tunnel of two new links joins those that are there.\<close>

lemma linv_add_pair:
  assumes inv: "linv os t s" and ev: "evl_inv os s' ys"
    and ls: "links s' = (links s)(a \<mapsto> la, b \<mapsto> lb)" and es: "ehs s' = (ehs s)(a \<mapsto> ea, b \<mapsto> eb)"
    and new: "a \<noteq> b" "brk s \<le> a" "brk s \<le> b" "brk s \<le> brk s'"
    and ok: "link_ok t s' a la" "link_ok t s' b lb" and sch: "sched_ok s'"
  shows "linv os t s'"
proof -
  have "link_ok t s' c lc" if c: "c \<noteq> a" "c \<noteq> b" "links s c = Some lc" for c lc
  proof -
    have "links s' d = links s d" if "other lc = Some d" for d
      by (cases rule: link_okE [OF linv_link [OF inv c(3)]]) (use that new ls in auto)
    then show ?thesis
      by (intro link_ok_frame [OF linv_link [OF inv c(3)]]) (use c new es in auto)
  qed
  then have "link_ok t s' c lc" if "links s' c = Some lc" for c lc
    using that ls ok by (auto split: if_splits)
  moreover have "dom (links s') = dom (ehs s')" using inv ls es by (auto simp: linv_def)
  moreover have "\<forall>c. t c > 0 \<longrightarrow> c \<in> dom (ehs s')" using inv es by (auto simp: linv_def)
  ultimately show ?thesis using ev sch unfolding linv_def by blast
qed

text \<open>
  The other case, from the two new handlers with their pipes: they are connected, referenced
  and registered, and the response is in the client's pipe.
\<close>

lemma connect_both:
  assumes k: "fwd_os_ok os" and inv: "linv os t s" and ev: "evl_inv os s' xs" and sl: "same_loop s s'"
    and ls: "links s' = (links s)(a \<mapsto> la, b \<mapsto> lb)"
    and es: "ehs s' = (ehs s)(a \<mapsto> \<lparr>eh_fd = c, deadline = 0, event_loop = None, ref_count = 0\<rparr>,
                               b \<mapsto> \<lparr>eh_fd = d, deadline = 0, event_loop = None, ref_count = 0\<rparr>)"
    and new: "a \<noteq> b" "brk s \<le> a" "brk s \<le> b" "a < brk s'" "b < brk s'"
    and fds: "c \<noteq> d" "c \<notin> dom (interest (hist s))" "d \<notin> dom (interest (hist s))"
      "c \<notin> set (concat (map func_fds (sched s)))" "d \<notin> set (concat (map func_fds (sched s)))"
    and la: "is_client la" "readable la" "writable la" "buffer_ok (out la)" "b_rd (out la) \<ge> 0"
      "b_wr (out la) \<ge> 0" "k_in (out la) = []" "k_src (out la) = []" "b_size (out la) = 0"
      "int (length kResponse) \<le> b_capacity (out la)"
    and lb: "\<not> is_client lb" "readable lb" "writable lb" "buffer_ok (out lb)" "b_rd (out lb) \<ge> 0"
      "b_wr (out lb) \<ge> 0" "k_in (out lb) = []" "k_src (out lb) = []"
  shows "\<exists>s''. do {
       s \<leftarrow> upd_link a (\<lambda>l. l\<lparr>other := Some b\<rparr>) s';
       s \<leftarrow> upd_link b (\<lambda>l. l\<lparr>other := Some a\<rparr>) s;
       s \<leftarrow> IncRef a s;
       s \<leftarrow> IncRef b s;
       s \<leftarrow> EventLoop_Add os (Some a) (EPOLLIN OR EPOLLOUT OR EPOLLET) s;
       s \<leftarrow> EventLoop_Add os (Some b) (EPOLLIN OR EPOLLOUT OR EPOLLET) s;
       l \<leftarrow> links s a;
       (b, s) \<leftarrow> Buffer_Write os kResponse (out l) s;
       upd_link a (\<lambda>l. l\<lparr>out := b\<rparr>) s
     } = Some s'' \<and> linv os t s'' \<and> sched s'' = sched s \<and>
     (\<exists>la lb. links s'' = (links s)(a \<mapsto> la, b \<mapsto> lb) \<and> is_client la \<and>
        readable la \<and> writable la \<and> readable lb \<and> writable lb \<and>
        dom (interest (hist s'')) = {c, d} \<union> dom (interest (hist s)))"
proof -
  let ?ev = "EPOLLIN OR EPOLLOUT OR EPOLLET"
  let ?la = "la\<lparr>other := Some b\<rparr>" and ?lb = "lb\<lparr>other := Some a\<rparr>"
  have "links s' a = Some la" using ls new(1) by simp
  from upd_link_ok [OF ev this, of "\<lambda>l. l\<lparr>other := Some b\<rparr>"] obtain s1 where
    1: "upd_link a (\<lambda>l. l\<lparr>other := Some b\<rparr>) s' = Some s1" "evl_inv os s1 xs" "same_loop s' s1"
      "links s1 = (links s')(a \<mapsto> ?la)" "ehs s1 = ehs s'" "brk s1 = brk s'" by blast
  have "links s1 b = Some lb" using ls new(1) 1(4) by simp
  from upd_link_ok [OF 1(2) this, of "\<lambda>l. l\<lparr>other := Some a\<rparr>"] obtain s2 where
    2: "upd_link b (\<lambda>l. l\<lparr>other := Some a\<rparr>) s1 = Some s2" "evl_inv os s2 xs" "same_loop s1 s2"
      "links s2 = (links s1)(b \<mapsto> ?lb)" "ehs s2 = ehs s1" "brk s2 = brk s1" by blast
  have "ehs s2 a = Some \<lparr>eh_fd = c, deadline = 0, event_loop = None, ref_count = 0\<rparr>"
    using es new(1) 1(5) 2(5) by simp
  from new_IncRef_ok [OF 2(2) this] obtain s3 where
    3: "IncRef a s2 = Some s3" "evl_inv os s3 xs" "same_loop s2 s3" "links s3 = links s2"
      "ehs s3 = (ehs s2)(a \<mapsto> \<lparr>eh_fd = c, deadline = 0, event_loop = None, ref_count = 1\<rparr>)"
      "brk s3 = brk s2" by auto
  have "ehs s3 b = Some \<lparr>eh_fd = d, deadline = 0, event_loop = None, ref_count = 0\<rparr>"
    using es new(1) 1(5) 2(5) 3(5) by simp
  from new_IncRef_ok [OF 3(2) this] obtain s4 where
    4: "IncRef b s3 = Some s4" "evl_inv os s4 xs" "same_loop s3 s4" "links s4 = links s3"
      "ehs s4 = (ehs s3)(b \<mapsto> \<lparr>eh_fd = d, deadline = 0, event_loop = None, ref_count = 1\<rparr>)"
      "brk s4 = brk s3" by auto
  have sl4: "same_loop s s4" using sl 1(3) 2(3) 3(3) 4(3) by (blast intro: same_loop_trans)
  have "ehs s4 a = Some \<lparr>eh_fd = c, deadline = 0, event_loop = None, ref_count = 1\<rparr>"
    using new(1) 3(5) 4(5) by simp
  from link_Add_ok [OF k 4(2) this, of ?ev] fds(2) sl4 obtain s5 e5 where
    5: "EventLoop_Add os (Some a) ?ev s4 = Some s5" "evl_inv os s5 (xs @ [a])" "links s5 = links s4"
      "ehs s5 = (ehs s4)(a \<mapsto> e5)" "event_loop e5 \<noteq> None" "ref_count e5 = 2" "brk s5 = brk s4"
      "sched s5 = sched s" "interest (hist s5) = (interest (hist s))(c \<mapsto> (?ev, Some a))"
    by (auto simp: same_loop_def)
  have "ehs s5 b = Some \<lparr>eh_fd = d, deadline = 0, event_loop = None, ref_count = 1\<rparr>"
    using new(1) 4(5) 5(4) by simp
  from link_Add_ok [OF k 5(2) this, of ?ev] fds(1,3) 5(8,9) obtain s6 e6 where
    6: "EventLoop_Add os (Some b) ?ev s5 = Some s6" "evl_inv os s6 ((xs @ [a]) @ [b])" "links s6 = links s5"
      "ehs s6 = (ehs s5)(b \<mapsto> e6)" "event_loop e6 \<noteq> None" "ref_count e6 = 2" "brk s6 = brk s5"
      "sched s6 = sched s"
      "interest (hist s6) = (interest (hist s))(c \<mapsto> (?ev, Some a), d \<mapsto> (?ev, Some b))"
    by auto
  have "links s6 a = Some ?la" using new(1) 1(4) 2(4) 3(4) 4(4) 5(3) 6(3) by simp
  note l6 = this
  from link_Write_ok [OF k 6(2) this] la obtain s7 w where
    7: "do { (b, s) \<leftarrow> Buffer_Write os kResponse (out ?la) s6; upd_link a (\<lambda>l. l\<lparr>out := b\<rparr>) s } = Some s7"
      "evl_inv os s7 ((xs @ [a]) @ [b])" "same_loop s6 s7" "links s7 = (links s6)(a \<mapsto> ?la\<lparr>out := w\<rparr>)"
      "ehs s7 = ehs s6" "brk s7 = brk s6" "buffer_ok w" "k_in w = kResponse" "k_src w = []"
      "b_rd w \<ge> 0" "b_wr w \<ge> 0"
    by auto
  have links7: "links s7 = (links s)(a \<mapsto> ?la\<lparr>out := w\<rparr>, b \<mapsto> ?lb)"
    using new(1) ls 1(4) 2(4) 3(4) 4(4) 5(3) 6(3) 7(4) by (simp add: fun_upd_twist)
  have ehs7: "ehs s7 = (ehs s)(a \<mapsto> e5, b \<mapsto> e6)"
    using new(1) es 1(5) 2(5) 3(5) 4(5) 5(4) 6(4) 7(5) by (simp add: fun_upd_twist)
  have brk7: "brk s7 = brk s'" using 1(6) 2(6) 3(6) 4(6) 5(7) 6(7) 7(6) by simp
  have "ehs s a = None" "ehs s b = None"
    using linv_fresh [OF inv] new(2,3) by simp_all
  then have "t a = 0" "t b = 0" using linv_held [OF inv, of a] linv_held [OF inv, of b] by auto
  then have "refs_ok (t a) (?la\<lparr>out := w\<rparr>) e5 ?lb" "refs_ok (t b) ?lb e6 (?la\<lparr>out := w\<rparr>)"
    using 5(5,6) 6(5,6) la lb by (auto simp: refs_ok_def open_link_def)
  moreover have "pair_ok (?la\<lparr>out := w\<rparr>) ?lb" "pair_ok ?lb (?la\<lparr>out := w\<rparr>)"
    using la lb 7 by (simp_all add: pair_ok_def flow_ok_def)
  ultimately have "link_ok t s7 a (?la\<lparr>out := w\<rparr>)" "link_ok t s7 b ?lb"
    using links7 ehs7 5(6) 6(6) new brk7 la(1) lb(1) by (simp_all add: link_ok_def)
  moreover have "sched_ok s7"
    using inv fds 6(8,9) 7(3) by (auto simp: linv_def sched_ok_def same_loop_def)
  ultimately have "linv os t s7"
    using new brk7 by (intro linv_add_pair [OF inv 7(2) links7 ehs7]) simp_all
  moreover have "dom (interest (hist s7)) = {c, d} \<union> dom (interest (hist s))"
    using 6(9) 7(3) by (auto simp: same_loop_def)
  then have "\<exists>la lb. links s7 = (links s)(a \<mapsto> la, b \<mapsto> lb) \<and> is_client la \<and>
      readable la \<and> writable la \<and> readable lb \<and> writable lb \<and>
      dom (interest (hist s7)) = {c, d} \<union> dom (interest (hist s))"
    using links7 la lb by (intro exI [of _ "?la\<lparr>out := w\<rparr>"] exI [of _ ?lb]) simp
  moreover have "links s6 a = Some ?la" by (rule l6)
  moreover have "sched s7 = sched s" using 6(8) 7(3) by (simp add: same_loop_def)
  ultimately show ?thesis
    using 1(1) 2(1) 3(1) 4(1) 5(1) 6(1) 7(1) by simp
qed

text \<open>\<open>LinkEventHandler::New\<close> on two sockets that are not registered yet.\<close>

lemma LinkEventHandler_New_ok:
  assumes k: "fwd_os_ok os" and opt: "opts_ok os opt" and inv: "linv os t s"
    and f: "c \<ge> 0" "d \<ge> 0" "c \<noteq> d" "c \<notin> dom (interest (hist s))" "d \<notin> dom (interest (hist s))"
      "c \<notin> set (concat (map func_fds (sched s)))" "d \<notin> set (concat (map func_fds (sched s)))"
  shows "\<exists>s'. LinkEventHandler_New os opt c d s = Some s' \<and> linv os t s' \<and> sched s' = sched s \<and>
    ((\<exists>h e. os_pipe os h = Inl e) \<and> links s' = links s \<and> ehs s' = ehs s \<and>
       Close c 0 \<in> set (hist s') \<and> Close d 0 \<in> set (hist s') \<or>
     (\<exists>la lb. links s' = (links s)(brk s \<mapsto> la, Suc (brk s) \<mapsto> lb) \<and> is_client la \<and>
        readable la \<and> writable la \<and> readable lb \<and> writable lb \<and>
        dom (interest (hist s')) = {c, d} \<union> dom (interest (hist s))))"
proof -
  let ?a = "brk s" and ?b = "Suc (brk s)"
  let ?ea = "\<lparr>eh_fd = c, deadline = 0, event_loop = None, ref_count = 0\<rparr>"
  let ?eb = "\<lparr>eh_fd = d, deadline = 0, event_loop = None, ref_count = 0\<rparr>"
  let ?la = "\<lparr>is_client = True, out = new_buffer, readable = True, writable = True, other = None\<rparr>"
  let ?lb = "\<lparr>is_client = False, out = new_buffer, readable = True, writable = True, other = None\<rparr>"
  from linv_evl [OF inv] obtain xs where x: "evl_inv os s xs" by blast
  from new_link_ok [OF x f(1), of True] obtain s1 where
    1: "new_LinkEventHandler c True s = Some (?a, s1)" "evl_inv os s1 xs" "same_loop s s1"
      "links s1 = (links s)(?a \<mapsto> ?la)" "ehs s1 = (ehs s)(?a \<mapsto> ?ea)" "brk s1 = ?b" "ehs s ?a = None" by blast
  from new_link_ok [OF 1(2) f(2), of False] 1(6) obtain s2 where
    2: "new_LinkEventHandler d False s1 = Some (?b, s2)" "evl_inv os s2 xs" "same_loop s1 s2"
      "links s2 = (links s1)(?b \<mapsto> ?lb)" "ehs s2 = (ehs s1)(?b \<mapsto> ?eb)" "brk s2 = Suc ?b" "ehs s1 ?b = None"
    by auto
  let ?n = "server_to_client_buffer_size_bytes opt" and ?m = "client_to_server_buffer_size_bytes opt"
  have n: "0 < ?n" "int ?n < INT_MAX" "?n \<le> os_pipe_max os" "length kResponse \<le> ?n"
    and m: "0 < ?m" "int ?m < INT_MAX" "?m \<le> os_pipe_max os"
    using opt by (auto simp: opts_ok_def kResponse_def)
  have nb: "out ?la = new_buffer" "out ?lb = new_buffer" by simp_all
  have "links s2 ?a = Some ?la" using 1(4) 2(4) by simp
  from link_Init_ok [OF k 2(2) this nb(1) n(1-3)] obtain r b1 s3 where
    3: "link_Init os ?a ?n s2 = Some (r, s3)" "evl_inv os s3 xs" "same_loop s2 s3"
      "links s3 = (links s2)(?a \<mapsto> ?la\<lparr>out := b1\<rparr>)" "ehs s3 = ehs s2" "brk s3 = brk s2"
      "b_size b1 = 0" "k_in b1 = []" "k_src b1 = []"
      "r \<longrightarrow> buffer_ok b1 \<and> b_rd b1 \<ge> 0 \<and> b_wr b1 \<ge> 0 \<and> int ?n \<le> b_capacity b1"
      "\<not> r \<longrightarrow> (\<exists>h e. os_pipe os h = Inl e)"
    by (elim exE conjE) (rule that)
  have sl3: "same_loop s s3" using 1(3) 2(3) 3(3) by (blast intro: same_loop_trans)
  have ne: "ehs s ?b = None" using 1(5) 2(7) by simp
  have l3: "links s3 = (links s)(?a \<mapsto> ?la\<lparr>out := b1\<rparr>, ?b \<mapsto> ?lb)" "ehs s3 = (ehs s)(?a \<mapsto> ?ea, ?b \<mapsto> ?eb)"
    using 1(4,5) 2(4,5) 3(4,5) by (simp_all add: fun_upd_twist)
  note start = LinkEventHandler_New_def 1(1) 2(1) 3(1)
  show ?thesis
  proof (cases r)
    case False
    have "\<exists>s''. do { s \<leftarrow> abandon os ?a s3; abandon os ?b s } = Some s'' \<and> linv os t s'' \<and>
        links s'' = links s \<and> ehs s'' = ehs s \<and> Close (eh_fd ?ea) 0 \<in> set (hist s'') \<and>
        Close (eh_fd ?eb) 0 \<in> set (hist s'') \<and> sched s'' = sched s"
      by (rule abandon_both [OF k inv 3(2) sl3 l3]) (use 1(7) ne 2(6) 3(6) in simp_all)
    with False 3(11) show ?thesis by (simp add: start) blast
  next
    case True
    have "links s3 ?b = Some ?lb" using l3 by simp
    from link_Init_ok [OF k 3(2) this nb(2) m] obtain r' b2 s4 where
      4: "link_Init os ?b ?m s3 = Some (r', s4)" "evl_inv os s4 xs" "same_loop s3 s4"
        "links s4 = (links s3)(?b \<mapsto> ?lb\<lparr>out := b2\<rparr>)" "ehs s4 = ehs s3" "brk s4 = brk s3"
        "k_in b2 = []" "k_src b2 = []" "r' \<longrightarrow> buffer_ok b2 \<and> b_rd b2 \<ge> 0 \<and> b_wr b2 \<ge> 0"
        "\<not> r' \<longrightarrow> (\<exists>h e. os_pipe os h = Inl e)"
      by (elim exE conjE) (rule that, assumption+, simp, assumption)
    have sl4: "same_loop s s4" using sl3 4(3) by (blast intro: same_loop_trans)
    have l4: "links s4 = (links s)(?a \<mapsto> ?la\<lparr>out := b1\<rparr>, ?b \<mapsto> ?lb\<lparr>out := b2\<rparr>)"
      "ehs s4 = (ehs s)(?a \<mapsto> ?ea, ?b \<mapsto> ?eb)"
      using l3 4(4,5) by simp_all
    show ?thesis
    proof (cases r')
      case False
      have "\<exists>s''. do { s \<leftarrow> abandon os ?a s4; abandon os ?b s } = Some s'' \<and> linv os t s'' \<and>
        links s'' = links s \<and> ehs s'' = ehs s \<and> Close (eh_fd ?ea) 0 \<in> set (hist s'') \<and>
        Close (eh_fd ?eb) 0 \<in> set (hist s'') \<and> sched s'' = sched s"
        by (rule abandon_both [OF k inv 4(2) sl4 l4]) (use 1(7) ne 2(6) 3(6) 4(6) in simp_all)
      with False True 4(10) show ?thesis by (simp add: start 4(1)) blast
    next
      case r': True
      note go = connect_both [OF k inv 4(2) sl4 l4 _ _ _ _ _ f(3-7)]
      have "brk s4 = Suc ?b" using 2(6) 3(6) 4(6) by simp
      then show ?thesis
        using go True r' 3(7-10) 4(7-9) n(4) by (simp add: start 4(1)) blast
    qed
  qed
qed

section \<open>The forwarder under the event loop\<close>

definition fwd_env :: "os \<Rightarrow> (history \<Rightarrow> nat) \<Rightarrow> fwd_options \<Rightarrow> bool" where
  "fwd_env os mu opt \<longleftrightarrow> fwd_os_ok os \<and> bounded_supply os mu \<and> opts_ok os opt"

lemma linv_pop:
  assumes "linv os t s" and "sched s = f # fs"
  shows "linv os t (s\<lparr>sched := fs\<rparr>)"
  using assms by (simp add: linv_def link_ok_def sched_ok_def evl_inv_def on_loop_thread_def)

lemma fwd_run_ok:
  assumes env: "fwd_env os mu opt" and inv: "linv os t s" and f: "sched s = f # fs"
  shows "\<exists>s'. fwd_run os opt f (s\<lparr>sched := fs\<rparr>) = Some s' \<and> linv os t s' \<and> sched s' = fs"
proof (cases f)
  case (NewLink c d)
  with inv f have "sched_ok s" by (simp add: linv_def)
  with NewLink f LinkEventHandler_New_ok [OF _ _ linv_pop [OF inv f], of opt c d] env show ?thesis
    by (auto simp: fwd_env_def sched_ok_def)
qed

interpretation fwd: event_handlers os "Link_OnEvent os lf" "Link_OnTimeout os" "Link_dtor os"
  "fwd_run os opt" "\<lambda>t s. fwd_env os mu opt \<and> linv os t s"
  for os lf opt mu
proof (unfold_locales, goal_cases)
  case (1 t s)
  then show ?case using linv_evl by blast
next
  case (2 t s now)
  then show ?case
    using linv_log [of os t s "Clock_now now" "events_size s"] by (auto simp: fwd_env_def fwd_os_ok_def)
next
  case (3 t s n ms r k)
  then show ?case
    using linv_log [of os t s "Epoll_wait n ms r" k] by (auto simp: fwd_env_def fwd_os_ok_def)
next
  case (4 t s a)
  then show ?case using linv_held by blast
next
  case (5 t s a e)
  then show ?case using linv_IncRef by blast
next
  case (6 t s a)
  then show ?case using linv_DecRef [of os t s a] by (auto simp: fwd_env_def)
next
  case (7 t s a ev)
  then show ?case using Link_OnEvent_ok [of os mu t s a lf ev] by (auto simp: fwd_env_def)
next
  case (8 t s a)
  then show ?case using Link_OnTimeout_ok [of os t s a] by (auto simp: fwd_env_def)
next
  case (9 t s f fs)
  then show ?case using fwd_run_ok [of os mu opt t s f fs] by auto
qed

end
