(* ===== verification/Demo_Kernel.thy ===== *)
theory Demo_Kernel
  imports Posix_Env
begin

text \<open>
  One concrete kernel that satisfies all hypotheses of \<open>Posix_Env\<close>, used to show that they can
  hold together.  Time passes with every call.  The wake-up pipe is the pair \<open>(3, 4)\<close>; the first
  wait reports it and every later one reports descriptor \<open>5\<close>, if they are registered.  The peer
  behind the first socket that is read sends two bytes, all peers take what they are sent.
\<close>

definition supplied :: "history \<Rightarrow> bool" where
  "supplied h \<longleftrightarrow> list_ex (\<lambda>e. case e of Splice_in f p n r \<Rightarrow> (case r of Inr bs \<Rightarrow> bs \<noteq> [] | Inl _ \<Rightarrow> False)
                                | _ \<Rightarrow> False) h"

definition waited :: "history \<Rightarrow> bool" where
  "waited h \<longleftrightarrow> list_ex is_wait h"

fun pipe_size :: "history \<Rightarrow> int" where
  "pipe_size (Fcntl_setpipe_sz f n c # h) = c"
| "pipe_size (e # h) = pipe_size h"
| "pipe_size [] = 65536"

definition report :: "history \<Rightarrow> fd \<Rightarrow> nat \<Rightarrow> (epoll_events \<times> ptr) list" where
  "report h f n = (if n = 0 then [] else
     case interest h f of Some (ev, p) \<Rightarrow> [(EPOLLIN OR EPOLLOUT, p)] | None \<Rightarrow> [])"

definition demo_os :: os where
  "demo_os = \<lparr>
     os_clock = (\<lambda>h. int (length h)),
     os_epoll_create = (\<lambda>h. Inr 2),
     os_epoll_ctl = (\<lambda>h op f. if (op = CTL_ADD) = (interest h f = None) then 0 else 2),
     os_epoll_wait = (\<lambda>h n ms. Inr (report h (if waited h then 5 else 3) n)),
     os_pipe2 = (\<lambda>h. Inr (3, 4)),
     os_pipe = (\<lambda>h. Inr (100 + 2 * int (length h), 101 + 2 * int (length h))),
     os_getfl = (\<lambda>h f. 0),
     os_setfl = (\<lambda>h f fl. 0),
     os_setpipe_sz = (\<lambda>h f n. int n),
     os_getpipe_sz = (\<lambda>h f. pipe_size h),
     os_pipe_max = 1048576,
     os_read = (\<lambda>h f n. Inl EAGAIN),
     os_getsockopt = (\<lambda>h f. Inr (0, 4)),
     os_write = (\<lambda>h f data. Inr (length data)),
     os_write_probe = (\<lambda>h f. 0),
     os_splice_in = (\<lambda>h f n. if supplied h \<or> n = 0 then Inl EAGAIN else Inr (take n ''hi'')),
     os_splice_out = (\<lambda>h f data. if data = [] then Inl (EAGAIN, data) else Inr (length data)),
     os_ioctl = (\<lambda>h f. 0),
     os_close = (\<lambda>h f. 0),
     os_shutdown = (\<lambda>h f how. 0),
     os_socket = (\<lambda>h. Inr 7),
     os_setsockopt = (\<lambda>h f opt. 0),
     os_connect = (\<lambda>h f sa. 0),
     os_accept4 = (\<lambda>h f. Inr (int (length h), 16, 2)),
     os_bind = (\<lambda>h f sa. 0),
     os_listen = (\<lambda>h f n. 0),
     os_getrlimit = (\<lambda>h. Inr (1024, 4096)),
     os_setrlimit = (\<lambda>h l. 0),
     std_capacity = (\<lambda>old n. n)\<rparr>"

definition demo_mu :: "history \<Rightarrow> nat" where
  "demo_mu h = (if supplied h then 0 else 2)"

lemma demo_pipe_max: "os_pipe_max demo_os = 1048576"
  by (simp add: demo_os_def)

lemma demo_epoll_ctl: "epoll_ctl_ok demo_os"
  by (auto simp: epoll_ctl_ok_def demo_os_def)

lemma demo_clock: "clock_mono demo_os"
  by (simp add: clock_mono_def demo_os_def)

lemma demo_close: "close_ok demo_os"
  by (simp add: close_ok_def demo_os_def)

lemma report_ok:
  "\<exists>fes. distinct (map fst fes) \<and> length fes \<le> n \<and> fst ` set fes \<subseteq> dom (interest h) \<and>
     report h f n = map (\<lambda>(f, ev). (ev, snd (the (interest h f)))) fes"
proof (cases "n = 0 \<or> interest h f = None")
  case True
  then show ?thesis by (intro exI [of _ "[]"]) (auto simp: report_def)
next
  case False
  then show ?thesis
    by (intro exI [of _ "[(f, EPOLLIN OR EPOLLOUT)]"]) (auto simp: report_def split: option.splits)
qed

lemma demo_epoll_wait: "epoll_wait_ok demo_os"
  using report_ok by (simp add: epoll_wait_ok_def demo_os_def)

lemma demo_splice: "splice_ok demo_os"
  by (auto simp: splice_ok_def demo_os_def split: if_splits)

lemma demo_pipe: "pipe_ok demo_os"
  by (simp add: pipe_ok_def demo_os_def Let_def)

lemma demo_sock: "sock_ok demo_os"
  by (simp add: sock_ok_def demo_os_def)

lemma demo_new_socket: "new_socket_ok demo_os"
  by (simp add: new_socket_ok_def demo_os_def)

lemma demo_read: "read_ok demo_os"
  by (simp add: read_ok_def demo_os_def)

lemma demo_supply: "bounded_supply demo_os demo_mu"
  unfolding bounded_supply_def
proof (intro conjI allI impI)
  fix h f p n bs assume "os_splice_in demo_os h f n = Inr bs"
  then have "\<not> supplied h" "bs = take n ''hi''" "n \<noteq> 0" by (auto simp: demo_os_def split: if_splits)
  then show "demo_mu (Splice_in f p n (Inr bs) # h) + length bs \<le> demo_mu h"
    by (simp add: demo_mu_def supplied_def)
next
  fix h e show "demo_mu (e # h) \<le> demo_mu h"
    by (auto simp: demo_mu_def supplied_def)
qed

end
