(* ===== verification/Forwarder_Correct.thy ===== *)
theory Forwarder_Correct
  imports Forwarder_Loop Demo_Kernel
begin

text \<open>
  What the forwarder guarantees from the moment it is constructed: its runs, the properties of
  all states they reach, and the contract of its single operations.
\<close>

section \<open>Runs\<close>

text \<open>
  A run of the forwarder's event loop: passes of the loop, between which other threads call
  \<open>Forward\<close> with two open sockets that this loop does not have yet.
\<close>

definition schedule_link :: "fd \<Rightarrow> fd \<Rightarrow> fwd \<Rightarrow> fwd" where
  "schedule_link c d s = s\<lparr>sched := sched s @ [NewLink c d]\<rparr>"

definition fwd_fds :: "fwd \<Rightarrow> fd set" where
  "fwd_fds s = dom (interest (hist s)) \<union> set (concat (map func_fds (sched s)))"

definition fwd_pass :: "os \<Rightarrow> bool \<Rightarrow> fwd_options \<Rightarrow> fwd \<Rightarrow> fwd option" where
  "fwd_pass os lf opt =
     Loop_body os (Link_OnEvent os lf) (Link_OnTimeout os) (Link_dtor os) (fwd_run os opt)"

inductive fwd_reach :: "os \<Rightarrow> bool \<Rightarrow> fwd_options \<Rightarrow> fwd \<Rightarrow> fwd \<Rightarrow> bool"
  for os :: os and lf :: bool and opt :: fwd_options and s0 :: fwd where
  start: "fwd_reach os lf opt s0 s0"
| forward: "fwd_reach os lf opt s0 s \<Longrightarrow> c \<noteq> d \<Longrightarrow> {c, d} \<inter> fwd_fds s = {} \<Longrightarrow> tid \<noteq> loop_tid s \<Longrightarrow>
    Forwarder_Forward os opt c d (s\<lparr>cur_tid := tid\<rparr>) = Some s' \<Longrightarrow> fwd_reach os lf opt s0 (s'\<lparr>cur_tid := cur_tid s\<rparr>)"
| pass: "fwd_reach os lf opt s0 s \<Longrightarrow> wakeup_ok os s \<Longrightarrow> fwd_pass os lf opt s = Some s' \<Longrightarrow>
    fwd_reach os lf opt s0 s'"

lemma Forwarder_Forward_iff:
  assumes "tid \<noteq> loop_tid s"
  shows "Forwarder_Forward os opt c d (s\<lparr>cur_tid := tid\<rparr>) = Some s' \<longleftrightarrow>
    c \<ge> 0 \<and> d \<ge> 0 \<and> s' = (schedule_link c d s)\<lparr>cur_tid := tid\<rparr>"
  using assms by (auto simp: Forwarder_Forward_def ScheduleOrRun_def EventLoop_Schedule_def on_loop_thread_def schedule_link_def)

lemma schedule_link_tid: "((schedule_link c d s)\<lparr>cur_tid := tid\<rparr>)\<lparr>cur_tid := cur_tid s\<rparr> = schedule_link c d s"
  by (simp add: schedule_link_def)

lemma linv_schedule:
  assumes inv: "linv os t s" and f: "c \<ge> 0" "d \<ge> 0" "c \<noteq> d" "{c, d} \<inter> fwd_fds s = {}"
  shows "linv os t (schedule_link c d s)"
proof -
  have "sched_ok (schedule_link c d s)"
    using inv f by (auto simp: linv_def sched_ok_def schedule_link_def fwd_fds_def)
  with inv show ?thesis
    by (simp add: linv_def schedule_link_def evl_inv_def on_loop_thread_def link_ok_def)
qed

lemma fwd_pass_ok:
  assumes "fwd_env os mu opt" and "epoll_wait_ok os" and "linv os (\<lambda>_. 0) s" and "wakeup_ok os s"
    and "\<not> wait_fails os s"
  shows "\<exists>s'. fwd_pass os lf opt s = Some s' \<and> linv os (\<lambda>_. 0) s' \<and>
    (\<forall>a. registered s' a \<longrightarrow> on_time os s' a)"
  using fwd.Loop_body_ok [OF conjI [OF assms(1,3)] assms(2,4,5), of lf] by (auto simp: fwd_pass_def)

lemma fwd_pass_waits: "fwd_pass os lf opt s = Some s' \<Longrightarrow> \<not> wait_fails os s"
  unfolding fwd_pass_def by (rule Loop_body_waits)

text \<open>A forwarder starts with no handlers, before any system call.\<close>

definition blank_fwd :: fwd where
  "blank_fwd = \<lparr>hist = [], total_events = 0, events_size = 0, nodes = Map.empty, ehs = Map.empty,
     expire = new_list, timeout = 0, self = 0, sched = [], pipe_rd = - 1, pipe_wr = - 1,
     loop_tid = 1, cur_tid = 1, brk = 0, links = Map.empty\<rparr>"

lemma linv_ctor:
  assumes "Forwarder_ctor os opt blank_fwd = Some s0"
  shows "linv os (\<lambda>_. 0) s0"
proof -
  have "EventLoop_ctor os (read_write_timeout opt) blank_fwd = Some s0"
    using assms by (simp add: Forwarder_ctor_def)
  note c = EventLoop_ctor_inv [OF this]
  have "evl_inv os s0 []" "sched s0 = []" "ehs s0 = Map.empty" "evl.more s0 = evl.more blank_fwd"
    using c by (simp_all add: blank_fwd_def on_loop_thread_def)
  moreover from this(4) have "links s0 = Map.empty" by (cases s0) (simp add: blank_fwd_def)
  ultimately show ?thesis by (auto simp: linv_def sched_ok_def)
qed

definition fwd_running :: "os \<Rightarrow> (history \<Rightarrow> nat) \<Rightarrow> bool \<Rightarrow> fwd_options \<Rightarrow> fwd \<Rightarrow> bool" where
  "fwd_running os mu lf opt s \<longleftrightarrow> fwd_env os mu opt \<and> epoll_wait_ok os \<and>
     (\<exists>s0. Forwarder_ctor os opt blank_fwd = Some s0 \<and> fwd_reach os lf opt s0 s)"

lemma fwd_running_linv:
  assumes "fwd_running os mu lf opt s"
  shows "linv os (\<lambda>_. 0) s"
proof -
  from assms obtain s0 where env: "fwd_env os mu opt" "epoll_wait_ok os"
    and c: "Forwarder_ctor os opt blank_fwd = Some s0" and r: "fwd_reach os lf opt s0 s"
    by (auto simp: fwd_running_def)
  from r show ?thesis
  proof (induction rule: fwd_reach.induct)
    case start
    show ?case by (rule linv_ctor [OF c])
  next
    case (forward s c d tid s')
    from forward.hyps(5) have "c \<ge> 0" "d \<ge> 0" "s' = (schedule_link c d s)\<lparr>cur_tid := tid\<rparr>"
      using Forwarder_Forward_iff [OF forward.hyps(4), of os opt c d s'] by simp_all
    moreover from this forward.hyps(2,3) have "linv os (\<lambda>_. 0) (schedule_link c d s)"
      by (intro linv_schedule [OF forward.IH])
    ultimately show ?case by (simp only: schedule_link_tid)
  next
    case (pass s s')
    from fwd_pass_ok [OF env pass.IH pass.hyps(2) fwd_pass_waits [OF pass.hyps(3)], of lf] pass.hyps(3) show ?case by auto
  qed
qed

lemma fwd_running_envD:
  "fwd_running os mu lf opt s \<Longrightarrow> fwd_env os mu opt"
  "fwd_running os mu lf opt s \<Longrightarrow> epoll_wait_ok os"
  by (simp_all add: fwd_running_def)

lemma linv_flow:
  assumes "linv os t s" and "links s a = Some l"
  shows "flow_ok l"
  by (cases rule: link_okE [OF linv_link [OF assms]]) (simp_all add: pair_ok_def)

section \<open>A concrete run\<close>

definition demo_start :: fwd where
  "demo_start = the (Forwarder_ctor demo_os default_fwd_options blank_fwd)"

lemma demo_ctor: "Forwarder_ctor demo_os default_fwd_options blank_fwd = Some demo_start"
  by (simp add: demo_start_def Forwarder_ctor_def EventLoop_ctor_def EPoll_ctor_def default_fwd_options_def
      sys_epoll_create_def sys_pipe2_def sys_epoll_ctl_def EPoll_Add_def blank_fwd_def Let_def log_event_def demo_os_def)

lemma demo_fwd_env: "fwd_env demo_os demo_mu default_fwd_options"
  by (simp add: fwd_env_def fwd_os_ok_def demo_epoll_ctl demo_clock demo_close demo_splice demo_pipe
      demo_sock demo_supply opts_ok_def default_fwd_options_def demo_pipe_max INT_MAX_def kResponse_def)

lemma demo_start_hist: "\<exists>es. hist demo_start = Epoll_ctl CTL_ADD 3 EPOLLIN None 0 # es \<and>
    (\<forall>e \<in> set es. quiet e)" "sched demo_start = []" "links demo_start = Map.empty" "brk demo_start = 0"
  by (simp_all add: demo_start_def Forwarder_ctor_def EventLoop_ctor_def EPoll_ctor_def default_fwd_options_def
      sys_epoll_create_def sys_pipe2_def sys_epoll_ctl_def EPoll_Add_def blank_fwd_def Let_def log_event_def demo_os_def)

lemma demo_start_interest: "interest (hist demo_start) = [3 \<mapsto> (EPOLLIN, None)]"
proof -
  obtain es where es: "hist demo_start = Epoll_ctl CTL_ADD 3 EPOLLIN None 0 # es" "\<forall>e \<in> set es. quiet e"
    using demo_start_hist(1) by blast
  then show ?thesis using interest_quiet [OF es(2), of "[]"] by simp
qed

text \<open>Two sockets are handed over; the next pass connects them.\<close>

definition demo_scheduled :: fwd where
  "demo_scheduled = schedule_link 5 6 demo_start"

lemma demo_running_start: "fwd_running demo_os demo_mu lf default_fwd_options demo_start"
  using demo_ctor demo_fwd_env demo_epoll_wait by (auto simp: fwd_running_def intro: fwd_reach.start)

lemma demo_running: "fwd_running demo_os demo_mu lf default_fwd_options demo_scheduled"
proof -
  have "fwd_reach demo_os lf default_fwd_options demo_start
      (((schedule_link 5 6 demo_start)\<lparr>cur_tid := loop_tid demo_start + 1\<rparr>)\<lparr>cur_tid := cur_tid demo_start\<rparr>)"
    by (rule fwd_reach.forward [OF fwd_reach.start, where c = 5 and d = 6 and tid = "loop_tid demo_start + 1"])
      (simp_all add: fwd_fds_def demo_start_interest demo_start_hist Forwarder_Forward_iff)
  then have "fwd_reach demo_os lf default_fwd_options demo_start demo_scheduled"
    by (simp only: schedule_link_tid demo_scheduled_def)
  with demo_ctor demo_fwd_env demo_epoll_wait show ?thesis by (auto simp: fwd_running_def)
qed

lemma demo_wakeup: "wakeup_ok demo_os demo_scheduled"
  by (simp add: wakeup_ok_def demo_scheduled_def schedule_link_def)

text \<open>The state in which the two are connected, and handler \<open>0\<close> is about to get an event.\<close>

lemma demo_link:
  "\<exists>s la lb. fwd_run demo_os default_fwd_options (NewLink 5 6) demo_start = Some s \<and>
     linv demo_os (\<lambda>_. 0) s \<and> links s = [0 \<mapsto> la, 1 \<mapsto> lb] \<and> is_client la \<and>
     readable la \<and> writable la \<and> readable lb \<and> writable lb"
proof -
  have k: "fwd_os_ok demo_os" and o: "opts_ok demo_os default_fwd_options"
    using demo_fwd_env by (simp_all add: fwd_env_def)
  have "\<nexists>h e. os_pipe demo_os h = Inl e" by (simp add: demo_os_def)
  with LinkEventHandler_New_ok [OF k o linv_ctor [OF demo_ctor], of 5 6] show ?thesis
    by (auto simp: demo_start_interest demo_start_hist)
qed

lemma demo_start_eq:
  "demo_start = \<lparr>hist = [Epoll_ctl CTL_ADD 3 EPOLLIN None 0, Pipe2 (Inr (3, 4)), Epoll_create (Inr 2)], total_events = 1,
     events_size = 0, nodes = Map.empty, ehs = Map.empty, expire = new_list, timeout = 600000000000,
     self = 0, sched = [], pipe_rd = 3, pipe_wr = 4, loop_tid = 1, cur_tid = 1, brk = 0,
     links = Map.empty\<rparr>"
  by (simp add: demo_start_def Forwarder_ctor_def EventLoop_ctor_def EPoll_ctor_def default_fwd_options_def
      sys_epoll_create_def sys_pipe2_def sys_epoll_ctl_def EPoll_Add_def blank_fwd_def Let_def log_event_def demo_os_def)

lemma demo_pass:
  assumes "d = 6 \<or> d = 9"
  shows "\<exists>s' l. fwd_pass demo_os lf default_fwd_options (schedule_link 5 d demo_start) = Some s' \<and> links s' 0 = Some l \<and>
    is_client l \<and> readable l"
  unfolding fwd_pass_def Loop_body_def schedule_link_def demo_start_eq
  using assms by (elim disjE; simp add: LinkEventHandler_New_def new_LinkEventHandler_def new_EventHandler_def link_Init_def
      Buffer_Init_def new_buffer_def INT_MAX_def upd_link_def IncRef_def EventLoop_Add_def
      on_loop_thread_def upd_eh_def AddTail_def new_node_def new_list_def kResponse_def
      Buffer_Write_def sys_defs EPoll_Add_def default_fwd_options_def Let_def demo_os_def
      EPoll_Wait_def report_def waited_def PopFunc_def expire_loop.simps)

lemma demo_running_linked:
  "\<exists>s l. fwd_running demo_os demo_mu lf default_fwd_options s \<and> links s 0 = Some l \<and> is_client l \<and>
     readable l"
proof -
  from demo_pass [of 6] obtain s l where s: "fwd_pass demo_os lf default_fwd_options demo_scheduled = Some s"
    "links s 0 = Some l" "is_client l" "readable l" unfolding demo_scheduled_def by blast
  from demo_running [of lf] s(1) demo_wakeup have "fwd_running demo_os demo_mu lf default_fwd_options s"
    by (auto simp: fwd_running_def intro: fwd_reach.pass)
  with s show ?thesis by blast
qed

text \<open>A tunnel both ends of which are held, as \<open>OnEvent\<close> holds them.\<close>

definition hold :: "(addr \<Rightarrow> nat) \<Rightarrow> addr \<Rightarrow> addr \<Rightarrow> nat" where
  "hold t a = t(a := Suc (t a))"

lemma linv_hold:
  assumes "linv os t s" and "ehs s a \<noteq> None"
  shows "\<exists>s'. IncRef a s = Some s' \<and> linv os (hold t a) s' \<and> links s' = links s \<and>
    dom (ehs s') = dom (ehs s) \<and> registered s' = registered s"
proof -
  from assms(2) obtain e where e: "ehs s a = Some e" by blast
  obtain xs where "evl_inv os s xs" using linv_evl [OF assms(1)] by blast
  then have "ref_count e \<ge> 0" using evl_inv_eh [of os s xs a e] e by (simp add: eh_ok_def)
  with linv_IncRef [OF assms(1) e] e show ?thesis
    by (auto simp: IncRef_def hold_def registered_def fun_eq_iff)
qed

lemma linv_open_registered:
  assumes inv: "linv os t s" and l: "links s a = Some l" and op: "open_link l"
  shows "registered s a"
proof -
  obtain xs where x: "evl_inv os s xs" using linv_evl [OF inv] by blast
  from linv_link [OF inv l] show ?thesis
  proof (cases rule: link_okE)
    case (peer e o' lo)
    then have "event_loop e \<noteq> None" using op by (simp add: refs_ok_def)
    with evl_inv_eh [OF x peer(1)] peer(1) show ?thesis
      by (auto simp: registered_def eh_ok_def split: if_splits)
  qed (use op in simp)
qed

lemma demo_held:
  "\<exists>s t l. linv demo_os t s \<and> links s 0 = Some l \<and> other l = Some 1 \<and> open_link l \<and> t 0 > 0 \<and> t 1 > 0 \<and>
     registered s 0"
proof -
  from demo_link obtain s la lb where s: "linv demo_os (\<lambda>_. 0) s" "links s = [0 \<mapsto> la, 1 \<mapsto> lb]"
    "readable la" by blast
  have la: "links s 0 = Some la" and op: "open_link la" using s by (auto simp: open_link_def)
  obtain o' lo where t: "tinv demo_os 0 o' 0 0 la lo s" using linv_tinv [OF s(1) la op] by auto
  then have o': "o' = 1" "other la = Some 1" "ehs s 0 \<noteq> None" "ehs s 1 \<noteq> None"
    using rinv_links [of demo_os 0 o' 0 0 la lo s] s(2) by (auto simp: tinv_def split: if_splits)
  from linv_hold [OF s(1) o'(3)] obtain s1 where s1: "linv demo_os (hold (\<lambda>_. 0) 0) s1"
    "links s1 = links s" "dom (ehs s1) = dom (ehs s)" by blast
  with o'(4) have "ehs s1 1 \<noteq> None" by (metis domIff)
  from linv_hold [OF s1(1) this] obtain s2 where s2: "linv demo_os (hold (hold (\<lambda>_. 0) 0) 1) s2"
    "links s2 = links s1" by blast
  have "registered s2 0" using s2 s1 la op by (intro linv_open_registered [OF s2(1)]) simp_all
  with s2 s1 la op o' show ?thesis
    by (intro exI [of _ s2] exI [of _ "hold (hold (\<lambda>_. 0) 0) 1"] exI [of _ la]) (simp add: hold_def)
qed

section \<open>Properties\<close>

text \<open>
  C1: The forwarder aborts in one case only and never hangs.  In every state a run reaches, the next pass of
  the event loop (waiting, running the scheduled function, dispatching all events, expiring
  handlers) returns, unless its call of \<open>epoll_wait\<close> fails, as it does when a signal interrupts it (\<open>EINTR\<close>), which
  the code answers by aborting.  Otherwise no \<open>CHECK\<close> fails, no freed handler or link is touched and every loop
  ends; afterwards no registered handler is past its deadline.  The kernel is assumed to behave as \<open>fwd_env\<close> and \<open>epoll_wait_ok\<close> say
  (\<open>Posix_Env\<close>); in particular the peers supply finitely many bytes between two waits.
\<close>

theorem forwarder_pass_returns:
  assumes "fwd_running os mu lf opt s" and "wakeup_ok os s"
  shows "(fwd_pass os lf opt s = None \<longleftrightarrow> wait_fails os s) \<and>
    (\<forall>s'. fwd_pass os lf opt s = Some s' \<longrightarrow> fwd_running os mu lf opt s' \<and> (\<forall>a. registered s' a \<longrightarrow> on_time os s' a))"
proof (cases "wait_fails os s")
  case True
  then show ?thesis by (simp add: fwd_pass_def Loop_body_waits(2))
next
  case False
  from fwd_pass_ok [OF fwd_running_envD [OF assms(1)] fwd_running_linv [OF assms(1)] assms(2) False, of lf]
  obtain s' where "fwd_pass os lf opt s = Some s'" "\<forall>a. registered s' a \<longrightarrow> on_time os s' a" by blast
  with False assms show ?thesis by (auto simp: fwd_running_def intro: fwd_reach.pass)
qed

theorem forwarder_pass_returns_witness:
  "\<exists>s'. fwd_pass demo_os True default_fwd_options demo_scheduled = Some s'"
proof -
  have "\<not> wait_fails demo_os demo_scheduled" by (simp add: wait_fails_def demo_os_def)
  with forwarder_pass_returns [OF demo_running demo_wakeup, of True] show ?thesis by auto
qed

text \<open>
  C3: No link leaks and none is freed early.  Between passes, every link on the heap belongs to a
  tunnel with an end that is registered in the event loop, and its other end is on the heap.
\<close>

theorem forwarder_no_leak:
  assumes "fwd_running os mu lf opt s" and "links s a = Some l"
  shows "\<exists>o' lo. other l = Some o' \<and> links s o' = Some lo \<and> other lo = Some a \<and>
    (registered s a \<or> registered s o')"
proof -
  note inv = fwd_running_linv [OF assms(1)]
  from linv_link [OF inv assms(2)] show ?thesis
  proof (cases rule: link_okE)
    case (peer e o' lo)
    have "open_link l \<or> open_link lo" using peer(2,10) by (auto simp: refs_ok_def)
    then have "registered s a \<or> registered s o'"
      using linv_open_registered [OF inv] assms(2) peer(6) by blast
    with peer show ?thesis by blast
  qed simp
qed

theorem forwarder_no_leak_witness:
  "\<exists>s l. fwd_running demo_os demo_mu True default_fwd_options s \<and> links s 0 = Some l \<and>
     (\<exists>o' lo. other l = Some o' \<and> links s o' = Some lo \<and> other lo = Some 0 \<and>
        (registered s 0 \<or> registered s o'))"
proof -
  from demo_running_linked obtain s l where s: "fwd_running demo_os demo_mu True default_fwd_options s"
    "links s 0 = Some l" by blast
  with forwarder_no_leak [OF s] show ?thesis by blast
qed

text \<open>
  C4: \<open>ForwardFromOther\<close> returns, and leaves nothing behind that an edge-triggered registration
  would not report again.  Called on a link whose tunnel is held, it keeps the invariant, and
  either breaks the tunnel and returns false, or returns when the source would block or the pipe
  is full, and the destination would block or the pipe is empty.
\<close>

theorem ForwardFromOther_drains:
  assumes "fwd_env os mu opt" and "linv os t s" and "links s a = Some l" and "other l = Some o'"
    and "open_link l" and "t a > 0" and "t o' > 0"
  shows "\<exists>r s' l' lo'. ForwardFromOther os a False s = Some (r, s') \<and> linv os t s' \<and>
    links s' a = Some l' \<and> links s' o' = Some lo' \<and>
    (\<not> r \<and> \<not> open_link l' \<and> \<not> open_link lo' \<or>
     (\<exists>es. hist s' = es @ hist s \<and> drained l' lo' (fd_of (ehs s) a) (fd_of (ehs s) o') es))"
proof -
  have k: "fwd_os_ok os" and mu: "bounded_supply os mu" using assms(1) by (auto simp: fwd_env_def)
  obtain lo where t: "tinv os a o' (t a) (t o') l lo s"
    using linv_tinv [OF assms(2,3,5)] assms(4) rinv_links(3) by (fastforce simp: tinv_def)
  from ForwardFromOther_ok [OF k mu assms(6,7) t, of False] obtain r s' l' lo' where
    f: "ForwardFromOther os a False s = Some (r, s')" "tinv os a o' (t a) (t o') l' lo' s'" "tframe a o' s s'"
      "\<not> r \<and> \<not> open_link l' \<and> \<not> open_link lo' \<or>
       (\<exists>es. hist s' = es @ hist s \<and> drained l' lo' (fd_of (ehs s) a) (fd_of (ehs s) o') es)" by blast
  have "linv os (t(a := t a, o' := t o')) s'" by (rule tinv_linv [OF assms(2) t f(2) assms(6,7) f(3)])
  then have "linv os t s'" by simp
  with f show ?thesis using rinv_links(1,2) by (fastforce simp: tinv_def)
qed

theorem ForwardFromOther_drains_witness:
  "\<exists>s r s'. ForwardFromOther demo_os 0 False s = Some (r, s')"
proof -
  from demo_held obtain s t l where "linv demo_os t s" "links s 0 = Some l" "other l = Some 1"
    "open_link l" "t 0 > 0" "t 1 > 0" by blast
  from ForwardFromOther_drains [OF demo_fwd_env this] show ?thesis by blast
qed

text \<open>
  C5: \<open>LinkEventHandler::New\<close> takes responsibility for both sockets: it connects and registers
  them, or, only when a pipe cannot be created, closes both and leaves no handler behind.
\<close>

theorem New_connects_or_closes:
  assumes "fwd_os_ok os" and "opts_ok os opt" and "linv os t s" and "c \<ge> 0" and "d \<ge> 0" and "c \<noteq> d"
    and "c \<notin> fwd_fds s" and "d \<notin> fwd_fds s"
  shows "\<exists>s'. LinkEventHandler_New os opt c d s = Some s' \<and> linv os t s' \<and>
    ((\<exists>h e. os_pipe os h = Inl e) \<and> links s' = links s \<and> ehs s' = ehs s \<and>
       Close c 0 \<in> set (hist s') \<and> Close d 0 \<in> set (hist s') \<or>
     (\<exists>la lb. links s' = (links s)(brk s \<mapsto> la, Suc (brk s) \<mapsto> lb) \<and> is_client la \<and>
        readable la \<and> writable la \<and> readable lb \<and> writable lb \<and>
        dom (interest (hist s')) = {c, d} \<union> dom (interest (hist s))))"
proof -
  have "c \<notin> dom (interest (hist s))" "d \<notin> dom (interest (hist s))"
    "c \<notin> set (concat (map func_fds (sched s)))" "d \<notin> set (concat (map func_fds (sched s)))"
    using assms(7,8) by (simp_all add: fwd_fds_def)
  from LinkEventHandler_New_ok [OF assms(1-6) this] show ?thesis by blast
qed

theorem New_connects_or_closes_witness:
  "\<exists>s' la lb. LinkEventHandler_New demo_os default_fwd_options 5 6 demo_start = Some s' \<and>
     links s' = [0 \<mapsto> la, 1 \<mapsto> lb]"
proof -
  have k: "fwd_os_ok demo_os" and o: "opts_ok demo_os default_fwd_options"
    using demo_fwd_env by (simp_all add: fwd_env_def)
  have "\<nexists>h e. os_pipe demo_os h = Inl e" by (simp add: demo_os_def)
  with New_connects_or_closes [OF k o linv_ctor [OF demo_ctor], of 5 6] show ?thesis
    by (auto simp: demo_start_interest demo_start_hist fwd_fds_def)
qed

text \<open>
  C6: \<open>ReadTo\<close> signals the end of the stream, which makes the link shut its socket down for
  writing, only when the source has been closed and every byte that entered the pipe has been
  sent; and what it sends is always the next part of the pipe's content.
\<close>

theorem ReadTo_eof_after_last_byte:
  assumes "buffer_ok b" and "b_rd b \<ge> 0" and "splice_ok os" and "close_ok os" and "pipe_ok os"
  shows "\<exists>st b' s'. ReadTo os f b s = Some (st, b', s') \<and> buffer_ok b' \<and> k_in b' = k_in b \<and>
    (\<exists>bs. k_out b' = k_out b @ bs \<and> b_size b' = b_size b - int (length bs) \<and> (st = kData \<longleftrightarrow> bs \<noteq> [])) \<and>
    (st = kEof \<longrightarrow> b_wr b < 0 \<and> k_out b' = k_in b') \<and> (st = kNoOp \<longrightarrow> b' = b)"
  using ReadTo_spec [OF assms, of f s] by blast

definition demo_buffer :: buffer where
  "demo_buffer = \<lparr>b_capacity = 8, b_size = 2, b_rd = 10, b_wr = - 1, k_data = ''hi'', k_src = ''hi'',
     k_in = ''hi'', k_out = []\<rparr>"

theorem ReadTo_eof_after_last_byte_witness:
  "\<exists>st b' s'. ReadTo demo_os 5 demo_buffer \<lparr>hist = []\<rparr> = Some (st, b', s') \<and> buffer_ok b'"
proof -
  have b: "buffer_ok demo_buffer" "b_rd demo_buffer \<ge> 0" by (simp_all add: buffer_ok_def demo_buffer_def)
  from ReadTo_eof_after_last_byte [OF b demo_splice demo_close demo_pipe, of 5 "\<lparr>hist = []\<rparr>"]
  show ?thesis by blast
qed

end
