(* ===== verification/Forwarder_Trace.thy ===== *)
theory Forwarder_Trace
  imports Forwarder_Correct
begin

text \<open>
  What the history of system calls says about the bytes of the forwarder: which bytes have been spliced from and to the
  socket of each handler.  The buffers' history variables will be shown to agree with it.
\<close>

section \<open>Bytes of a socket\<close>

text \<open>The handler that a descriptor has last been added to the interest list with.\<close>

primrec owner :: "history \<Rightarrow> fd \<Rightarrow> ptr" where
  "owner [] = (\<lambda>f. None)"
| "owner (e # h) = (case e of
       Epoll_ctl op f ev p r \<Rightarrow> if op = CTL_ADD \<and> r = 0 then (owner h)(f := p) else owner h
     | _ \<Rightarrow> owner h)"

text \<open>The bytes spliced from, and to, socket \<open>f\<close> since it was added for handler \<open>a\<close> and before it is added for another one.\<close>

primrec received :: "fd \<Rightarrow> addr \<Rightarrow> history \<Rightarrow> string" where
  "received f a [] = []"
| "received f a (e # h) = received f a h @ (case e of
       Splice_in g p n (Inr bs) \<Rightarrow> if g = f \<and> owner h f = Some a then bs else []
     | _ \<Rightarrow> [])"

primrec sent :: "fd \<Rightarrow> addr \<Rightarrow> history \<Rightarrow> string" where
  "sent f a [] = []"
| "sent f a (e # h) = sent f a h @ (case e of
       Splice_out p g n (Inr bs) \<Rightarrow> if g = f \<and> owner h f = Some a then bs else []
     | _ \<Rightarrow> [])"

definition same_trace :: "history \<Rightarrow> history \<Rightarrow> bool" where
  "same_trace h h' \<longleftrightarrow> owner h' = owner h \<and> (\<forall>f a. received f a h' = received f a h \<and> sent f a h' = sent f a h)"

lemma same_trace_refl [simp]: "same_trace h h"
  by (simp add: same_trace_def)

lemma same_trace_trans: "same_trace h h' \<Longrightarrow> same_trace h' h'' \<Longrightarrow> same_trace h h''"
  by (simp add: same_trace_def)

text \<open>All other system calls leave this as it is.\<close>

lemma same_trace_simps [simp]:
  "same_trace h (Close f r # h)" "same_trace h (Splice_in f p n (Inl e) # h)" "same_trace h (Splice_out p f n (Inl e) # h)"
  "same_trace h (Write_probe f r # h)" "same_trace h (Ioctl_fionread p q # h)" "same_trace h (Clock_now t # h)"
  "same_trace h (Epoll_wait n ms w # h)" "same_trace h (Shutdown f how r # h)" "same_trace h (Getsockopt f g # h)"
  "same_trace h (Pipe pp # h)" "same_trace h (Fcntl_setpipe_sz f n c # h)" "same_trace h (Fcntl_getpipe_sz f c # h)"
  "same_trace h (Write f d k # h)" "same_trace h (Epoll_ctl CTL_MOD f ev a r # h)" "same_trace h (Epoll_ctl CTL_DEL f ev a r # h)"
  "same_trace h (Splice_in f p n (Inr []) # h)"
  by (simp_all add: same_trace_def)

section \<open>Splicing\<close>

lemma close_result: "close_checked os f s = Some s' \<Longrightarrow> s' = log_event (Close f 0) s"
  by (auto simp: close_checked_def sys_close_def Let_def split: if_splits)

lemma WriteFrom_trace:
  assumes "WriteFrom os f b s = Some (st, b', s')"
  shows "world.more s' = world.more s" and "owner (hist s') = owner (hist s)" and "sent g x (hist s') = sent g x (hist s)"
    and "k_out b' = k_out b" and "\<exists>bs. k_src b' = k_src b @ bs \<and>
      (\<forall>g x. received g x (hist s') = received g x (hist s) @ (if g = f \<and> owner (hist s) f = Some x then bs else []))"
proof -
  have "world.more s' = world.more s \<and> owner (hist s') = owner (hist s) \<and> (\<forall>g x. sent g x (hist s') = sent g x (hist s)) \<and>
      k_out b' = k_out b \<and> (\<exists>bs. k_src b' = k_src b @ bs \<and>
      (\<forall>g x. received g x (hist s') = received g x (hist s) @ (if g = f \<and> owner (hist s) f = Some x then bs else [])))"
  proof (cases "b_size b = b_capacity b")
    case True
    with assms show ?thesis by (auto simp: WriteFrom_def split: if_splits)
  next
    case False
    let ?n = "nat (b_capacity b - b_size b)"
    show ?thesis
    proof (cases "os_splice_in os (hist s) f ?n")
      case (Inl e)
      with assms False show ?thesis
        by (auto simp: WriteFrom_def sys_splice_in_def log_event_def Let_def same_trace_def
            dest!: close_result split: bind_splits if_splits)
    next
      case (Inr bs)
      with assms False show ?thesis
        by (cases "bs = []") (auto simp: WriteFrom_def sys_splice_in_def log_event_def Let_def same_trace_def
            dest!: close_result split: bind_splits if_splits)
    qed
  qed
  then show "world.more s' = world.more s" "owner (hist s') = owner (hist s)" "sent g x (hist s') = sent g x (hist s)"
    "k_out b' = k_out b" "\<exists>bs. k_src b' = k_src b @ bs \<and>
      (\<forall>g x. received g x (hist s') = received g x (hist s) @ (if g = f \<and> owner (hist s) f = Some x then bs else []))"
    by blast+
qed

lemma ReadTo_trace:
  assumes "ReadTo os f b s = Some (st, b', s')"
  shows "world.more s' = world.more s" and "owner (hist s') = owner (hist s)" and "received g x (hist s') = received g x (hist s)"
    and "k_src b' = k_src b" and "\<exists>bs. k_out b' = k_out b @ bs \<and>
      (\<forall>g x. sent g x (hist s') = sent g x (hist s) @ (if g = f \<and> owner (hist s) f = Some x then bs else []))"
proof -
  have "world.more s' = world.more s \<and> owner (hist s') = owner (hist s) \<and> (\<forall>g x. received g x (hist s') = received g x (hist s)) \<and>
      k_src b' = k_src b \<and> (\<exists>bs. k_out b' = k_out b @ bs \<and>
      (\<forall>g x. sent g x (hist s') = sent g x (hist s) @ (if g = f \<and> owner (hist s) f = Some x then bs else [])))"
  proof (cases "b_size b = 0")
    case True
    with assms show ?thesis by (auto simp: ReadTo_def log_event_def dest!: close_result split: bind_splits if_splits)
  next
    case False
    let ?h = "Write_probe f (os_write_probe os (hist s) f) # hist s"
    show ?thesis
    proof (cases "os_splice_out os ?h f (take (nat (b_size b)) (k_data b))")
      case (Inl x)
      with assms False show ?thesis
        by (cases x) (auto simp: ReadTo_def sys_splice_out_def sys_write_probe_def sys_fionread_def log_event_def Let_def
            same_trace_def dest!: close_result split: bind_splits if_splits)
    next
      case (Inr n)
      with assms False show ?thesis
        by (auto simp: ReadTo_def sys_splice_out_def sys_write_probe_def log_event_def Let_def split: bind_splits if_splits)
    qed
  qed
  then show "world.more s' = world.more s" "owner (hist s') = owner (hist s)" "received g x (hist s') = received g x (hist s)"
    "k_src b' = k_src b" "\<exists>bs. k_out b' = k_out b @ bs \<and>
      (\<forall>g x. sent g x (hist s') = sent g x (hist s) @ (if g = f \<and> owner (hist s) f = Some x then bs else []))"
    by blast+
qed

end
