(* ===== verification/Forwarder_Kept.thy ===== *)
theory Forwarder_Kept
  imports Forwarder_Trace
begin

text \<open>
  What no operation on links changes: the socket and the other end of a link, and that the history variables of the
  buffers are the bytes that the history says have been received and sent.
\<close>

section \<open>The history variables are true\<close>

text \<open>
  \<open>A\<close> are the links being made, whose sockets have not been added to the interest list yet.  The sockets of the other open
  links are their own; each buffer has sent what has been spliced to the socket of its link and received what has been
  spliced from the socket of the other end; nobody has two other ends; and nothing has happened yet to links that are not there
  yet.
\<close>

definition traced :: "addr set \<Rightarrow> fwd \<Rightarrow> bool" where
  "traced A s \<longleftrightarrow>
     (\<forall>x l e. links s x = Some l \<longrightarrow> ehs s x = Some e \<longrightarrow> x \<notin> A \<longrightarrow> open_link l \<longrightarrow> owner (hist s) (eh_fd e) = Some x) \<and>
     (\<forall>x l e. links s x = Some l \<longrightarrow> ehs s x = Some e \<longrightarrow> k_out (out l) = sent (eh_fd e) x (hist s)) \<and>
     (\<forall>x l y f. links s x = Some l \<longrightarrow> other l = Some y \<longrightarrow> ehs s y = Some f \<longrightarrow> k_src (out l) = received (eh_fd f) y (hist s)) \<and>
     (\<forall>x l. links s x = Some l \<longrightarrow> other l = None \<longrightarrow> k_src (out l) = []) \<and>
     (\<forall>x x' l l' y. links s x = Some l \<longrightarrow> links s x' = Some l' \<longrightarrow> other l = Some y \<longrightarrow> other l' = Some y \<longrightarrow> x = x') \<and>
     (\<forall>x f. x \<in> A \<or> brk s \<le> x \<longrightarrow> owner (hist s) f \<noteq> Some x \<and> received f x (hist s) = [] \<and> sent f x (hist s) = [])"

lemma tracedD:
  assumes "traced A s"
  shows "links s x = Some l \<Longrightarrow> ehs s x = Some e \<Longrightarrow> x \<notin> A \<Longrightarrow> open_link l \<Longrightarrow> owner (hist s) (eh_fd e) = Some x"
    "links s x = Some l \<Longrightarrow> ehs s x = Some e \<Longrightarrow> k_out (out l) = sent (eh_fd e) x (hist s)"
    "links s x = Some l \<Longrightarrow> other l = Some y \<Longrightarrow> ehs s y = Some f \<Longrightarrow> k_src (out l) = received (eh_fd f) y (hist s)"
    "links s x = Some l \<Longrightarrow> other l = None \<Longrightarrow> k_src (out l) = []"
    "links s x = Some l \<Longrightarrow> links s x' = Some l' \<Longrightarrow> other l = Some y \<Longrightarrow> other l' = Some y \<Longrightarrow> x = x'"
    "x \<in> A \<or> brk s \<le> x \<Longrightarrow> owner (hist s) g \<noteq> Some x \<and> received g x (hist s) = [] \<and> sent g x (hist s) = []"
  using assms unfolding traced_def by blast+

lemma tracedI:
  assumes "\<And>x l e. links s x = Some l \<Longrightarrow> ehs s x = Some e \<Longrightarrow> x \<notin> A \<Longrightarrow> open_link l \<Longrightarrow> owner (hist s) (eh_fd e) = Some x"
    and "\<And>x l e. links s x = Some l \<Longrightarrow> ehs s x = Some e \<Longrightarrow> k_out (out l) = sent (eh_fd e) x (hist s)"
    and "\<And>x l y f. links s x = Some l \<Longrightarrow> other l = Some y \<Longrightarrow> ehs s y = Some f \<Longrightarrow> k_src (out l) = received (eh_fd f) y (hist s)"
    and "\<And>x l. links s x = Some l \<Longrightarrow> other l = None \<Longrightarrow> k_src (out l) = []"
    and "\<And>x x' l l' y. links s x = Some l \<Longrightarrow> links s x' = Some l' \<Longrightarrow> other l = Some y \<Longrightarrow> other l' = Some y \<Longrightarrow> x = x'"
    and "\<And>x f. x \<in> A \<or> brk s \<le> x \<Longrightarrow> owner (hist s) f \<noteq> Some x \<and> received f x (hist s) = [] \<and> sent f x (hist s) = []"
  shows "traced A s"
  using assms unfolding traced_def by blast

section \<open>What no operation on links changes\<close>

text \<open>No link appears or opens, and the socket, the side and the other end of a link stay what they are.\<close>

definition shape :: "fwd \<Rightarrow> fwd \<Rightarrow> bool" where
  "shape s s' \<longleftrightarrow> brk s' = brk s \<and>
     (\<forall>a l'. links s' a = Some l' \<longrightarrow> (\<exists>l. links s a = Some l \<and> is_client l' = is_client l \<and> other l' = other l \<and>
        (open_link l' \<longrightarrow> open_link l))) \<and>
     (\<forall>a e'. ehs s' a = Some e' \<longrightarrow> (\<exists>e. ehs s a = Some e \<and> eh_fd e' = eh_fd e))"

definition kept :: "addr set \<Rightarrow> fwd \<Rightarrow> fwd \<Rightarrow> bool" where
  "kept A s s' \<longleftrightarrow> shape s s' \<and> (traced A s \<longrightarrow> traced A s')"

lemma bind_SomeE:
  assumes "Option.bind m f = Some y" obtains x where "m = Some x" "f x = Some y"
  using assms by (cases m) auto

named_theorems kepts \<open>operations that keep all links\<close>

text \<open>It is enough that an operation neither splices nor touches the history variables.\<close>

lemma keptI:
  assumes b: "brk s' = brk s" and h: "same_trace (hist s) (hist s')"
    and l: "\<And>a l'. links s' a = Some l' \<Longrightarrow> \<exists>l. links s a = Some l \<and> is_client l' = is_client l \<and> other l' = other l \<and>
      (open_link l' \<longrightarrow> open_link l) \<and> k_src (out l') = k_src (out l) \<and> k_out (out l') = k_out (out l)"
    and e: "\<And>a e'. ehs s' a = Some e' \<Longrightarrow> \<exists>e. ehs s a = Some e \<and> eh_fd e' = eh_fd e"
  shows "kept A s s'"
proof -
  have "traced A s'" if t: "traced A s"
  proof (rule tracedI)
    fix x l' e'
    assume x: "links s' x = Some l'" "ehs s' x = Some e'"
    from l [OF x(1)] obtain l where l: "links s x = Some l" "open_link l' \<longrightarrow> open_link l" "k_out (out l') = k_out (out l)" by blast
    from e [OF x(2)] obtain e where e: "ehs s x = Some e" "eh_fd e' = eh_fd e" by blast
    show "owner (hist s') (eh_fd e') = Some x" if "x \<notin> A" "open_link l'"
      using tracedD(1) [OF t l(1) e(1)] that l(2) e(2) h by (simp add: same_trace_def)
    show "k_out (out l') = sent (eh_fd e') x (hist s')"
      using tracedD(2) [OF t l(1) e(1)] l(3) e(2) h by (simp add: same_trace_def)
  next
    fix x l' y f'
    assume x: "links s' x = Some l'" "other l' = Some y" "ehs s' y = Some f'"
    from l [OF x(1)] obtain l where "links s x = Some l" "other l' = other l" "k_src (out l') = k_src (out l)" by blast
    moreover from e [OF x(3)] obtain f where "ehs s y = Some f" "eh_fd f' = eh_fd f" by blast
    ultimately show "k_src (out l') = received (eh_fd f') y (hist s')"
      using tracedD(3) [OF t] x(2) h by (simp add: same_trace_def)
  next
    fix x l'
    assume x: "links s' x = Some l'" "other l' = None"
    from l [OF x(1)] x(2) obtain l where "links s x = Some l" "other l = None" "k_src (out l') = k_src (out l)" by auto
    with tracedD(4) [OF t] show "k_src (out l') = []" by simp
  next
    fix x x' l' m' y
    assume x: "links s' x = Some l'" "links s' x' = Some m'" "other l' = Some y" "other m' = Some y"
    from l [OF x(1)] l [OF x(2)] x(3,4) tracedD(5) [OF t, of x _ x'] show "x = x'" by fastforce
  next
    show "owner (hist s') f \<noteq> Some x \<and> received f x (hist s') = [] \<and> sent f x (hist s') = []" if "x \<in> A \<or> brk s' \<le> x" for x f
      using tracedD(6) [OF t, of x f] that b h by (simp add: same_trace_def)
  qed
  moreover have "\<exists>l. links s a = Some l \<and> is_client l' = is_client l \<and> other l' = other l \<and> (open_link l' \<longrightarrow> open_link l)"
    if "links s' a = Some l'" for a l' using l [OF that] by blast
  ultimately show ?thesis using b e unfolding kept_def shape_def by blast
qed

lemma kept_same:
  "links s' = links s \<Longrightarrow> ehs s' = ehs s \<Longrightarrow> brk s' = brk s \<Longrightarrow> same_trace (hist s) (hist s') \<Longrightarrow> kept A s s'"
  by (rule keptI) simp_all

lemma kept_refl [simp]: "kept A s s"
  by (rule kept_same) simp_all

lemma kept_trans [trans]:
  assumes "kept A s s'" and "kept A s' s''"
  shows "kept A s s''"
proof -
  have "\<exists>l. links s a = Some l \<and> is_client l'' = is_client l \<and> other l'' = other l \<and> (open_link l'' \<longrightarrow> open_link l)"
    if "links s'' a = Some l''" for a l''
  proof -
    from assms(2) that obtain l' where "links s' a = Some l'" "is_client l'' = is_client l'" "other l'' = other l'"
      "open_link l'' \<longrightarrow> open_link l'" unfolding kept_def shape_def by blast
    with assms(1) show ?thesis unfolding kept_def shape_def by metis
  qed
  moreover have "\<exists>e. ehs s a = Some e \<and> eh_fd e'' = eh_fd e" if "ehs s'' a = Some e''" for a e''
    using assms that unfolding kept_def shape_def by metis
  ultimately show ?thesis using assms unfolding kept_def shape_def by simp
qed

lemma kept_upd_eh:
  "ehs s a = Some e \<Longrightarrow> eh_fd e' = eh_fd e \<Longrightarrow> links s' = links s \<Longrightarrow> ehs s' = (ehs s)(a \<mapsto> e') \<Longrightarrow> hist s' = hist s \<Longrightarrow>
   brk s' = brk s \<Longrightarrow> kept A s s'"
  by (rule keptI) (auto split: if_splits)

lemma upd_link_kept:
  assumes "upd_link a f s = Some s'"
    and "\<And>l. is_client (f l) = is_client l \<and> other (f l) = other l \<and> (open_link (f l) \<longrightarrow> open_link l) \<and>
      k_src (out (f l)) = k_src (out l) \<and> k_out (out (f l)) = k_out (out l)"
  shows "kept A s s'"
  using assms by (intro keptI) (auto simp: upd_link_def split: bind_splits if_splits)

text \<open>The same for a new content of the buffer that is computed from the old one.\<close>

lemma upd_out_kept:
  assumes "upd_link a (\<lambda>l. l\<lparr>out := b\<rparr>) s = Some s'" and "links s a = Some l"
    and "k_src b = k_src (out l)" and "k_out b = k_out (out l)"
  shows "kept A s s'"
  using assms by (intro keptI) (auto simp: upd_link_def open_link_def split: bind_splits if_splits)

lemma upd_eh_kept:
  fixes s :: fwd
  assumes "upd_eh a f s = Some s'" and "\<And>e. eh_fd (f e) = eh_fd e"
  shows "kept A s s'"
  using assms by (intro keptI) (auto simp: upd_eh_def split: bind_splits if_splits)

text \<open>System calls that do not splice change the rest of the history only.\<close>

lemma Buffer_dtor_trace:
  assumes "Buffer_dtor os b s = Some s'"
  shows "world.more s' = world.more s" and "same_trace (hist s) (hist s')"
  using assms by (auto simp: Buffer_dtor_def log_event_def same_trace_def dest!: close_result split: bind_splits if_splits)

lemma Buffer_Init_trace:
  assumes "Buffer_Init os n b s = Some (r, b', s')"
  shows "world.more s' = world.more s" and "same_trace (hist s) (hist s')" and "k_src b' = k_src b" and "k_out b' = k_out b"
  using assms by (auto simp: Buffer_Init_def sys_pipe_def sys_setpipe_sz_def sys_getpipe_sz_def log_event_def Let_def same_trace_def
    split: bind_splits if_splits sum.splits prod.splits)

lemma Buffer_Write_trace:
  assumes "Buffer_Write os data b s = Some (b', s')"
  shows "world.more s' = world.more s" and "same_trace (hist s) (hist s')" and "k_src b' = k_src b" and "k_out b' = k_out b"
  using assms by (auto simp: Buffer_Write_def sys_write_def log_event_def Let_def split: bind_splits if_splits sum.splits)

lemma kept_world:
  fixes s s' :: fwd
  assumes "world.more s' = world.more s" and "same_trace (hist s) (hist s')"
  shows "kept A s s'"
  using assms by (cases s, cases s') (auto intro: kept_same)

lemma sys_kept [kepts]:
  fixes s s' :: fwd
  shows "close_checked os f s = Some s' \<Longrightarrow> kept A s s'" "Buffer_dtor os b s = Some s' \<Longrightarrow> kept A s s'"
    "SockError os f s = Some (err, s') \<Longrightarrow> kept A s s'" "sys_shutdown os f how s = (r', s') \<Longrightarrow> kept A s s'"
proof -
  show "close_checked os f s = Some s' \<Longrightarrow> kept A s s'"
    by (rule kept_same) (auto simp: log_event_def dest!: close_result)
  show "Buffer_dtor os b s = Some s' \<Longrightarrow> kept A s s'" by (rule kept_world) (erule Buffer_dtor_trace)+
  show "SockError os f s = Some (err, s') \<Longrightarrow> kept A s s'"
    by (rule kept_same) (auto simp: SockError_def sys_getsockopt_def log_event_def Let_def split: bind_splits if_splits sum.splits)
  show "sys_shutdown os f how s = (r', s') \<Longrightarrow> kept A s s'"
    by (rule kept_same) (auto simp: sys_shutdown_def log_event_def Let_def)
qed

lemma epoll_kept [kepts]:
  fixes s s' :: fwd
  shows "EPoll_Remove os f s = Some s' \<Longrightarrow> kept A s s'" "EPoll_Modify os f ev p s = Some s' \<Longrightarrow> kept A s s'"
  by (rule kept_same; auto simp: EPoll_Remove_def EPoll_Modify_def sys_epoll_ctl_def log_event_def Let_def
      split: bind_splits if_splits)+

lemma IncRef_kept [kepts]: "IncRef a s = Some s' \<Longrightarrow> kept A s s'"
  by (rule keptI) (auto simp: IncRef_def split: bind_splits if_splits)

lemma Link_dtor_kept [kepts]:
  assumes "Link_dtor os a s = Some s'"
  shows "kept A s s'"
proof -
  from assms obtain s1 b where 1: "Buffer_dtor os b s = Some s1" "s' = s1\<lparr>links := (links s1)(a := None)\<rparr>"
    unfolding Link_dtor_def by (elim bind_SomeE) (auto split: if_splits)
  have "kept A s1 s'" by (rule keptI) (auto simp: 1(2) split: if_splits)
  with sys_kept(2) [OF 1(1)] show ?thesis by (rule kept_trans)
qed

lemma delete_kept [kepts]:
  assumes "delete_EventHandler (Link_dtor os) a s = Some s'"
  shows "kept A s s'"
proof -
  from assms obtain s1 where 1: "Link_dtor os a s = Some s1" "s' = s1\<lparr>ehs := (ehs s1)(a := None), nodes := (nodes s1)(a := None)\<rparr>"
    unfolding delete_EventHandler_def by (elim bind_SomeE) (simp split: if_splits)
  have "kept A s1 s'" by (rule keptI) (auto simp: 1(2) split: if_splits)
  with Link_dtor_kept [OF 1(1)] show ?thesis by (rule kept_trans)
qed

lemma DecRef_kept [kepts]:
  assumes "DecRef (Link_dtor os) a s = Some s'"
  shows "kept A s s'"
proof -
  from assms obtain e where e: "ehs s a = Some e"
    and d: "(if ref_count e - 1 = 0 then delete_EventHandler (Link_dtor os) a (s\<lparr>ehs := (ehs s)(a \<mapsto> e\<lparr>ref_count := ref_count e - 1\<rparr>)\<rparr>)
      else Some (s\<lparr>ehs := (ehs s)(a \<mapsto> e\<lparr>ref_count := ref_count e - 1\<rparr>)\<rparr>)) = Some s'"
    by (auto simp: DecRef_def Let_def split: bind_splits if_splits)
  have "kept A s (s\<lparr>ehs := (ehs s)(a \<mapsto> e\<lparr>ref_count := ref_count e - 1\<rparr>)\<rparr>)" using e by (intro keptI) (auto split: if_splits)
  with d show ?thesis by (auto split: if_splits intro: kept_trans dest: delete_kept)
qed

lemma loop_fields_kept:
  fixes s :: fwd
  shows "kept A s (s\<lparr>nodes := ns, expire := l\<rparr>)" "sys_clock os s = (now, s') \<Longrightarrow> kept A s s'"
  by (rule kept_same; auto simp: sys_clock_def log_event_def Let_def)+

lemma EventLoop_Remove_kept [kepts]:
  fixes s s' :: fwd
  assumes "EventLoop_Remove os (Link_dtor os) p s = Some s'"
  shows "kept A s s'"
proof -
  from assms obtain fd ns l s1 a s2 where 1: "EPoll_Remove os fd (s\<lparr>nodes := ns, expire := l\<rparr>) = Some s1"
    "upd_eh a (\<lambda>e. e\<lparr>event_loop := None\<rparr>) s1 = Some s2" "DecRef (Link_dtor os) a s2 = Some s'"
    by (auto simp: EventLoop_Remove_def split: bind_splits if_splits)
  have "kept A s (s\<lparr>nodes := ns, expire := l\<rparr>)" by (rule loop_fields_kept)
  also have "kept A \<dots> s1" using 1(1) by (rule epoll_kept)
  also have "kept A s1 s2" using 1(2) by (rule upd_eh_kept) simp
  also have "kept A s2 s'" using 1(3) by (rule DecRef_kept)
  finally show ?thesis .
qed

lemma EventLoop_Modify_kept [kepts]:
  fixes s s' :: fwd
  shows "EventLoop_Modify os p ev s = Some s' \<Longrightarrow> kept A s s'"
  by (auto simp: EventLoop_Modify_def dest: epoll_kept split: bind_splits if_splits)

lemma EventLoop_Refresh_kept [kepts]:
  fixes s s' :: fwd
  assumes "EventLoop_Refresh os p s = Some s'"
  shows "kept A s s'"
proof -
  from assms obtain now s1 a s2 ns l where 1: "sys_clock os s = (now, s1)" "upd_eh a (\<lambda>e. e\<lparr>deadline := now + timeout s1\<rparr>) s1 = Some s2"
    "s' = s2\<lparr>nodes := ns, expire := l\<rparr>"
    by (auto simp: EventLoop_Refresh_def Let_def split: bind_splits if_splits prod.splits)
  have "kept A s s1" using 1(1) by (rule loop_fields_kept)
  also have "kept A s1 s2" using 1(2) by (rule upd_eh_kept) simp
  also have "kept A s2 s'" unfolding 1(3) by (rule loop_fields_kept)
  finally show ?thesis .
qed

section \<open>The operations of a link\<close>

lemma Link_Close_kept [kepts]:
  assumes "Link_Close os a s = Some s'"
  shows "kept A s s'"
proof -
  from assms obtain l where l: "links s a = Some l" by (auto simp: Link_Close_def split: bind_splits)
  show ?thesis
  proof (cases "readable l \<or> writable l")
    case True
    with assms l obtain s1 o' s2 s3 fd where 1: "upd_link a (\<lambda>l. l\<lparr>readable := False, writable := False\<rparr>) s = Some s1"
      "DecRef (Link_dtor os) o' s1 = Some s2" "EventLoop_Remove os (Link_dtor os) (Some a) s2 = Some s3"
      "close_checked os fd s3 = Some s'"
      by (auto simp: Link_Close_def split: bind_splits)
    have "kept A s s1" using 1(1) by (rule upd_link_kept) (simp add: open_link_def)
    also have "kept A s1 s2" using 1(2) by (rule kepts)
    also have "kept A s2 s3" using 1(3) by (rule kepts)
    also have "kept A s3 s'" using 1(4) by (rule kepts)
    finally show ?thesis .
  next
    case False
    with assms l show ?thesis by (auto simp: Link_Close_def intro: kept_same)
  qed
qed

lemma Terminate_kept [kepts]: "Terminate os a s = Some s' \<Longrightarrow> kept A s s'"
  by (auto simp: Terminate_def dest!: Link_Close_kept split: bind_splits intro: kept_trans)

lemma Link_Refresh_kept [kepts]: "Link_Refresh os a s = Some s' \<Longrightarrow> kept A s s'"
  by (auto simp: Link_Refresh_def dest: EventLoop_Refresh_kept split: bind_splits if_splits intro: kept_same)

lemma half_close_kept:
  assumes "upd_link a f s = Some s1" and "\<And>l. is_client (f l) = is_client l \<and> other (f l) = other l \<and> (open_link (f l) \<longrightarrow> open_link l) \<and> out (f l) = out l"
    and "EventLoop_Modify os (Some a) ev s1 = Some s2" and "sys_shutdown os fd how s2 = (r, s')"
  shows "kept A s s'"
proof -
  have "kept A s s1" using assms(1) by (rule upd_link_kept) (simp add: assms(2))
  also have "kept A s1 s2" using assms(3) by (rule kepts)
  also have "kept A s2 s'" using assms(4) by (rule kepts)
  finally show ?thesis .
qed

lemma CloseForReading_kept [kepts]:
  assumes "CloseForReading os a s = Some s'"
  shows "kept A s s'"
proof -
  from assms obtain l where l: "links s a = Some l" by (auto simp: CloseForReading_def split: bind_splits)
  show ?thesis
  proof (cases "writable l")
    case True
    with assms l obtain s1 s2 fd r where "upd_link a (\<lambda>l. l\<lparr>readable := False\<rparr>) s = Some s1"
      "EventLoop_Modify os (Some a) (EPOLLOUT OR EPOLLET) s1 = Some s2" "sys_shutdown os fd SHUT_RD s2 = (r, s')"
      by (auto simp: CloseForReading_def Let_def split: bind_splits if_splits prod.splits)
    from half_close_kept [OF this(1) _ this(2,3)] show ?thesis by (simp add: open_link_def)
  next
    case False
    with assms l show ?thesis by (auto simp: CloseForReading_def dest: kepts split: if_splits)
  qed
qed

lemma CloseForWriting_kept [kepts]:
  assumes "CloseForWriting os a s = Some s'"
  shows "kept A s s'"
proof -
  from assms obtain l where l: "links s a = Some l" by (auto simp: CloseForWriting_def split: bind_splits)
  show ?thesis
  proof (cases "readable l")
    case True
    with assms l obtain s1 s2 fd r where "upd_link a (\<lambda>l. l\<lparr>writable := False\<rparr>) s = Some s1"
      "EventLoop_Modify os (Some a) (EPOLLIN OR EPOLLET) s1 = Some s2" "sys_shutdown os fd SHUT_WR s2 = (r, s')"
      by (auto simp: CloseForWriting_def Let_def split: bind_splits if_splits prod.splits)
    from half_close_kept [OF this(1) _ this(2,3)] show ?thesis by (simp add: open_link_def)
  next
    case False
    with assms l show ?thesis by (auto simp: CloseForWriting_def dest: kepts split: if_splits)
  qed
qed

text \<open>Splicing into the buffer of link \<open>a\<close> from the socket of its other end.\<close>

lemma more_same:
  fixes s s' :: fwd
  assumes "world.more s' = world.more s"
  shows "links s' = links s" "ehs s' = ehs s" "brk s' = brk s"
  using assms by (cases s, cases s', simp)+

lemma spliced_in_kept:
  assumes l: "links s a = Some l" "other l = Some o'" "links s o' = Some lo" "open_link lo" "ehs s o' = Some eo"
    and w: "WriteFrom os (eh_fd eo) (out l) s = Some (st, b, s1)" and u: "upd_link a (\<lambda>l. l\<lparr>out := b\<rparr>) s1 = Some s2"
  shows "kept {} s s2"
proof -
  note wt = WriteFrom_trace [OF w]
  note f = more_same [OF wt(1)]
  have s2: "links s2 = (links s)(a \<mapsto> l\<lparr>out := b\<rparr>)" "ehs s2 = ehs s" "brk s2 = brk s" "hist s2 = hist s1"
    using u l(1) f by (auto simp: upd_link_def)
  from wt(5) obtain bs where bs: "k_src b = k_src (out l) @ bs"
    "\<And>g x. received g x (hist s1) = received g x (hist s) @ (if g = eh_fd eo \<and> owner (hist s) (eh_fd eo) = Some x then bs else [])"
    by blast
  have "traced {} s2" if t: "traced {} s"
  proof -
    have own: "owner (hist s) (eh_fd eo) = Some o'" using tracedD(1) [OF t l(3,5)] l(4) by simp
    have rec: "received g x (hist s1) = received g x (hist s) @ (if g = eh_fd eo \<and> x = o' then bs else [])" for g x
      using bs(2) [of g x] own by auto
    have src: "k_src (out m) = received (eh_fd f) y (hist s1)"
      if x: "links s2 x = Some m" "other m = Some y" "ehs s y = Some f" for x m y f
    proof (cases "x = a")
      case True
      then have m: "m = l\<lparr>out := b\<rparr>" using x(1) s2(1) by simp
      with x(2) l(2) have "y = o'" by simp
      moreover from this x(3) l(5) have "f = eo" by simp
      ultimately show ?thesis using tracedD(3) [OF t l(1,2,5)] m bs(1) rec by simp
    next
      case False
      with x s2(1) have m: "links s x = Some m" by simp
      have "y \<noteq> o'" using tracedD(5) [OF t m l(1) x(2)] l(2) False by blast
      with tracedD(3) [OF t m x(2,3)] rec show ?thesis by simp
    qed
    have old: "\<exists>m0. links s x = Some m0 \<and> other m0 = other m" if "links s2 x = Some m" for x m
      using that s2(1) l(1) by (auto split: if_splits)
    show ?thesis
    proof (rule tracedI; (simp only: s2(2-4))?)
      show "owner (hist s1) (eh_fd e) = Some x" if "links s2 x = Some m" "ehs s x = Some e" "open_link m" for x m e
        using that tracedD(1) [OF t _ that(2)] s2(1) l(1) wt(2) by (auto simp: open_link_def split: if_splits)
      show "k_out (out m) = sent (eh_fd e) x (hist s1)" if "links s2 x = Some m" "ehs s x = Some e" for x m e
        using that tracedD(2) [OF t _ that(2)] s2(1) l(1) wt(3,4) by (auto split: if_splits)
      show "k_src (out m) = received (eh_fd f) y (hist s1)"
        if "links s2 x = Some m" "other m = Some y" "ehs s y = Some f" for x m y f
        using src [OF that] .
      show "k_src (out m) = []" if "links s2 x = Some m" "other m = None" for x m
        using that tracedD(4) [OF t] s2(1) l(2) by (auto split: if_splits)
      show "x = x'" if "links s2 x = Some m" "links s2 x' = Some m'" "other m = Some y" "other m' = Some y" for x x' m m' y
        using old [OF that(1)] old [OF that(2)] that(3,4) tracedD(5) [OF t] by metis
      show "owner (hist s1) f \<noteq> Some x \<and> received f x (hist s1) = [] \<and> sent f x (hist s1) = []" if "x \<in> {} \<or> brk s \<le> x" for x f
        using tracedD(6) [OF t that, of f] tracedD(6) [OF t that, of "eh_fd eo"] own rec wt(2,3) by auto
    qed
  qed
  then show ?thesis using s2 l(1) unfolding kept_def shape_def by (auto simp: open_link_def split: if_splits)
qed

text \<open>Splicing from the buffer of link \<open>a\<close> to its own socket.\<close>

lemma spliced_out_kept:
  assumes l: "links s a = Some l" "open_link l" "ehs s a = Some e"
    and w: "ReadTo os (eh_fd e) (out l) s = Some (st, b, s1)" and u: "upd_link a (\<lambda>l. l\<lparr>out := b\<rparr>) s1 = Some s2"
  shows "kept {} s s2"
proof -
  note wt = ReadTo_trace [OF w]
  note f = more_same [OF wt(1)]
  have s2: "links s2 = (links s)(a \<mapsto> l\<lparr>out := b\<rparr>)" "ehs s2 = ehs s" "brk s2 = brk s" "hist s2 = hist s1"
    using u l(1) f by (auto simp: upd_link_def)
  from wt(5) obtain bs where bs: "k_out b = k_out (out l) @ bs"
    "\<And>g x. sent g x (hist s1) = sent g x (hist s) @ (if g = eh_fd e \<and> owner (hist s) (eh_fd e) = Some x then bs else [])"
    by blast
  have "traced {} s2" if t: "traced {} s"
  proof -
    have own: "owner (hist s) (eh_fd e) = Some a" using tracedD(1) [OF t l(1,3)] l(2) by simp
    have snt: "sent g x (hist s1) = sent g x (hist s) @ (if g = eh_fd e \<and> x = a then bs else [])" for g x
      using bs(2) [of g x] own by auto
    have old: "\<exists>m0. links s x = Some m0 \<and> other m0 = other m" if "links s2 x = Some m" for x m
      using that s2(1) l(1) by (auto split: if_splits)
    show ?thesis
    proof (rule tracedI; (simp only: s2(2-4))?)
      show "owner (hist s1) (eh_fd d) = Some x" if "links s2 x = Some m" "ehs s x = Some d" "open_link m" for x m d
        using that tracedD(1) [OF t _ that(2)] s2(1) l(1) wt(2) by (auto simp: open_link_def split: if_splits)
      show "k_out (out m) = sent (eh_fd d) x (hist s1)" if "links s2 x = Some m" "ehs s x = Some d" for x m d
        using that tracedD(2) [OF t _ that(2)] tracedD(2) [OF t l(1,3)] s2(1) l(3) snt bs(1) by (auto split: if_splits)
      show "k_src (out m) = received (eh_fd f) y (hist s1)"
        if "links s2 x = Some m" "other m = Some y" "ehs s y = Some f" for x m y f
        using that tracedD(3) [OF t _ _ that(3)] s2(1) l(1) wt(3,4) by (auto split: if_splits)
      show "k_src (out m) = []" if "links s2 x = Some m" "other m = None" for x m
        using that tracedD(4) [OF t] s2(1) l(1) wt(4) by (auto split: if_splits)
      show "x = x'" if "links s2 x = Some m" "links s2 x' = Some m'" "other m = Some y" "other m' = Some y" for x x' m m' y
        using old [OF that(1)] old [OF that(2)] that(3,4) tracedD(5) [OF t] by metis
      show "owner (hist s1) f \<noteq> Some x \<and> received f x (hist s1) = [] \<and> sent f x (hist s1) = []" if "x \<in> {} \<or> brk s \<le> x" for x f
        using tracedD(6) [OF t that, of f] tracedD(6) [OF t that, of "eh_fd e"] own snt wt(2,3) by auto
    qed
  qed
  then show ?thesis using s2 l(1) unfolding kept_def shape_def by (auto simp: open_link_def split: if_splits)
qed

lemma fwd_read_kept:
  assumes "fwd_read os a s = Some (r, s')"
  shows "kept {} s s'"
proof -
  from assms obtain l o' lo where l: "links s a = Some l" "other l = Some o'" "links s o' = Some lo"
    by (auto simp: fwd_read_def split: bind_splits)
  show ?thesis
  proof (cases "readable lo")
    case True
    from assms l True obtain eo st b s1 s2 where eo: "ehs s o' = Some eo"
      and 1: "WriteFrom os (eh_fd eo) (out l) s = Some (st, b, s1)" "upd_link a (\<lambda>l. l\<lparr>out := b\<rparr>) s1 = Some s2"
      and c: "(case st of
          kData \<Rightarrow> Some (Some True, s2)
        | kEof \<Rightarrow> do { s \<leftarrow> CloseForReading os o' s2; Some (Some True, s) }
        | kError \<Rightarrow> do { s \<leftarrow> Terminate os a s2; Some (None, s) }
        | kNoOp \<Rightarrow> Some (Some False, s2)) = Some (r, s')"
      by (simp add: fwd_read_def) (elim bind_SomeE, clarsimp, elim bind_SomeE, rule that)
    have "kept {} s s2" using True by (intro spliced_in_kept [OF l _ eo 1]) (simp add: open_link_def)
    also have "kept {} s2 s'" using c by (cases st) (auto dest: kepts split: bind_splits)
    finally show ?thesis .
  next
    case False
    with assms l show ?thesis by (auto simp: fwd_read_def)
  qed
qed

lemma fwd_write_kept:
  assumes "fwd_write os a s = Some (r, s')"
  shows "kept {} s s'"
proof (cases "s' = s")
  case False
  from assms obtain l where l: "links s a = Some l" by (auto simp: fwd_write_def split: bind_splits)
  with assms False have op: "writable l" by (auto simp: fwd_write_def split: if_splits)
  from assms l op obtain e st b s1 s2 where e: "ehs s a = Some e"
    and 1: "ReadTo os (eh_fd e) (out l) s = Some (st, b, s1)" "upd_link a (\<lambda>l. l\<lparr>out := b\<rparr>) s1 = Some s2"
    and c: "(case st of
          kData \<Rightarrow> Some (Some True, s2)
        | kEof \<Rightarrow> do { s \<leftarrow> CloseForWriting os a s2; Some (Some True, s) }
        | kError \<Rightarrow> do { s \<leftarrow> Terminate os a s2; Some (None, s) }
        | kNoOp \<Rightarrow> Some (Some False, s2)) = Some (r, s')"
    by (simp add: fwd_write_def) (elim bind_SomeE, clarsimp, elim bind_SomeE, rule that)
  have "kept {} s s2" using op by (intro spliced_out_kept [OF l _ e 1]) (simp add: open_link_def)
  also have "kept {} s2 s'" using c by (cases st) (auto dest: kepts split: bind_splits)
  finally show ?thesis .
qed simp

lemma ForwardFromOther_kept:
  assumes "ForwardFromOther os a res s = Some y"
  shows "kept {} s (snd y)"
  using assms
proof (induction rule: ForwardFromOther.raw_induct [rotated 1, consumes 1, case_names step])
  case (step go os a res s y)
  from step.hyps obtain r1 s1 where 1: "fwd_read os a s = Some (r1, s1)" by (auto split: bind_splits)
  have k1: "kept {} s s1" using 1 by (rule fwd_read_kept)
  show ?case
  proof (cases r1)
    case None
    with step.hyps 1 k1 show ?thesis by auto
  next
    case (Some io1)
    with step.hyps 1 obtain r2 s2 where 2: "fwd_write os a s1 = Some (r2, s2)" by (auto split: bind_splits)
    have k2: "kept {} s s2" using k1 fwd_write_kept [OF 2] by (rule kept_trans)
    show ?thesis
    proof (cases r2)
      case None
      with step.hyps 1 2 Some k2 show ?thesis by auto
    next
      case (Some io2)
      with step.hyps 1 2 \<open>r1 = Some io1\<close> have "(if io1 \<or> io2 then go os a True s2 else Some (res, s2)) = Some y" by simp
      then consider "y = (res, s2)" | "go os a True s2 = Some y" by (metis option.inject)
      then show ?thesis
      proof cases
        case 2
        from kept_trans [OF k2 step.IH [OF this]] show ?thesis .
      qed (use k2 in simp)
    qed
  qed
qed

lemma Link_Process_kept:
  assumes "Link_Process os lf a ev s = Some (r, s')"
  shows "kept {} s s'"
proof -
  define A where "A = (\<lambda>s. if HasBits ev EPOLLOUT then ForwardFromOther os a False s else Some (False, s))"
  define B where "B = (\<lambda>s. if HasBits ev EPOLLIN then do { l \<leftarrow> links s a; o' \<leftarrow> other l; ForwardFromOther os o' False s }
    else Some (False, s))"
  have A: "kept {} t t'" if "A t = Some (x, t')" for x t t'
    using that by (auto simp: A_def intro: kept_same dest: ForwardFromOther_kept split: if_splits)
  have B: "kept {} t t'" if "B t = Some (x, t')" for x t t'
    using that by (auto simp: B_def intro: kept_same dest: ForwardFromOther_kept split: if_splits bind_splits)
  from assms obtain fd where e: "(if HasBits ev EPOLLERR then do { (err, s) \<leftarrow> SockError os fd s; s \<leftarrow> Terminate os a s; Some (False, s) }
      else do { (x, s) \<leftarrow> (if lf then A s else B s); (y, s) \<leftarrow> (if lf then B s else A s); Some (x \<or> y, s) }) = Some (r, s')"
    unfolding Link_Process_def Let_def A_def [symmetric] B_def [symmetric] by (elim bind_SomeE) (rule that)
  show ?thesis
  proof (cases "HasBits ev EPOLLERR")
    case True
    with e obtain err s1 where 1: "SockError os fd s = Some (err, s1)" "Terminate os a s1 = Some s'"
      by (auto split: bind_splits)
    from sys_kept(3) [OF 1(1)] Terminate_kept [OF 1(2)] show ?thesis by (rule kept_trans)
  next
    case False
    with e have "do { (x, s) \<leftarrow> (if lf then A s else B s); (y, s) \<leftarrow> (if lf then B s else A s); Some (x \<or> y, s) } = Some (r, s')"
      by (simp only: if_False)
    then obtain p where p: "(if lf then A s else B s) = Some p"
      and q: "(case p of (x, s) \<Rightarrow> do { (y, s) \<leftarrow> (if lf then B s else A s); Some (x \<or> y, s) }) = Some (r, s')"
      by (rule bind_SomeE)
    from q obtain p' where p': "(if lf then B (snd p) else A (snd p)) = Some p'"
      and q': "(case p' of (y, s) \<Rightarrow> Some (fst p \<or> y, s)) = Some (r, s')"
      unfolding case_prod_beta [of _ p] by (rule bind_SomeE)
    from p p' q' obtain x s1 y where 1: "(if lf then A s else B s) = Some (x, s1)" "(if lf then B s1 else A s1) = Some (y, s')"
      by (intro that [of "fst p" "snd p" "fst p'"]) (auto simp: case_prod_beta prod_eq_iff)
    have "kept {} s s1" using 1(1) A B by (cases lf) simp_all
    also have "kept {} s1 s'" using 1(2) A B by (cases lf) simp_all
    finally show ?thesis .
  qed
qed

lemma Link_OnEvent_kept:
  assumes "Link_OnEvent os lf a ev s = Some s'"
  shows "kept {} s s'"
proof -
  from assms obtain o1 s1 r s2 s3 o3 where 1: "IncRef o1 s = Some s1" "Link_Process os lf a ev s1 = Some (r, s2)"
    "(if r then do { s \<leftarrow> Link_Refresh os a s2; l \<leftarrow> links s a; o' \<leftarrow> other l; Link_Refresh os o' s } else Some s2) = Some s3"
    "DecRef (Link_dtor os) o3 s3 = Some s'"
    unfolding Link_OnEvent_def case_prod_beta by (elim bind_SomeE) (rule that, assumption, rule trans, assumption, simp_all)
  have "kept {} s s1" using 1(1) by (rule kepts)
  also have "kept {} s1 s2" using 1(2) by (rule Link_Process_kept)
  also have "kept {} s2 s3" using 1(3)
    by (auto split: if_splits bind_splits dest!: Link_Refresh_kept intro: kept_trans kept_same)
  also have "kept {} s3 s'" using 1(4) by (rule kepts)
  finally show ?thesis .
qed

lemma Link_OnTimeout_kept:
  assumes "Link_OnTimeout os a s = Some s'"
  shows "kept A s s'"
proof -
  from assms obtain o1 s1 s2 o3 where 1: "IncRef o1 s = Some s1" "Terminate os a s1 = Some s2" "DecRef (Link_dtor os) o3 s2 = Some s'"
    by (auto simp: Link_OnTimeout_def split: bind_splits)
  have "kept A s s1" using 1(1) by (rule kepts)
  also have "kept A s1 s2" using 1(2) by (rule kepts)
  also have "kept A s2 s'" using 1(3) by (rule kepts)
  finally show ?thesis .
qed

end
