(* ===== verification/Forwarder_Pairs.thy ===== *)
theory Forwarder_Pairs
  imports Forwarder_Kept
begin

text \<open>
  Which sockets the tunnels of the forwarder join: only the two sockets of one call of \<open>Forward\<close>; and which bytes they move:
  those that the history says have been received.  \<open>event_handlers\<close> is interpreted a second time, with the invariants
  \<open>paired\<close> and \<open>traced\<close> added.
\<close>

section \<open>New links\<close>

text \<open>Besides the links of \<open>s\<close>, there are at most client \<open>a\<close> for socket \<open>c\<close> and server \<open>b\<close> for socket \<open>d\<close>, joined to each other or to nothing.\<close>

definition born :: "addr \<Rightarrow> addr \<Rightarrow> fd \<Rightarrow> fd \<Rightarrow> fwd \<Rightarrow> fwd \<Rightarrow> bool" where
  "born a b c d s s' \<longleftrightarrow> brk s' = Suc b \<and>
     (\<forall>x l'. links s' x = Some l' \<longrightarrow> (x = a \<longrightarrow> is_client l' \<and> (other l' = None \<or> other l' = Some b)) \<and>
        (x = b \<longrightarrow> \<not> is_client l' \<and> (other l' = None \<or> other l' = Some a)) \<and>
        (x \<noteq> a \<longrightarrow> x \<noteq> b \<longrightarrow> (\<exists>l. links s x = Some l \<and> is_client l' = is_client l \<and> other l' = other l \<and>
           (open_link l' \<longrightarrow> open_link l)))) \<and>
     (\<forall>x e'. ehs s' x = Some e' \<longrightarrow> (x = a \<longrightarrow> eh_fd e' = c) \<and> (x = b \<longrightarrow> eh_fd e' = d) \<and>
        (x \<noteq> a \<longrightarrow> x \<noteq> b \<longrightarrow> (\<exists>e. ehs s x = Some e \<and> eh_fd e' = eh_fd e)))"

lemma bornD:
  assumes "born a b c d s s'"
  shows "brk s' = Suc b" "links s' a = Some l \<Longrightarrow> is_client l \<and> (other l = None \<or> other l = Some b)"
    "links s' b = Some l \<Longrightarrow> \<not> is_client l \<and> (other l = None \<or> other l = Some a)"
    "links s' x = Some l \<Longrightarrow> x \<noteq> a \<Longrightarrow> x \<noteq> b \<Longrightarrow> \<exists>l0. links s x = Some l0 \<and> is_client l = is_client l0 \<and> other l = other l0 \<and>
       (open_link l \<longrightarrow> open_link l0)"
    "ehs s' a = Some e \<Longrightarrow> eh_fd e = c" "ehs s' b = Some e \<Longrightarrow> eh_fd e = d"
    "ehs s' x = Some e \<Longrightarrow> x \<noteq> a \<Longrightarrow> x \<noteq> b \<Longrightarrow> \<exists>e0. ehs s x = Some e0 \<and> eh_fd e = eh_fd e0"
  using assms unfolding born_def by blast+

lemma born_shape:
  assumes b: "born a b c d s s'" and k: "shape s' s''"
  shows "born a b c d s s''"
proof -
  have link: "\<exists>l'. links s' x = Some l' \<and> is_client l'' = is_client l' \<and> other l'' = other l' \<and> (open_link l'' \<longrightarrow> open_link l')"
    if "links s'' x = Some l''" for x l'' using k that unfolding shape_def by blast
  have eh: "\<exists>e'. ehs s' x = Some e' \<and> eh_fd e'' = eh_fd e'" if "ehs s'' x = Some e''" for x e''
    using k that unfolding shape_def by blast
  have "brk s'' = Suc b" using bornD(1) [OF b] k by (simp add: shape_def)
  moreover have "is_client l \<and> (other l = None \<or> other l = Some b)" if "links s'' a = Some l" for l
    using link [OF that] bornD(2) [OF b] by auto
  moreover have "\<not> is_client l \<and> (other l = None \<or> other l = Some a)" if "links s'' b = Some l" for l
    using link [OF that] bornD(3) [OF b] by auto
  moreover have "\<exists>l0. links s x = Some l0 \<and> is_client l = is_client l0 \<and> other l = other l0 \<and> (open_link l \<longrightarrow> open_link l0)"
    if "links s'' x = Some l" "x \<noteq> a" "x \<noteq> b" for x l using link [OF that(1)] bornD(4) [OF b _ that(2,3)] by fastforce
  moreover have "eh_fd e = c" if "ehs s'' a = Some e" for e using eh [OF that] bornD(5) [OF b] by auto
  moreover have "eh_fd e = d" if "ehs s'' b = Some e" for e using eh [OF that] bornD(6) [OF b] by auto
  moreover have "\<exists>e0. ehs s x = Some e0 \<and> eh_fd e = eh_fd e0" if "ehs s'' x = Some e" "x \<noteq> a" "x \<noteq> b" for x e
    using eh [OF that(1)] bornD(7) [OF b _ that(2,3)] by fastforce
  ultimately show ?thesis unfolding born_def by blast
qed

lemma kept_shape: "kept A s s' \<Longrightarrow> shape s s'" "kept A s s' \<Longrightarrow> traced A s \<Longrightarrow> traced A s'"
  by (simp_all add: kept_def)

lemma new_link_result:
  assumes "new_LinkEventHandler f client s = Some (a, s')"
  shows "a = brk s" "brk s' = Suc (brk s)" "hist s' = hist s"
    "links s' = (links s)(a \<mapsto> \<lparr>is_client = client, out = new_buffer, readable = True, writable = True, other = None\<rparr>)"
    "ehs s' = (ehs s)(a \<mapsto> \<lparr>eh_fd = f, deadline = 0, event_loop = None, ref_count = 0\<rparr>)"
proof -
  let ?s = "s\<lparr>brk := Suc (brk s), nodes := (nodes s)(brk s \<mapsto> new_node),
    ehs := (ehs s)(brk s \<mapsto> \<lparr>eh_fd = f, deadline = 0, event_loop = None, ref_count = 0\<rparr>)\<rparr>"
  have "(brk s, ?s\<lparr>links := (links s)(brk s \<mapsto>
      \<lparr>is_client = client, out = new_buffer, readable = True, writable = True, other = None\<rparr>)\<rparr>) = (a, s')"
    using assms by (cases "f \<ge> 0") (auto simp: new_LinkEventHandler_def new_EventHandler_def Let_def)
  from this [symmetric] show "a = brk s" "brk s' = Suc (brk s)" "hist s' = hist s"
    "links s' = (links s)(a \<mapsto> \<lparr>is_client = client, out = new_buffer, readable = True, writable = True, other = None\<rparr>)"
    "ehs s' = (ehs s)(a \<mapsto> \<lparr>eh_fd = f, deadline = 0, event_loop = None, ref_count = 0\<rparr>)"
    by simp_all
qed

lemma born_new:
  assumes "new_LinkEventHandler c True s = Some (a, s1)" and "new_LinkEventHandler d False s1 = Some (b, s2)"
  shows "born a b c d s s2" and "a = brk s" and "b = Suc (brk s)"
proof -
  note n = new_link_result [OF assms(1)] new_link_result [OF assms(2)]
  show "a = brk s" "b = Suc (brk s)" using n(1,2,6) by simp_all
  then have "a \<noteq> b" by simp
  moreover have "brk s2 = Suc b" using n(6,7) by simp
  ultimately show "born a b c d s s2" unfolding born_def n(4,5,9,10) by simp
qed

text \<open>No system call has been made yet, and the buffers are empty.\<close>

lemma traced_new:
  assumes t: "traced {} s" and below: "\<And>x l y. links s x = Some l \<Longrightarrow> other l = Some y \<Longrightarrow> y < brk s"
    and new: "new_LinkEventHandler c True s = Some (a, s1)" "new_LinkEventHandler d False s1 = Some (b, s2)"
  shows "traced {a, b} s2"
proof -
  note n = new_link_result [OF new(1)] new_link_result [OF new(2)] and ab = born_new(2,3) [OF new]
  have h: "hist s2 = hist s" "brk s2 = Suc b" using n(2,3,7,8) ab by simp_all
  have quiet: "owner (hist s) f \<noteq> Some x \<and> received f x (hist s) = [] \<and> sent f x (hist s) = []" if "brk s \<le> x" for x f
    using tracedD(6) [OF t, of x f] that by simp
  have link: "(x = a \<or> x = b) \<and> other l = None \<and> k_src (out l) = [] \<and> k_out (out l) = [] \<or> x \<noteq> a \<and> x \<noteq> b \<and> links s x = Some l"
    if "links s2 x = Some l" for x l
    using that unfolding n(4,9) by (auto simp: new_buffer_def split: if_splits)
  have eh: "ehs s x = Some e" if "ehs s2 x = Some e" "x \<noteq> a" "x \<noteq> b" for x e
    using that unfolding n(5,10) by simp
  show ?thesis
  proof (rule tracedI; (simp only: h(1))?)
    show "owner (hist s) (eh_fd e) = Some x" if "links s2 x = Some l" "ehs s2 x = Some e" "x \<notin> {a, b}" "open_link l" for x l e
      using link [OF that(1)] eh [OF that(2)] tracedD(1) [OF t] that(3,4) by auto
    show "k_out (out l) = sent (eh_fd e) x (hist s)" if "links s2 x = Some l" "ehs s2 x = Some e" for x l e
      using link [OF that(1)] eh [OF that(2)] tracedD(2) [OF t] quiet [of x "eh_fd e"] ab by auto
    show "k_src (out l) = received (eh_fd f) y (hist s)" if "links s2 x = Some l" "other l = Some y" "ehs s2 y = Some f" for x l y f
    proof -
      from link [OF that(1)] that(2) have l: "links s x = Some l" by auto
      from below [OF this that(2)] ab have "y \<noteq> a" "y \<noteq> b" by simp_all
      from tracedD(3) [OF t l that(2) eh [OF that(3) this]] show ?thesis .
    qed
    show "k_src (out l) = []" if "links s2 x = Some l" "other l = None" for x l
      using link [OF that(1)] tracedD(4) [OF t] that(2) by blast
    show "x = x'" if "links s2 x = Some l" "links s2 x' = Some l'" "other l = Some y" "other l' = Some y" for x x' l l' y
      using link [OF that(1)] link [OF that(2)] that(3,4) tracedD(5) [OF t, of x l x' l' y] by auto
    show "owner (hist s) f \<noteq> Some x \<and> received f x (hist s) = [] \<and> sent f x (hist s) = []" if "x \<in> {a, b} \<or> brk s2 \<le> x" for x f
      using quiet [of x f] that ab h(2) by auto
  qed
qed

text \<open>Joining two new links.\<close>

lemma born_join:
  assumes "born a b c d s s'" and "a \<noteq> b"
  shows "upd_link a (\<lambda>l. l\<lparr>other := Some b\<rparr>) s' = Some s'' \<Longrightarrow> born a b c d s s''"
    "upd_link b (\<lambda>l. l\<lparr>other := Some a\<rparr>) s' = Some s'' \<Longrightarrow> born a b c d s s''"
proof -
  have join: "born a b c d s s''" if upd: "upd_link x (\<lambda>l. l\<lparr>other := Some y\<rparr>) s' = Some s''"
    and xy: "x = a \<and> y = b \<or> x = b \<and> y = a" for x y
  proof -
    from upd obtain l where "links s' x = Some l" "links s'' = (links s')(x \<mapsto> l\<lparr>other := Some y\<rparr>)" "ehs s'' = ehs s'" "brk s'' = brk s'"
      by (auto simp: upd_link_def split: bind_splits)
    with assms xy show ?thesis unfolding born_def by (auto split: if_splits)
  qed
  show "upd_link a (\<lambda>l. l\<lparr>other := Some b\<rparr>) s' = Some s'' \<Longrightarrow> born a b c d s s''" by (rule join) auto
  show "upd_link b (\<lambda>l. l\<lparr>other := Some a\<rparr>) s' = Some s'' \<Longrightarrow> born a b c d s s''" by (rule join) auto
qed

lemma traced_join:
  assumes t: "traced A s" and upd: "upd_link x (\<lambda>l. l\<lparr>other := Some y\<rparr>) s = Some s'" and A: "x \<in> A" "y \<in> A"
    and free: "\<And>z l. links s z = Some l \<Longrightarrow> z \<noteq> x \<Longrightarrow> other l \<noteq> Some y"
    and mine: "\<And>l. links s x = Some l \<Longrightarrow> other l = None \<or> other l = Some y"
  shows "traced A s'"
proof -
  from upd obtain l where l: "links s x = Some l" "links s' = (links s)(x \<mapsto> l\<lparr>other := Some y\<rparr>)" "ehs s' = ehs s" "brk s' = brk s"
    "hist s' = hist s" by (auto simp: upd_link_def split: bind_splits)
  show ?thesis
  proof (rule tracedI; (simp only: l(3-5))?)
    show "owner (hist s) (eh_fd e) = Some z" if "links s' z = Some m" "ehs s z = Some e" "z \<notin> A" "open_link m" for z m e
      using that A(1) tracedD(1) [OF t _ that(2,3)] l(2) by (auto split: if_splits)
    show "k_out (out m) = sent (eh_fd e) z (hist s)" if "links s' z = Some m" "ehs s z = Some e" for z m e
      using that tracedD(2) [OF t _ that(2)] l(1,2) by (auto split: if_splits)
    show "k_src (out m) = received (eh_fd f) w (hist s)" if "links s' z = Some m" "other m = Some w" "ehs s w = Some f" for z m w f
    proof (cases "z = x")
      case True
      then have "w = y" "out m = out l" using that(1,2) l(2) by auto
      with mine [OF l(1)] tracedD(4) [OF t l(1)] tracedD(3) [OF t l(1) _ that(3)] tracedD(6) [OF t, of y "eh_fd f"] A(2)
      show ?thesis by auto
    qed (use that tracedD(3) [OF t _ that(2,3)] l(2) in simp)
    show "k_src (out m) = []" if "links s' z = Some m" "other m = None" for z m
      using that tracedD(4) [OF t] l(2) by (auto split: if_splits)
    show "z = z'" if "links s' z = Some m" "links s' z' = Some m'" "other m = Some w" "other m' = Some w" for z z' m m' w
      using that free tracedD(5) [OF t, of z m z' m' w] l(2) by (cases "z = x"; cases "z' = x") auto
  qed (rule tracedD(6) [OF t])
qed

text \<open>Adding a handler to the loop makes its socket its own.\<close>

lemma EventLoop_Add_result:
  fixes s s' :: fwd
  assumes "EventLoop_Add os (Some a) ev s = Some s'"
  shows "shape s s'" "links s' = links s" "\<exists>e. ehs s a = Some e \<and> owner (hist s') = (owner (hist s))(eh_fd e \<mapsto> a)"
    "received f x (hist s') = received f x (hist s)" "sent f x (hist s') = sent f x (hist s)"
proof -
  from assms obtain e s1 s2 now s3 s4 ns l where 1: "ehs s a = Some e" "IncRef a s = Some s1"
    "upd_eh a (\<lambda>e. e\<lparr>event_loop := Some (self s1)\<rparr>) s1 = Some s2"
    "sys_clock os s2 = (now, s3)" "upd_eh a (\<lambda>e. e\<lparr>deadline := now + timeout s3\<rparr>) s3 = Some s4"
    "EPoll_Add os (eh_fd e) ev (Some a) (s4\<lparr>nodes := ns, expire := l\<rparr>) = Some s'"
    by (auto simp: EventLoop_Add_def Let_def split: bind_splits if_splits prod.splits)
  have h: "hist s4 = Clock_now now # hist s" "links s4 = links s" "brk s4 = brk s"
    using 1(2-5) by (auto simp: IncRef_def upd_eh_def sys_clock_def log_event_def Let_def split: bind_splits if_splits)
  have k: "kept {} s s4"
  proof -
    have "kept {} s s1" using 1(2) by (rule IncRef_kept)
    also have "kept {} s1 s2" using 1(3) by (rule upd_eh_kept) simp
    also have "kept {} s2 s3" using 1(4) by (rule loop_fields_kept)
    also have "kept {} s3 s4" using 1(5) by (rule upd_eh_kept) simp
    finally show ?thesis .
  qed
  have s': "hist s' = Epoll_ctl CTL_ADD (eh_fd e) ev (Some a) 0 # hist s4" "links s' = links s4" "ehs s' = ehs s4" "brk s' = brk s4"
    using 1(6) by (auto simp: EPoll_Add_def sys_epoll_ctl_def log_event_def Let_def split: if_splits)
  show "shape s s'" using k s' by (simp add: kept_def shape_def)
  show "links s' = links s" using s' h by simp
  show "\<exists>e. ehs s a = Some e \<and> owner (hist s') = (owner (hist s))(eh_fd e \<mapsto> a)"
    using 1(1) by (simp add: s' h)
  show "received f x (hist s') = received f x (hist s)" "sent f x (hist s') = sent f x (hist s)" by (simp_all add: s' h)
qed

lemma traced_add:
  assumes t: "traced A s" and run: "EventLoop_Add os (Some a) ev s = Some s'" and a: "a < brk s"
    and apart: "\<And>x l e f. links s x = Some l \<Longrightarrow> x \<notin> A \<Longrightarrow> open_link l \<Longrightarrow> ehs s x = Some e \<Longrightarrow> ehs s a = Some f \<Longrightarrow> eh_fd e \<noteq> eh_fd f"
  shows "traced (A - {a}) s'"
proof -
  note ad = EventLoop_Add_result [OF run]
  from ad(3) obtain e where e: "ehs s a = Some e" "owner (hist s') = (owner (hist s))(eh_fd e \<mapsto> a)" by blast
  have eh: "\<exists>d. ehs s x = Some d \<and> eh_fd d' = eh_fd d" if "ehs s' x = Some d'" for x d'
    using ad(1) that unfolding shape_def by blast
  have b: "brk s' = brk s" using ad(1) by (simp add: shape_def)
  show ?thesis
  proof (rule tracedI; (simp only: ad(2,4,5) b)?)
    show "owner (hist s') (eh_fd d') = Some x" if "links s x = Some l" "ehs s' x = Some d'" "x \<notin> A - {a}" "open_link l" for x l d'
    proof -
      from eh [OF that(2)] obtain d where d: "ehs s x = Some d" "eh_fd d' = eh_fd d" by blast
      show ?thesis
      proof (cases "x = a")
        case True
        with d e show ?thesis by simp
      next
        case False
        with that(3) have "x \<notin> A" by simp
        with tracedD(1) [OF t that(1) d(1) _ that(4)] apart [OF that(1) _ that(4) d(1) e(1)] d(2) e(2) show ?thesis by simp
      qed
    qed
    show "k_out (out l) = sent (eh_fd d') x (hist s)" if "links s x = Some l" "ehs s' x = Some d'" for x l d'
      using eh [OF that(2)] tracedD(2) [OF t that(1)] by auto
    show "k_src (out l) = received (eh_fd f') y (hist s)" if "links s x = Some l" "other l = Some y" "ehs s' y = Some f'" for x l y f'
      using eh [OF that(3)] tracedD(3) [OF t that(1,2)] by auto
    show "owner (hist s') f \<noteq> Some x \<and> received f x (hist s) = [] \<and> sent f x (hist s) = []" if "x \<in> A - {a} \<or> brk s \<le> x" for x f
      using tracedD(6) [OF t, of x f] that a e(2) by auto
  qed (use tracedD(4,5) [OF t] in blast)+
qed

text \<open>\<open>LinkEventHandler::New\<close> makes the two links and, unless they are abandoned, adds them to the loop.\<close>

lemma link_Init_kept:
  assumes "link_Init os a n s = Some (r, s')"
  shows "kept A s s'"
proof -
  from assms obtain l b s1 where 1: "links s a = Some l" "Buffer_Init os n (out l) s = Some (r, b, s1)"
    "upd_link a (\<lambda>l. l\<lparr>out := b\<rparr>) s1 = Some s'"
    by (auto simp: link_Init_def split: bind_splits)
  note b = Buffer_Init_trace [OF 1(2)]
  have "kept A s s1" using b(1,2) by (rule kept_world)
  also have "kept A s1 s'" using upd_out_kept [OF 1(3) _ b(3,4)] 1(1) more_same(1) [OF b(1)] by simp
  finally show ?thesis .
qed

lemma abandon_kept:
  assumes "abandon os a s = Some s'"
  shows "kept A s s'" "links s' a = None"
proof -
  from assms obtain fd s1 s2 where 1: "close_checked os fd s = Some s1"
    "upd_link a (\<lambda>l. l\<lparr>readable := False, writable := False\<rparr>) s1 = Some s2" "delete_EventHandler (Link_dtor os) a s2 = Some s'"
    by (auto simp: abandon_def split: bind_splits)
  have "kept A s s1" using 1(1) by (rule kepts)
  also have "kept A s1 s2" using 1(2) by (rule upd_link_kept) (simp add: open_link_def)
  also have "kept A s2 s'" using 1(3) by (rule kepts)
  finally show "kept A s s'" .
  from 1(3) show "links s' a = None"
    by (auto simp: delete_EventHandler_def Link_dtor_def split: bind_splits if_splits)
qed

lemma traced_gone:
  assumes "traced A s" and "\<And>x. x \<in> A \<Longrightarrow> links s x = None"
  shows "traced {} s"
proof (rule tracedI)
  show "owner (hist s) (eh_fd e) = Some x" if "links s x = Some l" "ehs s x = Some e" "open_link l" for x l e
    using assms(2) [of x] tracedD(1) [OF assms(1) that(1,2) _ that(3)] that(1) by auto
  show "owner (hist s) f \<noteq> Some x \<and> received f x (hist s) = [] \<and> sent f x (hist s) = []" if "x \<in> {} \<or> brk s \<le> x" for x f
    using tracedD(6) [OF assms(1), of x f] that by simp
qed (use tracedD(2-5) [OF assms(1)] in blast)+

text \<open>The sockets of open links are in the interest list already.\<close>

lemma open_link_interest:
  assumes inv: "linv os t s" and l: "links s x = Some l" "open_link l" "ehs s x = Some e"
  shows "eh_fd e \<in> dom (interest (hist s))"
proof -
  obtain xs where x: "evl_inv os s xs" using linv_evl [OF inv] by blast
  have "x \<in> set xs"
    using linv_open_registered [OF inv l(1,2)] evl_inv_eh [OF x l(3)] l(3) by (auto simp: registered_def eh_ok_def split: if_splits)
  moreover have "fd_of (ehs s) x = eh_fd e" using l(3) by (simp add: fd_of_def)
  ultimately have "eh_fd e \<in> fd_of (ehs s) ` set xs" by (metis imageI)
  then show ?thesis using x by (auto simp: evl_inv_def poll_ok_def)
qed

lemma add_both_traced:
  assumes inv: "linv os t s" and f: "c \<noteq> d" "{c, d} \<inter> dom (interest (hist s)) = {}"
    and b: "born a b c d s s1" "a \<noteq> b" "a < brk s1" and t: "traced {a, b} s1"
    and add: "EventLoop_Add os (Some a) ev s1 = Some s2" "EventLoop_Add os (Some b) ev s2 = Some s3"
  shows "traced {} s3"
proof -
  have old: "eh_fd e \<noteq> c \<and> eh_fd e \<noteq> d"
    if "born a b c d s u" "links u x = Some l" "open_link l" "ehs u x = Some e" "x \<noteq> a" "x \<noteq> b" for u x l e
  proof -
    from bornD(4) [OF that(1,2,5,6)] bornD(7) [OF that(1,4-6)] that(3) obtain l0 e0 where
      "links s x = Some l0" "open_link l0" "ehs s x = Some e0" "eh_fd e = eh_fd e0" by blast
    with open_link_interest [OF inv this(1-3)] f(2) show ?thesis by auto
  qed
  note sh = EventLoop_Add_result(1) [OF add(1)]
  have b2: "born a b c d s s2" using b(1) sh by (rule born_shape)
  have br: "brk s2 = brk s1" "brk s1 = Suc b" using sh bornD(1) [OF b(1)] by (simp_all add: shape_def)
  have "traced ({a, b} - {a}) s2"
  proof (rule traced_add [OF t add(1) b(3)])
    show "eh_fd e \<noteq> eh_fd g" if "links s1 x = Some l" "x \<notin> {a, b}" "open_link l" "ehs s1 x = Some e" "ehs s1 a = Some g" for x l e g
      using old [OF b(1) that(1,3,4)] bornD(5) [OF b(1) that(5)] that(2) by simp
  qed
  then have t2: "traced {b} s2" using b(2) by (simp add: insert_Diff_if)
  have "traced ({b} - {b}) s3"
  proof (rule traced_add [OF t2 add(2)])
    show "b < brk s2" using br by simp
    show "eh_fd e \<noteq> eh_fd g" if "links s2 x = Some l" "x \<notin> {b}" "open_link l" "ehs s2 x = Some e" "ehs s2 b = Some g" for x l e g
    proof (cases "x = a")
      case True
      then show ?thesis using bornD(5) [OF b2] bornD(6) [OF b2 that(5)] that(4) f(1) by simp
    next
      case False
      then show ?thesis using old [OF b2 that(1,3,4)] bornD(6) [OF b2 that(5)] that(2) by simp
    qed
  qed
  then show ?thesis by simp
qed

lemma New_traced:
  assumes inv: "linv os t s" and f: "c \<noteq> d" "{c, d} \<inter> dom (interest (hist s)) = {}" and tr: "traced {} s"
    and run: "LinkEventHandler_New os opt c d s = Some s'"
  shows "born (brk s) (Suc (brk s)) c d s s'" and "traced {} s'"
proof -
  from run obtain a s1 b s2 where 1: "new_LinkEventHandler c True s = Some (a, s1)"
    "new_LinkEventHandler d False s1 = Some (b, s2)" by (auto simp: LinkEventHandler_New_def split: bind_splits)
  note ab = born_new(2,3) [OF this]
  note start = LinkEventHandler_New_def 1
  have below: "y < brk s" if "links s x = Some l" "other l = Some y" for x l y
    using linv_link [OF inv that(1)] that(2) by (auto simp: link_ok_def split: option.splits)
  from run obtain r s3 where 3: "link_Init os a (server_to_client_buffer_size_bytes opt) s2 = Some (r, s3)"
    by (simp add: start) (auto split: bind_splits)
  from run obtain r' s4 where 4: "(if r then link_Init os b (client_to_server_buffer_size_bytes opt) s3 else Some (False, s3)) = Some (r', s4)"
    by (simp add: start 3) (auto split: bind_splits)
  have k: "kept {a, b} s2 s4" using 4 kept_trans [OF link_Init_kept [OF 3]] link_Init_kept [OF 3]
    by (auto dest: link_Init_kept split: if_splits)
  have b4: "born a b c d s s4" using born_new(1) [OF 1] kept_shape(1) [OF k] by (rule born_shape)
  have t4: "traced {a, b} s4" using traced_new [OF tr below 1] by (rule kept_shape(2) [OF k])
  have ne: "a \<noteq> b" using ab by simp
  have "born a b c d s s' \<and> traced {} s'"
  proof (cases r')
    case False
    with run obtain s5 where 5: "abandon os a s4 = Some s5" "abandon os b s5 = Some s'"
      by (simp add: start 3 4) (auto split: bind_splits)
    note k5 = abandon_kept(1) [OF 5(1), of "{a, b}"] and k6 = abandon_kept(1) [OF 5(2), of "{a, b}"]
    from kept_shape(1) [OF k6] abandon_kept(2) [OF 5(1)] have "links s' a = None"
      unfolding shape_def by (metis not_None_eq)
    with abandon_kept(2) [OF 5(2)] traced_gone [OF kept_shape(2) [OF k6 kept_shape(2) [OF k5 t4]]] have "traced {} s'" by auto
    with born_shape [OF born_shape [OF b4 kept_shape(1) [OF k5]] kept_shape(1) [OF k6]] show ?thesis ..
  next
    case True
    with run obtain s5 s6 s7 s8 s9 s10 l b' s11 ev where 5: "upd_link a (\<lambda>l. l\<lparr>other := Some b\<rparr>) s4 = Some s5"
      "upd_link b (\<lambda>l. l\<lparr>other := Some a\<rparr>) s5 = Some s6" "IncRef a s6 = Some s7" "IncRef b s7 = Some s8"
      "EventLoop_Add os (Some a) ev s8 = Some s9" "EventLoop_Add os (Some b) ev s9 = Some s10"
      "links s10 a = Some l" "Buffer_Write os kResponse (out l) s10 = Some (b', s11)" "upd_link a (\<lambda>l. l\<lparr>out := b'\<rparr>) s11 = Some s'"
      by (simp add: start 3 4) (elim bind_SomeE, clarsimp)
    have b5: "born a b c d s s5" using b4 ne 5(1) by (rule born_join)
    have b6: "born a b c d s s6" using b5 ne 5(2) by (rule born_join)
    have t5: "traced {a, b} s5"
    proof (rule traced_join [OF t4 5(1)])
      show "other m \<noteq> Some b" if "links s4 z = Some m" "z \<noteq> a" for z m
      proof (cases "z = b")
        case True
        then show ?thesis using bornD(3) [OF b4, of m] that(1) ne by auto
      next
        case False
        with bornD(4) [OF b4 that] obtain m0 where "links s z = Some m0" "other m = other m0" by blast
        with below [OF this(1), of b] ab show ?thesis by auto
      qed
    qed (use bornD(2) [OF b4] in auto)
    have t6: "traced {a, b} s6"
    proof (rule traced_join [OF t5 5(2)])
      show "other m \<noteq> Some a" if "links s5 z = Some m" "z \<noteq> b" for z m
      proof (cases "z = a")
        case True
        then show ?thesis using bornD(2) [OF b5, of m] that(1) ne by auto
      next
        case False
        with bornD(4) [OF b5 that(1) _ that(2)] obtain m0 where "links s z = Some m0" "other m = other m0" by blast
        with below [OF this(1), of a] ab show ?thesis by auto
      qed
    qed (use bornD(3) [OF b5] in auto)
    have k8: "kept {a, b} s6 s8" using IncRef_kept [OF 5(3)] IncRef_kept [OF 5(4)] by (rule kept_trans)
    have b8: "born a b c d s s8" using b6 kept_shape(1) [OF k8] by (rule born_shape)
    have "a < brk s8" using bornD(1) [OF b8] ab by simp
    from add_both_traced [OF inv f b8 ne this kept_shape(2) [OF k8 t6] 5(5,6)] have t10: "traced {} s10" .
    have b10: "born a b c d s s10"
      using b8 EventLoop_Add_result(1) [OF 5(5)] EventLoop_Add_result(1) [OF 5(6)] by (blast intro: born_shape)
    note w = Buffer_Write_trace [OF 5(8)]
    have "kept {} s10 s11" using w(1,2) by (rule kept_world)
    also have "kept {} s11 s'" using upd_out_kept [OF 5(9) _ w(3,4)] 5(7) more_same(1) [OF w(1)] by simp
    finally show ?thesis using b10 t10 kept_shape by (blast intro: born_shape)
  qed
  with ab show "born (brk s) (Suc (brk s)) c d s s'" "traced {} s'" by simp_all
qed

section \<open>The invariant\<close>

text \<open>Every tunnel, and every tunnel still to be made, joins a client and a server socket that \<open>P\<close> relates.\<close>

definition paired :: "(fd \<Rightarrow> fd \<Rightarrow> bool) \<Rightarrow> fwd \<Rightarrow> bool" where
  "paired P s \<longleftrightarrow> (\<forall>c d. NewLink c d \<in> set (sched s) \<longrightarrow> P c d) \<and>
     (\<forall>a l b e f. links s a = Some l \<longrightarrow> is_client l \<longrightarrow> other l = Some b \<longrightarrow> ehs s a = Some e \<longrightarrow> ehs s b = Some f \<longrightarrow>
        P (eh_fd e) (eh_fd f))"

lemma paired_mono: "paired P s \<Longrightarrow> (\<And>c d. P c d \<Longrightarrow> Q c d) \<Longrightarrow> paired Q s"
  unfolding paired_def by blast

lemma paired_kept:
  assumes "paired P s" and "kept A s s'" and "set (sched s') \<subseteq> set (sched s)"
  shows "paired P s'"
proof -
  have "P (eh_fd e') (eh_fd f')" if 1: "links s' a = Some l'" "is_client l'" "other l' = Some b" "ehs s' a = Some e'" "ehs s' b = Some f'"
    for a l' b e' f'
  proof -
    from assms(2) 1 obtain l e f where "links s a = Some l" "is_client l" "other l = Some b"
      "ehs s a = Some e" "eh_fd e' = eh_fd e" "ehs s b = Some f" "eh_fd f' = eh_fd f" unfolding kept_def shape_def by metis
    with assms(1) show ?thesis unfolding paired_def by simp
  qed
  with assms(1,3) show ?thesis unfolding paired_def by blast
qed

lemma paired_born:
  assumes inv: "linv os t s" and p: "paired P s" "P c d" and b: "born (brk s) (Suc (brk s)) c d s s'"
    and sch: "set (sched s') \<subseteq> set (sched s)"
  shows "paired P s'"
proof -
  let ?a = "brk s" and ?b = "Suc (brk s)"
  have old: "o' < ?a" if "links s x = Some l" "other l = Some o'" for x l o'
  proof -
    from linv_link [OF inv that(1)] that(2) show ?thesis by (auto simp: link_ok_def split: option.splits)
  qed
  have "P (eh_fd e) (eh_fd f)" if 1: "links s' x = Some l'" "is_client l'" "other l' = Some y" "ehs s' x = Some e" "ehs s' y = Some f"
    for x l' y e f
  proof -
    note lx = bornD(2-4) [OF b] and ex = bornD(5-7) [OF b]
    show ?thesis
    proof (cases "x = ?a")
      case True
      with lx(1) [of l'] 1(1,3) have "y = ?b" by simp
      with True ex(1) [of e] ex(2) [of f] 1(4,5) p(2) show ?thesis by simp
    next
      case False
      with lx(2) [of l'] 1(1,2) have x: "x \<noteq> ?b" by blast
      with lx(3) [OF 1(1)] False 1(2,3) obtain l where l: "links s x = Some l" "is_client l" "other l = Some y" by auto
      from old [OF l(1,3)] have "y \<noteq> ?a" "y \<noteq> ?b" by simp_all
      with ex(3) [OF 1(4)] ex(3) [OF 1(5)] False x obtain e0 f0 where "ehs s x = Some e0" "eh_fd e = eh_fd e0" "ehs s y = Some f0"
        "eh_fd f = eh_fd f0" by auto
      with p(1) l show ?thesis unfolding paired_def by simp
    qed
  qed
  moreover have "P c' d'" if "NewLink c' d' \<in> set (sched s')" for c' d' using that sch p(1) unfolding paired_def by blast
  ultimately show ?thesis unfolding paired_def by blast
qed

lemma kept_same_paired:
  fixes s s' :: fwd
  shows "paired P s \<Longrightarrow> links s' = links s \<Longrightarrow> ehs s' = ehs s \<Longrightarrow> sched s' = sched s \<Longrightarrow> paired P s'"
  by (simp add: paired_def)

lemma fwd_run_paired:
  assumes inv: "linv os t s" and f: "sched s = f # fs" and p: "paired P s" "traced {} s"
    and run: "fwd_run os opt f (s\<lparr>sched := fs\<rparr>) = Some s'" and "sched s' = fs"
  shows "paired P s' \<and> traced {} s'"
proof (cases f)
  case (NewLink c d)
  let ?s = "s\<lparr>sched := fs\<rparr>"
  have s: "paired P ?s" "P c d" using p(1) f NewLink by (simp_all add: paired_def)
  have t: "traced {} ?s" by (rule kept_shape(2) [OF kept_same p(2)]) simp_all
  have "c \<noteq> d" "{c, d} \<inter> dom (interest (hist ?s)) = {}"
    using inv f NewLink by (auto simp: linv_def sched_ok_def)
  from New_traced [OF linv_pop [OF inv f] this t, of opt s'] run NewLink
  have "born (brk ?s) (Suc (brk ?s)) c d ?s s'" "traced {} s'" by simp_all
  with paired_born [OF linv_pop [OF inv f] s] assms(6) show ?thesis by simp
qed

text \<open>So the event loop keeps it.\<close>

lemma kept_inv: "kept {} s s' \<Longrightarrow> sched s' = sched s \<Longrightarrow> paired P s \<and> traced {} s \<Longrightarrow> paired P s' \<and> traced {} s'"
  by (auto intro: paired_kept dest: kept_shape(2))

interpretation pairs: event_handlers os "Link_OnEvent os lf" "Link_OnTimeout os" "Link_dtor os"
  "fwd_run os opt" "\<lambda>t s. (fwd_env os mu opt \<and> linv os t s) \<and> paired P s \<and> traced {} s"
  for os lf opt mu P
proof (unfold_locales, goal_cases)
  case (1 t s)
  then show ?case using fwd.inv_evl by blast
next
  case (2 t s now)
  have "kept {} s (log_event (Clock_now now) s)" by (rule kept_same) (simp_all add: log_event_def)
  with kept_inv [OF this _ conjunct2 [OF 2(1)]] fwd.inv_clock [OF conjunct1 [OF 2(1)]] show ?case by (simp add: log_event_def)
next
  case (3 t s n ms r k)
  have "kept {} s (log_event (Epoll_wait n ms r) (s\<lparr>events_size := k\<rparr>))" by (rule kept_same) (simp_all add: log_event_def)
  with kept_inv [OF this _ conjunct2 [OF 3(1)]] fwd.inv_wait [OF conjunct1 [OF 3(1)]] show ?case by (simp add: log_event_def)
next
  case (4 t s a)
  then show ?case using fwd.inv_held by blast
next
  case (5 t s a e)
  have "kept {} s (s\<lparr>ehs := (ehs s)(a \<mapsto> e\<lparr>ref_count := ref_count e + 1\<rparr>)\<rparr>)" using 5 by (intro kept_upd_eh) auto
  with kept_inv [OF this _ conjunct2 [OF 5(1)]] fwd.inv_IncRef [OF conjunct1 [OF 5(1)] 5(2,3)] show ?case by simp
next
  case (6 t s a)
  from fwd.inv_DecRef [OF conjunct1 [OF 6(1)] 6(2)] obtain s' where s': "DecRef (Link_dtor os) a s = Some s'"
    "fwd_env os mu opt \<and> linv os (t(a := t a - 1)) s'" "sched s' = sched s" "registered s' = registered s" by blast
  with kept_inv [OF DecRef_kept [OF s'(1)] s'(3) conjunct2 [OF 6(1)]] show ?case by blast
next
  case (7 t s a ev)
  from fwd.on_event [OF conjunct1 [OF 7(1)] 7(2,3)] obtain s' where s': "Link_OnEvent os lf a ev s = Some s'"
    "fwd_env os mu opt \<and> linv os t s'" "sched s' = sched s" by blast
  with kept_inv [OF Link_OnEvent_kept [OF s'(1)] s'(3) conjunct2 [OF 7(1)]] show ?case by blast
next
  case (8 t s a)
  from fwd.on_timeout [OF conjunct1 [OF 8(1)] 8(2,3)] obtain s' where s': "Link_OnTimeout os a s = Some s'"
    "fwd_env os mu opt \<and> linv os t s'" "sched s' = sched s" "\<not> registered s' a" "\<forall>b. registered s' b \<longrightarrow> registered s b" by blast
  with kept_inv [OF Link_OnTimeout_kept [OF s'(1)] s'(3) conjunct2 [OF 8(1)]] show ?case by blast
next
  case (9 t s f fs)
  from fwd.run [OF conjunct1 [OF 9(1)] 9(2)] obtain s' where s': "fwd_run os opt f (s\<lparr>sched := fs\<rparr>) = Some s'"
    "fwd_env os mu opt \<and> linv os t s'" "sched s' = fs" by blast
  from fwd_run_paired [OF _ 9(2) _ _ s'(1,3)] 9(1) have "paired P s' \<and> traced {} s'" by blast
  with s' show ?case by blast
qed

text \<open>So passes of the loop keep it.\<close>

lemma pass_paired:
  assumes "fwd_env os mu opt" and "epoll_wait_ok os" and "linv os (\<lambda>_. 0) s" and "wakeup_ok os s"
    and "fwd_pass os lf opt s = Some s'" and "paired P s" and "traced {} s"
  shows "paired P s' \<and> traced {} s'"
proof -
  from assms(1,3,6,7) have i: "(fwd_env os mu opt \<and> linv os (\<lambda>_. 0) s) \<and> paired P s \<and> traced {} s" by simp
  show ?thesis
    using pairs.Loop_body_ok [OF i assms(2,4) fwd_pass_waits [OF assms(5)], of lf] assms(5) by (auto simp: fwd_pass_def)
qed

text \<open>A forwarder starts with no links.\<close>

lemma quiet_trace:
  assumes "\<forall>e \<in> set es. quiet e"
  shows "owner es = (\<lambda>f. None) \<and> (\<forall>f a. received f a es = [] \<and> sent f a es = [])"
  using assms
proof (induction es)
  case (Cons e es)
  have "owner (e # es) = owner es"
  proof (cases e)
    case (Epoll_ctl op f ev p r)
    have "interest (e # []) = interest []" using Cons.prems by (simp add: quiet_def)
    then show ?thesis by (auto simp: Epoll_ctl split: if_splits)
  qed auto
  with Cons show ?case by (auto split: event.splits sum.splits)
qed simp

lemma paired_ctor:
  assumes "Forwarder_ctor os opt blank_fwd = Some s0"
  shows "paired P s0" and "traced {} s0"
proof -
  have e: "EventLoop_ctor os (read_write_timeout opt) blank_fwd = Some s0" using assms by (simp add: Forwarder_ctor_def)
  note c = EventLoop_ctor_inv [OF e]
  have s0: "sched s0 = []" "ehs s0 = Map.empty" "links s0 = Map.empty"
    using c linv_ctor [OF assms] by (auto simp: blank_fwd_def on_loop_thread_def linv_def)
  then show "paired P s0" by (simp add: paired_def)
  from EventLoop_ctor_result [OF e] obtain es where h: "hist s0 = Epoll_ctl CTL_ADD (pipe_rd s0) EPOLLIN None 0 # es"
    "\<forall>e \<in> set es. quiet e" by (auto simp: blank_fwd_def)
  from quiet_trace [OF h(2)] show "traced {} s0" by (intro tracedI) (simp_all add: s0 h(1))
qed

lemma paired_forward:
  assumes "Forwarder_Forward os opt c d (s\<lparr>cur_tid := tid\<rparr>) = Some f" and "tid \<noteq> loop_tid s" and "paired P s" and "P c d"
  shows "paired P (f\<lparr>cur_tid := cur_tid s\<rparr>)"
proof -
  have "f = (schedule_link c d s)\<lparr>cur_tid := tid\<rparr>" using Forwarder_Forward_iff [OF assms(2)] assms(1) by blast
  then have "f\<lparr>cur_tid := cur_tid s\<rparr> = schedule_link c d s" by (simp only: schedule_link_tid)
  then show ?thesis using assms(3,4) by (auto simp: paired_def schedule_link_def)
qed

section \<open>Reachable states\<close>

lemma fwd_running_traced:
  assumes "fwd_running os mu lf opt s"
  shows "traced {} s"
proof -
  from assms obtain s0 where env: "fwd_env os mu opt" "epoll_wait_ok os"
    and c: "Forwarder_ctor os opt blank_fwd = Some s0" and r: "fwd_reach os lf opt s0 s"
    by (auto simp: fwd_running_def)
  from r have "fwd_running os mu lf opt s \<and> traced {} s"
  proof (induction rule: fwd_reach.induct)
    case start
    show ?case using env c paired_ctor(2) [OF c] by (auto simp: fwd_running_def intro: fwd_reach.start)
  next
    case (forward s c d tid s')
    have "s' = (schedule_link c d s)\<lparr>cur_tid := tid\<rparr>"
      using Forwarder_Forward_iff [OF forward.hyps(4), of os opt c d s'] forward.hyps(5) by simp
    then have s': "s'\<lparr>cur_tid := cur_tid s\<rparr> = schedule_link c d s" by (simp only: schedule_link_tid)
    have "kept {} s (schedule_link c d s)" by (rule kept_same) (simp_all add: schedule_link_def)
    moreover have "fwd_running os mu lf opt (s'\<lparr>cur_tid := cur_tid s\<rparr>)"
      using fwd_reach.forward [OF _ forward.hyps(2-5)] forward.IH by (auto simp: fwd_running_def)
    ultimately show ?case using forward.IH kept_shape(2) s' by auto
  next
    case (pass s s')
    then have run: "fwd_running os mu lf opt s" and t: "traced {} s" by simp_all
    from pass_paired [OF env fwd_running_linv [OF run] pass.hyps(2,3) _ t, of "\<lambda>c d. True"] have "traced {} s'"
      by (simp add: paired_def)
    moreover have "fwd_running os mu lf opt s'"
      using fwd_reach.pass [OF _ pass.hyps(2,3)] run by (auto simp: fwd_running_def)
    ultimately show ?case by simp
  qed
  then show ?thesis ..
qed

lemma fwd_pass_paired:
  assumes "fwd_running os mu lf opt s" and "wakeup_ok os s" and "fwd_pass os lf opt s = Some s'" and "paired P s"
  shows "paired P s'"
  using pass_paired [OF fwd_running_envD [OF assms(1)] fwd_running_linv [OF assms(1)] assms(2-4) fwd_running_traced [OF assms(1)]] ..

text \<open>The two ends of a tunnel, and the bytes on their way from the socket of one to the socket of the other.\<close>

definition delivers :: "fwd \<Rightarrow> addr \<Rightarrow> addr \<Rightarrow> bool" where
  "delivers s a b \<longleftrightarrow> (\<exists>l e f. links s a = Some l \<and> ehs s a = Some e \<and> ehs s b = Some f \<and>
     (let given = (if is_client l then kResponse else []) @ received (eh_fd f) b (hist s) in
        prefix (sent (eh_fd e) a (hist s)) given \<and>
        (writable l \<longrightarrow> sent (eh_fd e) a (hist s) @ k_data (out l) = given)) \<and>
     (open_link l \<longrightarrow> owner (hist s) (eh_fd e) = Some a))"

lemma tunnel_delivers:
  assumes run: "fwd_running os mu lf opt s" and l: "links s a = Some l"
  shows "\<exists>b r. other l = Some b \<and> links s b = Some r \<and> other r = Some a \<and> is_client r = (\<not> is_client l) \<and> delivers s a b"
proof -
  note t = fwd_running_traced [OF run] and inv = fwd_running_linv [OF run]
  from linv_link [OF inv l] show ?thesis
  proof (cases rule: link_okE)
    case (peer e b r)
    from linv_link [OF inv peer(6)] obtain f where f: "ehs s b = Some f" by (auto simp: link_ok_def)
    have "k_out (out l) = sent (eh_fd e) a (hist s)" "k_src (out l) = received (eh_fd f) b (hist s)"
      "open_link l \<Longrightarrow> owner (hist s) (eh_fd e) = Some a"
      using tracedD(1-3) [OF t l] peer(1,3) f by blast+
    then have "delivers s a b"
      using l peer(1,9) f unfolding delivers_def pair_ok_def flow_ok_def buffer_ok_def by (auto simp: Let_def)
    with peer show ?thesis by blast
  qed simp
qed

section \<open>Properties\<close>

text \<open>
  C2: Bytes are forwarded in order and unchanged.  In every reachable state, the other end of each link is a link back to it,
  and the bytes that have been spliced to the socket of a link, as the history of system calls says, are a prefix of the bytes that have been
  spliced from the socket of the other end, preceded on the client's side by the response to the \<open>CONNECT\<close> request;
  while the link can be written to, the rest are the bytes in its pipe.
\<close>

theorem forwarder_delivers_in_order:
  assumes "fwd_running os mu lf opt s" and "links s a = Some l"
  shows "\<exists>b r e f. other l = Some b \<and> links s b = Some r \<and> other r = Some a \<and> is_client r = (\<not> is_client l) \<and>
    ehs s a = Some e \<and> ehs s b = Some f \<and> (open_link l \<longrightarrow> owner (hist s) (eh_fd e) = Some a) \<and>
    (let given = (if is_client l then kResponse else []) @ received (eh_fd f) b (hist s) in
       prefix (sent (eh_fd e) a (hist s)) given \<and>
       (writable l \<longrightarrow> sent (eh_fd e) a (hist s) @ k_data (out l) = given))"
  using tunnel_delivers [OF assms] assms(2) unfolding delivers_def by fastforce

theorem forwarder_delivers_in_order_witness:
  "\<exists>s l b e f. fwd_running demo_os demo_mu True default_fwd_options s \<and> links s 0 = Some l \<and> other l = Some b \<and>
     ehs s 0 = Some e \<and> ehs s b = Some f \<and>
     prefix (sent (eh_fd e) 0 (hist s)) (kResponse @ received (eh_fd f) b (hist s))"
proof -
  from demo_running_linked obtain s l where s: "fwd_running demo_os demo_mu True default_fwd_options s"
    "links s 0 = Some l" "is_client l" by blast
  from forwarder_delivers_in_order [OF s(1,2)] s(3) obtain b e f where "other l = Some b" "ehs s 0 = Some e" "ehs s b = Some f"
    "prefix (sent (eh_fd e) 0 (hist s)) (kResponse @ received (eh_fd f) b (hist s))" by (auto simp: Let_def)
  with s show ?thesis by blast
qed

end
