(* ===== verification/Parser.thy ===== *)
theory Parser
  imports Event_Dispatch Sock "HOL-Library.Sublist"
begin

text \<open>
  The parser of \<open>CONNECT\<close> requests: \<open>src/src/parser.h\<close> and \<open>src/src/parser.cc\<close>.  The state
  extends that of the event loop by \<open>phs\<close>, the fields of \<open>ParseEventHandler\<close>: the size of the
  vector \<open>content_\<close> and its first \<open>size_\<close> bytes.  Calling the callback of handler \<open>a\<close> is the
  event \<open>Parser_callback a\<close>.
\<close>

section \<open>String views\<close>

text \<open>
  \<open>std::string_view::substr\<close>, which throws when the position lies behind the end, and
  \<open>find_first_of\<close>, with \<open>None\<close> for \<open>npos\<close>.
\<close>

definition sv_substr :: "string \<Rightarrow> nat \<Rightarrow> nat \<Rightarrow> string option" where
  "sv_substr s pos n = (if pos \<le> length s then Some (take n (drop pos s)) else None)"

definition find_first_of :: "string \<Rightarrow> string \<Rightarrow> nat \<Rightarrow> nat option" where
  "find_first_of s cs start =
     (let skip = length (takeWhile (\<lambda>c. c \<notin> set cs) (drop start s))
      in if start + skip < length s then Some (start + skip) else None)"

definition npos :: nat where
  "npos = 2 ^ 64 - 1"

section \<open>The code\<close>

definition kConnectPrefix :: string where
  "kConnectPrefix = ''CONNECT ''"

definition CRLFCRLF :: string where
  "CRLFCRLF = [CHR 0x0D, CHR 0x0A, CHR 0x0D, CHR 0x0A]"

definition host_end :: string where
  "host_end = [CHR '' '', CHR 0x0D]"

definition EndsWith :: "string \<Rightarrow> string \<Rightarrow> bool" where
  "EndsWith s suffx \<longleftrightarrow> length s \<ge> length suffx \<and> drop (length s - length suffx) s = suffx"

text \<open>
  One round of the loop in \<open>Read\<close> after \<open>read\<close> has put the bytes \<open>bs\<close> behind \<open>content\<close>: what
  \<open>Read\<close> returns, or \<open>None\<close> to go on, and the new content.
\<close>

definition parse_chunk :: "nat \<Rightarrow> string \<Rightarrow> string \<Rightarrow> (string option \<times> string) option" where
  "parse_chunk cap content bs =
     (let ret = length bs;
          siz = length content;
          n = min ret (length kConnectPrefix - siz)
      in if siz < length kConnectPrefix \<and> take n bs \<noteq> take n (drop siz kConnectPrefix)
         then Some (Some [], content)
         else
           let content = content @ bs in
           if EndsWith content CRLFCRLF then do {
             let start = length kConnectPrefix;
             host_port \<leftarrow> sv_substr content start
               ((case find_first_of content host_end start of Some p \<Rightarrow> p | None \<Rightarrow> npos) - start);
             Some (Some host_port, content)
           }
           else if ret = 0 then Some (Some [], content)
           else if length content = cap then Some (Some [], content)
           else Some (None, content))"

text \<open>
  The loop of \<open>Read\<close>: its result, the new content and the state.  Bytes behind the end of
  \<open>content_\<close> would be undefined behaviour.
\<close>

lemma parse_chunk_More:
  assumes "parse_chunk cap content bs = Some (None, content')"
  shows "content' = content @ bs" and "bs \<noteq> []" and "length content' \<noteq> cap"
  using assms by (auto simp: parse_chunk_def Let_def split: if_splits Option.bind_splits)

function parse_read ::
  "os \<Rightarrow> fd \<Rightarrow> nat \<Rightarrow> string \<Rightarrow> 'a world_scheme \<Rightarrow> (string option \<times> string \<times> 'a world_scheme) option" where
  "parse_read os f cap content s =
     (case sys_read os f (cap - length content) s of (r, s) \<Rightarrow>
       (case r of
          Inl e \<Rightarrow>
            if e = EAGAIN \<or> e = EWOULDBLOCK then Some (None, content, s) else Some (Some [], content, s)
        | Inr bs \<Rightarrow>
            if length content + length bs > cap then None
            else (case parse_chunk cap content bs of
                None \<Rightarrow> None
              | Some (Some host_port, content) \<Rightarrow> Some (Some host_port, content, s)
              | Some (None, content) \<Rightarrow> parse_read os f cap content s)))"
  by pat_completeness auto

termination
proof (relation "measure (\<lambda>(os, f, cap, content, s). cap - length content)", goal_cases)
  case (2 os f cap content s x y bs x2 xa ya)
  then have "parse_chunk cap content bs = Some (None, ya)" by simp
  from parse_chunk_More [OF this] have "length ya = length content + length bs" "bs \<noteq> []"
    "length ya \<noteq> cap" by simp_all
  with 2 show ?case by (cases bs) simp_all
qed simp

declare parse_read.simps [simp del]

record ph =
  ph_cap :: nat
  ph_content :: string

record parser_options =
  max_request_size_bytes :: nat
  accept_timeout :: duration

definition default_parser_options :: parser_options where
  "default_parser_options = \<lparr>max_request_size_bytes = 1024, accept_timeout = 5 * 1000000000\<rparr>"

datatype parser_func = AddHandler addr

record parser = "parser_func evl" +
  phs :: "addr \<rightharpoonup> ph"

definition new_ParseEventHandler :: "parser_options \<Rightarrow> fd \<Rightarrow> parser \<Rightarrow> (addr \<times> parser) option" where
  "new_ParseEventHandler opt f s = do {
     (a, s) \<leftarrow> new_EventHandler f s;
     Some (a, s\<lparr>phs := (phs s)(a \<mapsto> \<lparr>ph_cap = max_request_size_bytes opt, ph_content = []\<rparr>)\<rparr>)
   }"

definition Parse_dtor :: "addr \<Rightarrow> parser \<Rightarrow> parser option" where
  "Parse_dtor a s = do { p \<leftarrow> phs s a; Some (s\<lparr>phs := (phs s)(a := None)\<rparr>) }"

definition Parse_Finish :: "os \<Rightarrow> addr \<Rightarrow> string \<Rightarrow> parser \<Rightarrow> parser option" where
  "Parse_Finish os a host_port s = do {
     s \<leftarrow> EventLoop_Remove os Parse_dtor (Some a) s;
     cb \<leftarrow> phs s a;
     Some (log_event (Parser_callback a host_port) s)
   }"

definition Parse_Read :: "os \<Rightarrow> addr \<Rightarrow> parser \<Rightarrow> (string option \<times> parser) option" where
  "Parse_Read os a s = do {
     e \<leftarrow> ehs s a;
     p \<leftarrow> phs s a;
     CHECK (length (ph_content p) < ph_cap p);
     (r, content, s) \<leftarrow> parse_read os (eh_fd e) (ph_cap p) (ph_content p) s;
     Some (r, s\<lparr>phs := (phs s)(a \<mapsto> p\<lparr>ph_content := content\<rparr>)\<rparr>)
   }"

definition Parse_OnEvent :: "os \<Rightarrow> addr \<Rightarrow> epoll_events \<Rightarrow> parser \<Rightarrow> parser option" where
  "Parse_OnEvent os a events s =
     (if HasBits events EPOLLERR then do {
        e \<leftarrow> ehs s a;
        (err, s) \<leftarrow> SockError os (eh_fd e) s;
        Parse_Finish os a [] s
      }
      else if HasBits events EPOLLIN then do {
        (r, s) \<leftarrow> Parse_Read os a s;
        (case r of Some host_port \<Rightarrow> Parse_Finish os a host_port s | None \<Rightarrow> Some s)
      }
      else Some s)"

definition Parse_OnTimeout :: "os \<Rightarrow> addr \<Rightarrow> parser \<Rightarrow> parser option" where
  "Parse_OnTimeout os a s = Parse_Finish os a [] s"

primrec parser_run :: "os \<Rightarrow> parser_func \<Rightarrow> parser \<Rightarrow> parser option" where
  "parser_run os (AddHandler a) s = EventLoop_Add os (Some a) EPOLLIN s"

definition ParseRequest :: "os \<Rightarrow> parser_options \<Rightarrow> fd \<Rightarrow> parser \<Rightarrow> parser option" where
  "ParseRequest os opt f s = do {
     CHECK (f \<ge> 0);
     (a, s) \<leftarrow> new_ParseEventHandler opt f s;
     ScheduleOrRun (parser_run os) (Some (AddHandler a)) s
   }"

definition Parser_ctor :: "os \<Rightarrow> parser_options \<Rightarrow> parser \<Rightarrow> parser option" where
  "Parser_ctor os opt s = EventLoop_ctor os (accept_timeout opt) s"

section \<open>What a request is\<close>

text \<open>
  The format the source documents: \<open>CONNECT\<close>, a blank, the host and port up to a blank or the
  end of the line, anything, and an empty line.
\<close>

definition is_request :: "string \<Rightarrow> bool" where
  "is_request req \<longleftrightarrow> (\<exists>rest. req = kConnectPrefix @ rest @ CRLFCRLF)"

definition host_port_of :: "string \<Rightarrow> string" where
  "host_port_of req = takeWhile (\<lambda>c. c \<notin> set host_end) (drop (length kConnectPrefix) req)"

text \<open>The content so far can still become a request.\<close>

definition compatible :: "string \<Rightarrow> bool" where
  "compatible content \<longleftrightarrow> prefix content kConnectPrefix \<or> prefix kConnectPrefix content"

lemma EndsWith_suffix: "EndsWith s t \<longleftrightarrow> suffix t s"
proof
  assume "EndsWith s t"
  then have "s = take (length s - length t) s @ t"
    unfolding EndsWith_def by (metis append_take_drop_id)
  then show "suffix t s" unfolding suffix_def by blast
qed (auto simp: EndsWith_def suffix_def)

lemma prefix_iff_take: "prefix xs ys \<longleftrightarrow> take (length xs) ys = xs"
  by (metis append_eq_conv_conj prefix_def take_is_prefix)

lemma take_drop_prefix:
  assumes "compatible content"
  shows "(length content < length kConnectPrefix \<and>
      take (min (length bs) (length kConnectPrefix - length content)) bs \<noteq>
      take (min (length bs) (length kConnectPrefix - length content)) (drop (length content) kConnectPrefix)) \<longleftrightarrow>
    \<not> compatible (content @ bs)"
proof (cases "length content < length kConnectPrefix")
  case True
  then have "\<not> prefix kConnectPrefix content" using prefix_length_le by fastforce
  with assms obtain rest where k: "kConnectPrefix = content @ rest"
    unfolding compatible_def by (auto elim: prefixE)
  have "compatible (content @ bs) \<longleftrightarrow> prefix bs rest \<or> prefix rest bs"
    by (simp add: compatible_def k)
  also have "\<dots> \<longleftrightarrow> take (min (length bs) (length rest)) bs = take (min (length bs) (length rest)) rest"
    by (cases "length bs \<le> length rest") (auto simp: prefix_iff_take min_def)
  finally show ?thesis using True by (simp add: k)
next
  case False
  then have "prefix kConnectPrefix content"
    using assms unfolding compatible_def by (auto simp: prefix_iff_take)
  then show ?thesis using False by (simp add: compatible_def)
qed

lemma is_request_iff:
  "is_request req \<longleftrightarrow> prefix kConnectPrefix req \<and> suffix CRLFCRLF req"
proof
  assume r: "prefix kConnectPrefix req \<and> suffix CRLFCRLF req"
  then obtain a where a: "req = kConnectPrefix @ a" by (auto elim: prefixE)
  from r obtain b where b: "req = b @ CRLFCRLF" by (auto simp: suffix_def)
  have "length kConnectPrefix \<le> length b"
  proof (rule ccontr)
    assume "\<not> ?thesis"
    then have "req ! length b \<in> set kConnectPrefix" by (simp add: a nth_append)
    moreover have "req ! length b = CHR 0x0D" by (simp add: b CRLFCRLF_def)
    ultimately show False by (simp add: kConnectPrefix_def)
  qed
  then have "prefix kConnectPrefix b"
    using a b by (metis append_eq_append_conv_if prefix_def append_take_drop_id)
  then show "is_request req" using b by (auto simp: is_request_def elim: prefixE)
qed (auto simp: is_request_def suffix_def)

section \<open>What Read returns\<close>

lemma EndsWith_request:
  assumes "compatible req" and "suffix CRLFCRLF req"
  shows "is_request req"
proof -
  have "\<not> prefix req kConnectPrefix"
  proof
    assume "prefix req kConnectPrefix"
    then have "set req \<subseteq> set kConnectPrefix" by (auto dest: set_mono_prefix)
    moreover have "CHR 0x0D \<in> set req" using assms(2) by (auto simp: suffix_def CRLFCRLF_def)
    ultimately show False by (auto simp: kConnectPrefix_def)
  qed
  with assms show ?thesis by (simp add: compatible_def is_request_iff)
qed

lemma request_host_port:
  assumes "is_request req"
  shows "sv_substr req (length kConnectPrefix)
      ((case find_first_of req host_end (length kConnectPrefix) of Some p \<Rightarrow> p | None \<Rightarrow> npos) -
        length kConnectPrefix) = Some (host_port_of req)"
proof -
  from assms obtain rest where req: "req = kConnectPrefix @ rest @ CRLFCRLF" by (auto simp: is_request_def)
  let ?k = "length kConnectPrefix" and ?P = "\<lambda>c. c \<notin> set host_end"
  have d: "drop ?k req = rest @ CRLFCRLF" using req by simp
  have "CHR 0x0D \<in> set (rest @ CRLFCRLF)" "\<not> ?P (CHR 0x0D)" by (simp_all add: CRLFCRLF_def host_end_def)
  then have "takeWhile ?P (rest @ CRLFCRLF) \<noteq> rest @ CRLFCRLF" by (metis takeWhile_eq_all_conv)
  then have "length (takeWhile ?P (rest @ CRLFCRLF)) < length (rest @ CRLFCRLF)"
    by (metis length_takeWhile_le takeWhile_eq_take take_all le_neq_implies_less)
  then have "find_first_of req host_end ?k = Some (?k + length (takeWhile ?P (drop ?k req)))"
    using req d by (simp add: find_first_of_def Let_def)
  moreover have "take (length (takeWhile ?P (drop ?k req))) (drop ?k req) = host_port_of req"
    by (simp add: host_port_of_def takeWhile_eq_take [symmetric])
  ultimately show ?thesis using req by (simp add: sv_substr_def)
qed

lemma parse_chunk_spec:
  assumes "compatible content"
  shows "parse_chunk cap content bs =
    (let req = content @ bs in
     if \<not> compatible req then Some (Some [], content)
     else if suffix CRLFCRLF req then Some (Some (host_port_of req), req)
     else if bs = [] \<or> length req = cap then Some (Some [], req)
     else Some (None, req))"
proof -
  have "compatible (content @ bs) \<Longrightarrow> suffix CRLFCRLF (content @ bs) \<Longrightarrow> is_request (content @ bs)"
    by (rule EndsWith_request)
  then show ?thesis
    using take_drop_prefix [OF assms, of bs] request_host_port [of "content @ bs"]
    unfolding parse_chunk_def Let_def EndsWith_suffix by auto
qed

text \<open>The bytes a group of calls read from socket \<open>f\<close>, in the order they came.\<close>

primrec received :: "fd \<Rightarrow> event list \<Rightarrow> string" where
  "received f [] = []"
| "received f (e # es) = received f es @
     (case e of Read g n r \<Rightarrow> (case r of Inr bs \<Rightarrow> if g = f then bs else [] | Inl _ \<Rightarrow> []) | _ \<Rightarrow> [])"

lemma received_append: "received f (es @ fs) = received f fs @ received f es"
  by (induction es) simp_all

definition is_read :: "fd \<Rightarrow> event \<Rightarrow> bool" where
  "is_read f e \<longleftrightarrow> (\<exists>n r. e = Read f n r)"

lemma is_read_Read [simp]: "is_read f (Read g n r) \<longleftrightarrow> g = f"
  by (auto simp: is_read_def)

definition read_again :: "fd \<Rightarrow> event list \<Rightarrow> bool" where
  "read_again f es \<longleftrightarrow> (\<exists>n es'. es = Read f n (Inl EAGAIN) # es')"

definition read_ended :: "fd \<Rightarrow> event list \<Rightarrow> bool" where
  "read_ended f es \<longleftrightarrow> (\<exists>n r es'. es = Read f n r # es' \<and> (r = Inr [] \<or> (\<exists>e. r = Inl e \<and> e \<noteq> EAGAIN)))"

text \<open>
  What \<open>Read\<close> says about the bytes \<open>req\<close> it has by then: go on, or the answer for the callback.
\<close>

definition verdict :: "nat \<Rightarrow> string \<Rightarrow> bool \<Rightarrow> string option \<Rightarrow> bool" where
  "verdict cap req ended r \<longleftrightarrow>
     (case r of
        None \<Rightarrow> compatible req \<and> length req < cap \<and> \<not> suffix CRLFCRLF req
      | Some hp \<Rightarrow>
          is_request req \<and> length req \<le> cap \<and> hp = host_port_of req \<or>
          hp = [] \<and> (\<not> compatible req \<or> ended \<or> length req = cap \<and> \<not> is_request req))"

lemma parse_read_spec:
  assumes k: "read_ok os" and c: "compatible content" and len: "length content < cap"
    and no: "\<not> suffix CRLFCRLF content"
  shows "\<exists>r content' es. parse_read os f cap content s = Some (r, content', s\<lparr>hist := es @ hist s\<rparr>) \<and>
    (\<forall>e \<in> set es. is_read f e) \<and> es \<noteq> [] \<and> verdict cap (content @ received f es) (read_ended f es) r \<and>
    (r = None \<longrightarrow> content' = content @ received f es \<and> read_again f es)"
  using c len no
proof (induction "cap - length content" arbitrary: content s rule: less_induct)
  case less
  let ?n = "cap - length content"
  let ?r = "os_read os (hist s) f ?n"
  let ?e = "Read f ?n ?r"
  have sys: "sys_read os f ?n s = (?r, s\<lparr>hist := [?e] @ hist s\<rparr>)"
    by (simp add: sys_read_def Let_def log_event_def)
  note step = parse_read.simps [of os f cap content s, unfolded sys]
  show ?case
  proof (cases ?r)
    case (Inl e)
    show ?thesis
    proof (cases "e = EAGAIN")
      case True
      with less.prems Inl step show ?thesis
        by (intro exI [of _ None] exI [of _ content] exI [of _ "[?e]"])
          (simp add: verdict_def read_again_def)
    next
      case False
      with less.prems Inl step show ?thesis
        by (intro exI [of _ "Some []"] exI [of _ content] exI [of _ "[?e]"])
          (simp add: verdict_def read_ended_def)
    qed
  next
    case (Inr bs)
    have fit: "length content + length bs \<le> cap"
    proof -
      have "length bs \<le> ?n" using k Inr unfolding read_ok_def by blast
      with less.prems(2) show ?thesis by simp
    qed
    note chunk = parse_chunk_spec [OF less.prems(1), of cap bs, unfolded Let_def]
    let ?s = "s\<lparr>hist := [?e] @ hist s\<rparr>"
    show ?thesis
    proof (cases "compatible (content @ bs) \<and> \<not> suffix CRLFCRLF (content @ bs) \<and> bs \<noteq> [] \<and>
        length (content @ bs) \<noteq> cap")
      case False
      then obtain hp content' where ch: "parse_chunk cap content bs = Some (Some hp, content')"
        and v: "verdict cap (content @ bs) (bs = []) (Some hp)"
        using chunk fit EndsWith_request [of "content @ bs"] less.prems(3)
        by (auto simp: verdict_def is_request_iff split: if_splits)
      have "read_ended f [?e] \<longleftrightarrow> bs = []" using Inr by (auto simp: read_ended_def)
      with ch v Inr step fit show ?thesis
        by (intro exI [of _ "Some hp"] exI [of _ content'] exI [of _ "[?e]"]) simp
    next
      case True
      then have ch: "parse_chunk cap content bs = Some (None, content @ bs)" using chunk by simp
      have "cap - length (content @ bs) < cap - length content" "length (content @ bs) < cap"
        using True fit less.prems(2) by (cases bs; simp)+
      from less.hyps [OF this(1) _ this(2), of ?s] True obtain r content' es where
        ih: "parse_read os f cap (content @ bs) ?s = Some (r, content', ?s\<lparr>hist := es @ hist ?s\<rparr>)"
          "\<forall>e \<in> set es. is_read f e" "es \<noteq> []" "verdict cap ((content @ bs) @ received f es) (read_ended f es) r"
          "r = None \<longrightarrow> content' = (content @ bs) @ received f es \<and> read_again f es"
        by blast
      have rec: "received f (es @ [?e]) = bs @ received f es" using Inr by (simp add: received_append)
      have "read_again f (es @ [?e]) = read_again f es" "read_ended f (es @ [?e]) = read_ended f es"
        using ih(3) by (auto simp: read_again_def read_ended_def Cons_eq_append_conv append_eq_Cons_conv)
      with ih rec step Inr ch fit show ?thesis
        by (intro exI [of _ r] exI [of _ content'] exI [of _ "es @ [?e]"]) simp
    qed
  qed
qed

end
