(* ===== verification/Event_Progress.thy ===== *)
theory Event_Progress
  imports Event_Dispatch "HOL-Library.Sublist"
begin

text \<open>
  Deadlines and progress of an event loop whose handlers are registered once and never refreshed, which is how
  the parser and the connector use it.  \<open>added_at\<close> reads from the history when a handler was registered;
  \<open>timely\<close> is the invariant that its deadline is that time plus the loop's timeout; the last section
  derives, for every infinite run, that a scheduled function is run and a registered handler is unregistered.
\<close>

section \<open>When a handler was registered\<close>

text \<open>
  The reading of the clock \<open>EventLoop::Add\<close> makes right before the first \<open>EPOLL_CTL_ADD\<close> of a handler.
\<close>

definition last_reading :: "history \<Rightarrow> time option" where
  "last_reading h = (case h of Clock_now t # h' \<Rightarrow> Some t | _ \<Rightarrow> None)"

definition adds :: "addr \<Rightarrow> event \<Rightarrow> bool" where
  "adds a e \<longleftrightarrow> (case e of Epoll_ctl op f ev p r \<Rightarrow> op = CTL_ADD \<and> p = Some a \<and> r = 0 | _ \<Rightarrow> False)"

primrec added_at :: "addr \<Rightarrow> history \<Rightarrow> time option" where
  "added_at a [] = None"
| "added_at a (e # h) = (case added_at a h of
      Some t \<Rightarrow> Some t
    | None \<Rightarrow> if adds a e then last_reading h else None)"

definition no_add :: "event list \<Rightarrow> bool" where
  "no_add es \<longleftrightarrow> (\<forall>e \<in> set es. \<forall>a. \<not> adds a e)"

lemma no_add_simps [simp]:
  "no_add []" "no_add (e # es) \<longleftrightarrow> (\<forall>a. \<not> adds a e) \<and> no_add es"
  "no_add (es @ fs) \<longleftrightarrow> no_add es \<and> no_add fs"
  by (auto simp: no_add_def)

lemma adds_simps [simp]:
  "\<not> adds a (Clock_now t)" "\<not> adds a (Epoll_wait n ms q)" "\<not> adds a (Epoll_ctl CTL_DEL f ev p r)"
  "adds a (Epoll_ctl CTL_ADD f ev p r) \<longleftrightarrow> p = Some a \<and> r = 0"
  by (simp_all add: adds_def)

lemma added_at_append: "no_add es \<Longrightarrow> added_at a (es @ h) = added_at a h"
  by (induction es) (auto split: option.split)

lemma added_at_suffix: "added_at a h = Some t \<Longrightarrow> added_at a (es @ h) = Some t"
  by (induction es) auto

lemma quiet_not_adds: "quiet e \<Longrightarrow> \<not> adds a e"
  by (cases e) (auto simp: quiet_def adds_def dest!: spec [of _ "[]"])

lemma quiet_no_add: "\<forall>e \<in> set es. quiet e \<Longrightarrow> no_add es"
  by (simp add: no_add_def quiet_not_adds)

section \<open>Deadlines\<close>

text \<open>A step that registers nothing and moves no deadline.\<close>

definition keeps :: "('f, 'x) evl_scheme \<Rightarrow> ('f, 'x) evl_scheme \<Rightarrow> bool" where
  "keeps s s' \<longleftrightarrow> timeout s' = timeout s \<and> brk s \<le> brk s' \<and>
     (\<forall>b. registered s' b \<longrightarrow> registered s b \<and> dl (ehs s') b = dl (ehs s) b) \<and>
     (\<exists>es. hist s' = es @ hist s \<and> no_add es)"

lemma keepsI:
  assumes "timeout s' = timeout s" and "brk s \<le> brk s'" and "hist s' = es @ hist s" and "no_add es"
    and "\<And>b. registered s' b \<Longrightarrow> registered s b \<and> dl (ehs s') b = dl (ehs s) b"
  shows "keeps s s'"
  using assms unfolding keeps_def by blast

lemma keeps_refl: "keeps s s"
  by (rule keepsI [of _ _ "[]"]) simp_all

lemma keeps_registered: "keeps s s' \<Longrightarrow> registered s' b \<Longrightarrow> registered s b"
  by (simp add: keeps_def)

lemma keeps_same:
  assumes "timeout s' = timeout s" and "brk s \<le> brk s'" and "hist s' = es @ hist s" and "no_add es"
    and "ehs s' = ehs s" and "self s' = self s"
  shows "keeps s s'"
  using assms by (intro keepsI [of _ _ es]) (simp_all add: registered_def)

text \<open>A step that makes no handlers and changes no sockets.\<close>

definition same_fds :: "('f, 'x) evl_scheme \<Rightarrow> ('f, 'x) evl_scheme \<Rightarrow> bool" where
  "same_fds s s' \<longleftrightarrow> (\<forall>a e'. ehs s' a = Some e' \<longrightarrow> (\<exists>e. ehs s a = Some e \<and> eh_fd e = eh_fd e'))"

lemma same_fds_refl: "ehs s' = ehs s \<Longrightarrow> same_fds s s'"
  by (simp add: same_fds_def)

lemma same_fds_upd: "ehs s a = Some e \<Longrightarrow> ehs s' = (ehs s)(a \<mapsto> e') \<Longrightarrow> eh_fd e' = eh_fd e \<Longrightarrow> same_fds s s'"
  by (simp add: same_fds_def)

lemma same_fds_del: "ehs s' = (ehs s)(a := None) \<Longrightarrow> same_fds s s'"
  by (simp add: same_fds_def)

text \<open>The deadline of a handler is fixed when it is registered; \<open>P\<close> are those still to be registered.\<close>

definition timely :: "addr set \<Rightarrow> ('f, 'x) evl_scheme \<Rightarrow> bool" where
  "timely P s \<longleftrightarrow> (\<forall>a. case added_at a (hist s) of
       None \<Rightarrow> \<not> registered s a
     | Some t \<Rightarrow> a < brk s \<and> a \<notin> P \<and> (registered s a \<longrightarrow> dl (ehs s) a = t + timeout s))"

lemma timely_registered:
  assumes "timely P s" and "registered s a"
  shows "\<exists>t. added_at a (hist s) = Some t \<and> dl (ehs s) a = t + timeout s"
proof -
  have "case added_at a (hist s) of None \<Rightarrow> \<not> registered s a
      | Some t \<Rightarrow> a < brk s \<and> a \<notin> P \<and> (registered s a \<longrightarrow> dl (ehs s) a = t + timeout s)"
    using assms(1) by (simp add: timely_def)
  with assms(2) show ?thesis by (auto split: option.splits)
qed

lemma timely_keeps:
  assumes t: "timely P s" and k: "keeps s s'" and P: "P' \<subseteq> P"
  shows "timely P' s'"
proof -
  from k obtain es where h: "added_at a (hist s') = added_at a (hist s)" for a
    by (auto simp: keeps_def added_at_append)
  show ?thesis
    using t k P unfolding timely_def h keeps_def by (fastforce split: option.splits)
qed

lemma timely_register:
  assumes t: "timely P s" and a: "a \<in> P" "a < brk s" and P: "P' \<subseteq> P - {a}"
    and h: "hist s' = Epoll_ctl CTL_ADD f ev (Some a) 0 # Clock_now now # hist s"
    and s': "timeout s' = timeout s" "brk s' = brk s" "dl (ehs s') a = now + timeout s"
    and others: "\<And>b. b \<noteq> a \<Longrightarrow> registered s' b = registered s b \<and> dl (ehs s') b = dl (ehs s) b"
  shows "timely P' s'"
  unfolding timely_def
proof
  fix b
  have "added_at a (hist s) = None" using t a(1) by (auto simp: timely_def split: option.splits)
  then have ha: "added_at b (hist s') = (if b = a then Some now else added_at b (hist s))"
    using h by (auto simp: last_reading_def split: option.splits)
  show "case added_at b (hist s') of None \<Rightarrow> \<not> registered s' b
      | Some t \<Rightarrow> b < brk s' \<and> b \<notin> P' \<and> (registered s' b \<longrightarrow> dl (ehs s') b = t + timeout s')"
  proof (cases "b = a")
    case True
    with ha s' a P show ?thesis by auto
  next
    case False
    from t have "case added_at b (hist s) of None \<Rightarrow> \<not> registered s b
      | Some t \<Rightarrow> b < brk s \<and> b \<notin> P \<and> (registered s b \<longrightarrow> dl (ehs s) b = t + timeout s)"
      by (simp add: timely_def)
    with False ha s' others [OF False] P show ?thesis by (auto split: option.splits)
  qed
qed

text \<open>
  The history ends with a reading of the clock less than \<open>d\<close> after handler \<open>a\<close> was registered.
\<close>

definition within :: "duration \<Rightarrow> addr \<Rightarrow> history \<Rightarrow> bool" where
  "within d a h \<longleftrightarrow> (\<exists>now h' t. h = Clock_now now # h' \<and> added_at a h' = Some t \<and> now < t + d)"

lemma on_time_within:
  assumes "timely P s" and "registered s a" and "on_time os s a"
  shows "within (timeout s) a (hist s)"
proof -
  from assms(3) obtain h where h: "hist s = Clock_now (os_clock os h) # h" "os_clock os h < dl (ehs s) a"
    by (auto simp: on_time_def)
  with timely_registered [OF assms(1,2)] show ?thesis by (auto simp: within_def split: option.splits)
qed

text \<open>Allocating and scheduling a new handler.\<close>

lemma timely_schedule:
  assumes t: "timely P s" and k: "keeps s s'" and P: "P' \<subseteq> insert (brk s) P"
  shows "timely P' s'"
proof -
  have "timely (insert (brk s) P) s" using t by (fastforce simp: timely_def split: option.splits)
  then show ?thesis by (rule timely_keeps [OF _ k P])
qed

section \<open>Infinite runs\<close>

text \<open>
  What is assumed of the environment for progress: every instant is reached, as each system call takes time,
  the capacity of a \<open>std::vector\<close> is at least its size, and \<open>epoll_wait\<close>, asked for as many events as there
  are descriptors, reports the wake-up pipe when a function is waiting in it.
\<close>

definition time_passes :: "os \<Rightarrow> bool" where
  "time_passes os \<longleftrightarrow> (\<forall>t. \<exists>n. \<forall>h. n \<le> length h \<longrightarrow> t \<le> os_clock os h)"

definition capacity_ok :: "os \<Rightarrow> bool" where
  "capacity_ok os \<longleftrightarrow> (\<forall>m n. n \<le> std_capacity os m n)"

definition wakeup_live :: "os \<Rightarrow> ('f, 'x) evl_scheme \<Rightarrow> bool" where
  "wakeup_live os s \<longleftrightarrow> (sched s \<noteq> [] \<longrightarrow>
     (\<forall>n \<ge> total_events s. \<forall>ms r. os_epoll_wait os (hist s) n ms = Inr r \<longrightarrow> None \<in> snd ` set r))"

text \<open>The result of waiting, with what the two hypotheses on the wake-up pipe say of it.\<close>

lemma wait_result:
  assumes inv: "evl_inv os s xs" and wait: "epoll_wait_ok os" "\<not> wait_fails os s" and ok: "wakeup_ok os s"
  shows "\<exists>ready k ms r. EPoll_Wait os (Some (timeout s)) s =
      Some (ready, log_event (Epoll_wait k ms r) (s\<lparr>events_size := k\<rparr>)) \<and>
    (\<forall>ev a. (ev, Some a) \<in> set ready \<longrightarrow> registered s a) \<and>
    length (filter (\<lambda>x. snd x = None) ready) \<le> 1 \<and>
    (None \<in> snd ` set ready \<longrightarrow> sched s \<noteq> []) \<and>
    (capacity_ok os \<and> wakeup_live os s \<and> sched s \<noteq> [] \<longrightarrow> None \<in> snd ` set ready)"
proof -
  from wait_batch [OF inv wait] obtain ready k r where
    w: "EPoll_Wait os (Some (timeout s)) s =
      Some (ready, log_event (Epoll_wait k (wait_ms (Some (timeout s))) r) (s\<lparr>events_size := k\<rparr>))"
    "os_epoll_wait os (hist s) k (wait_ms (Some (timeout s))) = Inr ready"
    "\<forall>ev a. (ev, Some a) \<in> set ready \<longrightarrow> registered s a"
    "length (filter (\<lambda>x. snd x = None) ready) \<le> 1"
    "k = (if total_events s > events_size s then std_capacity os (events_size s) (total_events s) else events_size s)"
    by blast
  have "None \<in> snd ` set ready \<longrightarrow> sched s \<noteq> []" using ok w(2) by (auto simp: wakeup_ok_def)
  moreover have "total_events s \<le> k" if "capacity_ok os"
    using that w(5) by (auto simp: capacity_ok_def)
  then have "None \<in> snd ` set ready" if "capacity_ok os" "wakeup_live os s" "sched s \<noteq> []"
    using that w(2) by (auto simp: wakeup_live_def)
  ultimately show ?thesis using w(1,3,4) by blast
qed

text \<open>The queue of scheduled functions is first in, first out.\<close>

definition queue_step :: "('f, 'x) evl_scheme \<Rightarrow> ('f, 'x) evl_scheme \<Rightarrow> bool" where
  "queue_step s s' \<longleftrightarrow> sched s' = sched s \<or> (\<exists>f. sched s' = sched s @ [f]) \<or> sched s' = tl (sched s)"

lemma eventually_run:
  assumes step: "\<And>i. queue_step (r i) (r (Suc i))" and dist: "\<And>i. distinct (sched (r i))"
    and pops: "\<And>i. \<exists>j \<ge> i. sched (r (Suc j)) = tl (sched (r j))"
    and f: "f \<in> set (sched (r i))"
  shows "\<exists>j \<ge> i. f \<notin> set (sched (r j))"
proof -
  have "\<exists>j \<ge> i. f \<notin> set (sched (r j))" if "sched (r i) = xs @ f # ys" for i xs ys
    using that
  proof (induction "length xs" arbitrary: i xs ys rule: less_induct)
    case less
    from pops [of i] obtain d where "sched (r (Suc (i + d))) = tl (sched (r (i + d)))"
      by (metis le_iff_add)
    with less.prems show ?case
    proof (induction d arbitrary: i ys)
      case 0
      show ?case
      proof (cases xs)
        case Nil
        with 0 dist [of i] have "f \<notin> set (sched (r (Suc i)))" by simp
        then show ?thesis by (intro exI [of _ "Suc i"]) simp
      next
        case (Cons x zs)
        with 0 have "sched (r (Suc i)) = zs @ f # ys" by simp
        with less.hyps [of zs "Suc i" ys] Cons obtain j where "j \<ge> Suc i" "f \<notin> set (sched (r j))" by auto
        then show ?thesis by (intro exI [of _ j]) simp
      qed
    next
      case (Suc d)
      from step [of i] have "\<exists>j \<ge> Suc i. f \<notin> set (sched (r j))"
      proof (cases "sched (r (Suc i)) = tl (sched (r i))")
        case True
        show ?thesis
        proof (cases xs)
          case Nil
          with True Suc.prems(1) dist [of i] have "f \<notin> set (sched (r (Suc i)))" by simp
          then show ?thesis by blast
        next
          case (Cons x zs)
          with True Suc.prems(1) have "sched (r (Suc i)) = zs @ f # ys" by simp
          with less.hyps [of zs "Suc i" ys] Cons show ?thesis by simp
        qed
      next
        case False
        with step [of i] Suc.prems(1) obtain zs where "sched (r (Suc i)) = xs @ f # zs"
          by (auto simp: queue_step_def)
        with Suc.IH [of "Suc i" zs] Suc.prems(2) show ?thesis by simp
      qed
      then obtain j where "j \<ge> Suc i" "f \<notin> set (sched (r j))" by blast
      then show ?case by (intro exI [of _ j]) simp
    qed
  qed
  with f show ?thesis by (meson split_list)
qed

text \<open>A handler whose deadline is fixed does not stay registered for ever.\<close>

lemma history_grows:
  assumes mono: "\<And>i. suffix (hist (r i)) (hist (r (Suc i)))" and "i \<le> j"
  shows "suffix (hist (r i)) (hist (r j))"
  using assms(2) by (induction rule: dec_induct) (auto intro: suffix_order.trans mono)

lemma history_unbounded:
  assumes mono: "\<And>i. suffix (hist (r i)) (hist (r (Suc i)))"
    and pass: "\<And>i. \<exists>j \<ge> i. length (hist (r j)) < length (hist (r (Suc j)))"
  shows "\<exists>j \<ge> i. n \<le> length (hist (r j))"
proof (induction n)
  case (Suc n)
  then obtain j where j: "j \<ge> i" "n \<le> length (hist (r j))" by blast
  from pass [of j] obtain k where k: "k \<ge> j" "length (hist (r k)) < length (hist (r (Suc k)))" by blast
  have "length (hist (r j)) \<le> length (hist (r k))"
    by (intro suffix_length_le history_grows [where r = r, OF mono] k(1))
  with j k show ?case by (intro exI [of _ "Suc k"]) simp
qed auto

lemma eventually_unregistered:
  assumes time: "time_passes os" and mono: "\<And>i. suffix (hist (r i)) (hist (r (Suc i)))"
    and t: "\<And>i. timely (P i) (r i)" and d: "\<And>i. timeout (r i) = d"
    and pass: "\<And>i. \<exists>j \<ge> i. length (hist (r j)) < length (hist (r (Suc j))) \<and>
      (\<forall>a. registered (r (Suc j)) a \<longrightarrow> on_time os (r (Suc j)) a)"
  shows "\<exists>j \<ge> i. \<not> registered (r j) a"
proof (rule ccontr)
  assume "\<not> (\<exists>j \<ge> i. \<not> registered (r j) a)"
  then have reg: "registered (r j) a" if "j \<ge> i" for j using that by blast
  from timely_registered [OF t reg [of i]] d obtain u where u: "added_at a (hist (r i)) = Some u" by auto
  from time obtain n where n: "\<And>h. n \<le> length h \<Longrightarrow> u + d \<le> os_clock os h"
    unfolding time_passes_def by blast
  have "\<exists>j \<ge> i. length (hist (r j)) < length (hist (r (Suc j)))" for i using pass [of i] by blast
  from history_unbounded [where r = r, OF mono this, of i "Suc n"] obtain j where j: "j \<ge> i" "Suc n \<le> length (hist (r j))"
    by blast
  from pass [of j] obtain k where k: "k \<ge> j" "\<forall>a. registered (r (Suc k)) a \<longrightarrow> on_time os (r (Suc k)) a"
    by blast
  have "registered (r (Suc k)) a" using reg j k by simp
  with k(2) obtain h where h: "hist (r (Suc k)) = Clock_now (os_clock os h) # h"
    "os_clock os h < dl (ehs (r (Suc k))) a" by (auto simp: on_time_def)
  have "added_at a (hist (r (Suc k))) = Some u"
    using history_grows [where r = r, OF mono, of i "Suc k"] j(1) k(1) added_at_suffix [OF u] by (auto simp: suffix_def)
  with timely_registered [OF t \<open>registered (r (Suc k)) a\<close>] d h(2) have "os_clock os h < u + d" by auto
  moreover have "length (hist (r j)) \<le> length (hist (r (Suc k)))"
    by (intro suffix_length_le history_grows [where r = r, OF mono]) (use k(1) in simp)
  with j(2) h(1) have "u + d \<le> os_clock os h" by (intro n) simp
  ultimately show False by simp
qed

text \<open>
  Runs in which the function \<open>mk a\<close> registers handler \<open>a\<close>, and passes happen infinitely often that take a function from
  the queue and leave no handler past its deadline.
\<close>

definition fair_run :: "os \<Rightarrow> (addr \<Rightarrow> 'f) \<Rightarrow> (nat \<Rightarrow> ('f, 'x) evl_scheme) \<Rightarrow> bool" where
  "fair_run os mk r \<longleftrightarrow>
     (\<forall>i. suffix (hist (r i)) (hist (r (Suc i))) \<and> brk (r i) \<le> brk (r (Suc i)) \<and> queue_step (r i) (r (Suc i)) \<and>
        (\<forall>a < brk (r i). mk a \<in> set (sched (r (Suc i))) \<longrightarrow> mk a \<in> set (sched (r i)))) \<and>
     (\<forall>i. distinct (sched (r i)) \<and> (\<exists>P. timely P (r i)) \<and> timeout (r i) = timeout (r 0)) \<and>
     (\<forall>i. \<exists>j \<ge> i. sched (r (Suc j)) = tl (sched (r j)) \<and> length (hist (r j)) < length (hist (r (Suc j))) \<and>
        (\<forall>a. registered (r (Suc j)) a \<longrightarrow> on_time os (r (Suc j)) a))"

lemma fair_runD:
  assumes "fair_run os mk r"
  shows "suffix (hist (r i)) (hist (r (Suc i)))" and "brk (r i) \<le> brk (r (Suc i))" and "queue_step (r i) (r (Suc i))"
    and "a < brk (r i) \<Longrightarrow> mk a \<in> set (sched (r (Suc i))) \<Longrightarrow> mk a \<in> set (sched (r i))"
    and "distinct (sched (r i))" and "\<exists>P. timely P (r i)" and "timeout (r i) = timeout (r 0)"
    and "\<exists>j \<ge> i. sched (r (Suc j)) = tl (sched (r j))"
    and "\<exists>j \<ge> i. length (hist (r j)) < length (hist (r (Suc j))) \<and>
        (\<forall>a. registered (r (Suc j)) a \<longrightarrow> on_time os (r (Suc j)) a)"
  using assms unfolding fair_run_def by blast+

lemma fair_run_grows:
  assumes "fair_run os mk r" and "i \<le> j"
  shows "suffix (hist (r i)) (hist (r j))" and "brk (r i) \<le> brk (r j)"
  using history_grows [where r = r, OF fair_runD(1) [OF assms(1)] assms(2)]
    lift_Suc_mono_le [of "\<lambda>i. brk (r i)", OF fair_runD(2) [OF assms(1)] assms(2)] by simp_all

lemma fair_run_settles:
  assumes r: "fair_run os mk r" and time: "time_passes os" and a: "a < brk (r i)"
  shows "\<exists>j \<ge> i. mk a \<notin> set (sched (r j)) \<and> \<not> registered (r j) a"
proof -
  obtain j where j: "j \<ge> i" "mk a \<notin> set (sched (r j))"
  proof (cases "mk a \<in> set (sched (r i))")
    case True
    from eventually_run [where r = r, OF fair_runD(3,5,8) [OF r] True] that show ?thesis by blast
  qed (use that in blast)
  have np: "mk a \<notin> set (sched (r k))" if "k \<ge> j" for k
    using that
  proof (induction rule: dec_induct)
    case (step k)
    have "a < brk (r k)" using fair_run_grows(2) [OF r, of i k] j(1) step.hyps(1) a by simp
    with step.IH fair_runD(4) [OF r, of a k] show ?case by blast
  qed (rule j(2))
  from fair_runD(6) [OF r] obtain P where P: "timely (P i) (r i)" for i by metis
  from eventually_unregistered [where r = r, OF time fair_runD(1) [OF r] P fair_runD(7,9) [OF r], of j a]
  obtain k where "k \<ge> j" "\<not> registered (r k) a" by blast
  with np [of k] j(1) show ?thesis by (intro exI [of _ k]) simp
qed

end
