(* ===== verification/Parser_Session.thy ===== *)
theory Parser_Session
  imports Parser Event_Progress
begin

text \<open>
  What a client has sent to the parser, read from the history: the socket a handler was registered with and the bytes
  read from it until it was unregistered.  The invariant \<open>said\<close> says that a handler keeps these bytes
  and that its callback gets the host and port they ask for.
\<close>

section \<open>Sessions\<close>

text \<open>The socket, the bytes read from it, and whether the handler is still registered.\<close>

primrec session :: "addr \<Rightarrow> history \<Rightarrow> (fd \<times> string \<times> bool) option" where
  "session a [] = None"
| "session a (e # h) = (case session a h of
      None \<Rightarrow> (case e of Epoll_ctl op f ev p r \<Rightarrow> if adds a e then Some (f, [], True) else None | _ \<Rightarrow> None)
    | Some (f, bs, opened) \<Rightarrow> Some (f, bs @ (if opened then received f [e] else []),
        opened \<and> (case e of Epoll_ctl op g ev p r \<Rightarrow> \<not> (op = CTL_DEL \<and> g = f \<and> r = 0) | _ \<Rightarrow> True)))"

text \<open>Reading from a socket or asking for its error.\<close>

definition on_fd :: "fd \<Rightarrow> event \<Rightarrow> bool" where
  "on_fd f e \<longleftrightarrow> (case e of Read g n r \<Rightarrow> g = f | Getsockopt g r \<Rightarrow> g = f | _ \<Rightarrow> False)"

lemma on_fd_simps [simp]: "on_fd f (Read g n r) \<longleftrightarrow> g = f" "on_fd f (Getsockopt g q) \<longleftrightarrow> g = f"
  "\<not> on_fd f (Epoll_ctl op g ev p q')" "\<not> on_fd f (Parser_callback a hp)"
  by (simp_all add: on_fd_def)

lemma on_fd_callback: "\<forall>e \<in> set es. on_fd f e \<Longrightarrow> Parser_callback a hp \<notin> set es"
  by auto

lemma session_on_fd:
  assumes "\<forall>e \<in> set es. on_fd g e"
  shows "session a (es @ h) = map_option (\<lambda>(f, bs, opened). (f, bs @ (if opened \<and> f = g then received g es else []), opened)) (session a h)"
  using assms
proof (induction es)
  case Nil
  show ?case by (cases "session a h") auto
next
  case (Cons e es)
  then show ?case by (cases e; cases "session a h") (auto split: sum.splits)
qed

text \<open>Events that concern no session.\<close>

definition unheard :: "event \<Rightarrow> bool" where
  "unheard e \<longleftrightarrow> (case e of Clock_now t \<Rightarrow> True | Epoll_wait n ms r \<Rightarrow> True | _ \<Rightarrow> False)"

lemma session_unheard:
  assumes "\<forall>e \<in> set es. unheard e"
  shows "session a (es @ h) = session a h" and "Parser_callback a hp \<in> set (es @ h) \<longleftrightarrow> Parser_callback a hp \<in> set h"
proof -
  show "session a (es @ h) = session a h"
    using assms by (induction es) (auto simp: unheard_def split: event.splits option.splits)
  show "Parser_callback a hp \<in> set (es @ h) \<longleftrightarrow> Parser_callback a hp \<in> set h"
    using assms by (auto simp: unheard_def)
qed

lemma session_no_add: "no_add es \<Longrightarrow> session a h = None \<Longrightarrow> session a (es @ h) = None"
  by (induction es) (auto split: event.splits)

lemma session_later: "session a h = Some (f, bs, opened) \<Longrightarrow> \<exists>bs' opened'. session a (es @ h) = Some (f, bs', opened')"
  by (induction es) auto

section \<open>The invariant\<close>

definition said_at :: "bool \<Rightarrow> addr \<Rightarrow> bool \<Rightarrow> history \<Rightarrow> addr \<Rightarrow> eh option \<Rightarrow> ph option \<Rightarrow> bool" where
  "said_at pend b reg h a eo po \<longleftrightarrow> (case session a h of
      None \<Rightarrow> \<not> reg \<and> (\<forall>hp. Parser_callback a hp \<notin> set h)
    | Some (f, bs, opened) \<Rightarrow> a < b \<and> \<not> pend \<and> opened = reg \<and>
        (reg \<longrightarrow> (\<forall>hp. Parser_callback a hp \<notin> set h) \<and>
           (\<exists>e p. eo = Some e \<and> po = Some p \<and> eh_fd e = f \<and> ph_content p = bs)) \<and>
        (\<forall>hp. Parser_callback a hp \<in> set h \<longrightarrow> hp = [] \<or> is_request bs \<and> hp = host_port_of bs))"

definition said :: "addr set \<Rightarrow> parser \<Rightarrow> bool" where
  "said P s \<longleftrightarrow> (\<forall>a. said_at (a \<in> P) (brk s) (registered s a) (hist s) a (ehs s a) (phs s a))"

lemma said_at: "said P s \<Longrightarrow> said_at (a \<in> P) (brk s) (registered s a) (hist s) a (ehs s a) (phs s a)"
  by (simp add: said_def)

lemma said_registered:
  assumes "said P s" and "registered s a"
  shows "\<exists>e p. ehs s a = Some e \<and> phs s a = Some p \<and> session a (hist s) = Some (eh_fd e, ph_content p, True)"
  using said_at [OF assms(1), of a] assms(2) by (auto simp: said_at_def split: option.splits)

lemma said_callback:
  assumes "said P s" and "Parser_callback a hp \<in> set (hist s)" and "hp \<noteq> []"
  shows "\<exists>f bs. session a (hist s) = Some (f, bs, False) \<and> is_request bs \<and> hp = host_port_of bs"
  using said_at [OF assms(1), of a] assms(2,3) by (auto simp: said_at_def split: option.splits)

text \<open>Steps that concern no client.\<close>

lemma said_same:
  assumes said: "said P s" and h: "hist s' = es @ hist s" "\<forall>e \<in> set es. unheard e"
    and P: "P' \<subseteq> insert (brk s) P" and b: "brk s \<le> brk s'"
    and same: "\<And>a. registered s' a = registered s a"
      "\<And>a. registered s a \<Longrightarrow> map_option eh_fd (ehs s' a) = map_option eh_fd (ehs s a) \<and> phs s' a = phs s a"
  shows "said P' s'"
  unfolding said_def
proof
  fix a
  have "session a (hist s) = Some x \<Longrightarrow> a < brk s" for x
    using said_at [OF said, of a] by (cases x) (auto simp: said_at_def)
  then show "said_at (a \<in> P') (brk s') (registered s' a) (hist s') a (ehs s' a) (phs s' a)"
    using said_at [OF said, of a] P b same(2) [of a]
    unfolding said_at_def h(1) session_unheard [OF h(2)] same(1)
    by (auto split: option.splits)
qed

definition same_clients :: "parser \<Rightarrow> parser \<Rightarrow> bool" where
  "same_clients s s' \<longleftrightarrow> registered s' = registered s \<and>
     (\<forall>a. registered s a \<longrightarrow> map_option eh_fd (ehs s' a) = map_option eh_fd (ehs s a) \<and> phs s' a = phs s a)"

lemma said_same_clients:
  assumes "said P s" and "same_clients s s'" and "hist s' = es @ hist s" and "\<forall>e \<in> set es. unheard e" and "brk s \<le> brk s'"
  shows "said P s'"
  using assms by (intro said_same [OF assms(1,3,4)]) (auto simp: same_clients_def)

text \<open>The sockets of handlers and sessions, given by \<open>F\<close>.\<close>

definition fd_by :: "(addr \<Rightarrow> fd) \<Rightarrow> parser \<Rightarrow> bool" where
  "fd_by F s \<longleftrightarrow> (\<forall>a e. ehs s a = Some e \<longrightarrow> eh_fd e = F a) \<and>
     (\<forall>a f bs opened. session a (hist s) = Some (f, bs, opened) \<longrightarrow> f = F a)"

lemma fd_by_keeps:
  assumes F: "fd_by F s" and "keeps s s'" and fds: "same_fds s s'"
  shows "fd_by F s'"
proof -
  from assms(2) obtain es where es: "hist s' = es @ hist s" "no_add es" by (auto simp: keeps_def)
  have "f = F a" if "session a (hist s') = Some (f, bs, opened)" for a f bs opened
  proof (cases "session a (hist s)")
    case None
    with that es session_no_add show ?thesis by simp
  next
    case (Some y)
    obtain g bs' opened' where "y = (g, bs', opened')" by (cases y)
    with Some session_later [of a "hist s" g bs' opened' es] that es F show ?thesis by (auto simp: fd_by_def)
  qed
  moreover have "eh_fd e = F a" if "ehs s' a = Some e" for a e
    using that fds F by (force simp: same_fds_def fd_by_def)
  ultimately show ?thesis by (simp add: fd_by_def)
qed

lemma fd_by_register:
  assumes F: "fd_by F s" and a: "ehs s a = Some e"
    and h: "hist s' = Epoll_ctl CTL_ADD (eh_fd e) ev (Some a) 0 # Clock_now now # hist s" and fds: "same_fds s s'"
  shows "fd_by F s'"
proof -
  have "f = F b" if "session b (hist s') = Some (f, bs, opened)" for b f bs opened
    using that h F a by (cases "session b (hist s)") (auto simp: fd_by_def split: if_splits)
  moreover have "eh_fd e = F b" if "ehs s' b = Some e" for b e
    using that fds F by (force simp: same_fds_def fd_by_def)
  ultimately show ?thesis by (simp add: fd_by_def)
qed

lemma fd_by_new:
  assumes F: "fd_by F s" and said: "said P s" and s': "ehs s' = (ehs s)(brk s \<mapsto> e)" "eh_fd e = f" "hist s' = hist s"
  shows "fd_by (F(brk s := f)) s'"
proof -
  have "a \<noteq> brk s" if "session a (hist s) = Some x" for a x
    using that said_at [OF said, of a] by (cases x) (auto simp: said_at_def)
  with F s' show ?thesis by (auto simp: fd_by_def)
qed

text \<open>A pending handler is registered.\<close>

lemma said_register:
  assumes said: "said P s" and a: "a \<in> P" "a < brk s" and P: "P' \<subseteq> P - {a}"
    and h: "hist s' = Epoll_ctl CTL_ADD f ev (Some a) 0 # Clock_now now # hist s"
    and s': "brk s' = brk s" "ehs s' a = Some e" "eh_fd e = f" "phs s' = phs s" "phs s a = Some p" "ph_content p = []" "registered s' a"
    and others: "\<And>b. b \<noteq> a \<Longrightarrow> registered s' b = registered s b \<and> ehs s' b = ehs s b"
  shows "said P' s'"
  unfolding said_def
proof
  fix b
  have none: "session a (hist s) = None" using said_at [OF said, of a] a(1) by (auto simp: said_at_def split: option.splits)
  show "said_at (b \<in> P') (brk s') (registered s' b) (hist s') b (ehs s' b) (phs s' b)"
  proof (cases "b = a")
    case True
    with none h s' a P said_at [OF said, of a] show ?thesis by (auto simp: said_at_def)
  next
    case False
    have "session b (hist s') = session b (hist s)" using False h by (auto split: option.splits)
    then show ?thesis
      using False said_at [OF said, of b] h s' P others [of b] by (auto simp: said_at_def split: option.splits)
  qed
qed

text \<open>An event of a registered handler: it keeps what it has read, or it is unregistered and answers.\<close>

definition only :: "addr \<Rightarrow> parser \<Rightarrow> parser \<Rightarrow> bool" where
  "only a s s' \<longleftrightarrow> self s' = self s \<and> brk s' = brk s \<and> (\<forall>b. b \<noteq> a \<longrightarrow> ehs s' b = ehs s b \<and> phs s' b = phs s b)"

lemma only_refl: "only a s s"
  by (simp add: only_def)

lemma said_other:
  assumes said: "said P s" and x: "evl_inv os s xs" and reg: "registered s a" and e: "ehs s a = Some e"
    and es: "\<forall>x \<in> set es. on_fd (eh_fd e) x" and only: "only a s s'" and b: "b \<noteq> a"
    and h: "hist s' = es @ hist s \<or> hist s' = Parser_callback a hp # Epoll_ctl CTL_DEL (eh_fd e) 0 None 0 # es @ hist s"
  shows "said_at (b \<in> P) (brk s') (registered s' b) (hist s') b (ehs s' b) (phs s' b)"
proof -
  have same: "registered s' b = registered s b" "ehs s' b = ehs s b" "phs s' b = phs s b" "brk s' = brk s"
    using only b by (simp_all add: only_def registered_def)
  have cb: "Parser_callback b hp' \<in> set (hist s') \<longleftrightarrow> Parser_callback b hp' \<in> set (hist s)" for hp'
    using h on_fd_callback [OF es] b by auto
  have "session b (hist s') = session b (hist s)"
  proof (cases "session b (hist s)")
    case None
    with h session_on_fd [OF es, of b "hist s"] show ?thesis by auto
  next
    case (Some y)
    obtain f bs opened where y: "y = (f, bs, opened)" by (cases y)
    have "f \<noteq> eh_fd e" if opened
    proof -
      have rb: "registered s b" using said_at [OF said, of b] Some y that by (simp add: said_at_def)
      from said_registered [OF said this] Some y obtain d where d: "ehs s b = Some d" "f = eh_fd d" by auto
      have "inj_on (fd_of (ehs s)) (set xs)" using evl_invD(4) [OF x] by (simp add: poll_ok_def)
      moreover have "a \<in> set xs" "b \<in> set xs" using evl_inv_registered [OF x] reg rb by simp_all
      ultimately have "fd_of (ehs s) b \<noteq> fd_of (ehs s) a" using b by (auto simp: inj_on_def)
      with d e show ?thesis by (simp add: fd_of_def)
    qed
    with h session_on_fd [OF es, of b "hist s"] Some y show ?thesis by auto
  qed
  with said_at [OF said, of b] show ?thesis unfolding said_at_def same cb by simp
qed

lemma said_wait:
  assumes said: "said P s" and x: "evl_inv os s xs" and reg: "registered s a" and e: "ehs s a = Some e" and p: "phs s a = Some p"
    and es: "\<forall>x \<in> set es. on_fd (eh_fd e) x" and only: "only a s s'" and h: "hist s' = es @ hist s"
    and s': "ehs s' a = ehs s a" "phs s' a = Some (p\<lparr>ph_content := ph_content p @ received (eh_fd e) es\<rparr>)"
  shows "said P s'"
  unfolding said_def
proof
  fix b
  show "said_at (b \<in> P) (brk s') (registered s' b) (hist s') b (ehs s' b) (phs s' b)"
  proof (cases "b = a")
    case True
    have "registered s' a" using reg s'(1) only by (simp add: registered_def only_def)
    moreover have "session a (hist s') = Some (eh_fd e, ph_content p @ received (eh_fd e) es, True)"
      using said_registered [OF said reg] e p session_on_fd [OF es, of a "hist s"] h by auto
    moreover have "Parser_callback a hp \<notin> set es" for hp by (rule on_fd_callback [OF es])
    ultimately show ?thesis
      using True said_at [OF said, of a] said_registered [OF said reg] reg e p s' only h
      by (auto simp: said_at_def only_def)
  qed (use said_other [OF said x reg e es only] h in blast)
qed

lemma said_finish:
  assumes said: "said P s" and x: "evl_inv os s xs" and reg: "registered s a" and e: "ehs s a = Some e" and p: "phs s a = Some p"
    and es: "\<forall>x \<in> set es. on_fd (eh_fd e) x" and only: "only a s s'"
    and h: "hist s' = Parser_callback a hp # Epoll_ctl CTL_DEL (eh_fd e) 0 None 0 # es @ hist s"
    and s': "\<not> registered s' a"
    and hp: "hp \<noteq> [] \<longrightarrow> is_request (ph_content p @ received (eh_fd e) es) \<and> hp = host_port_of (ph_content p @ received (eh_fd e) es)"
  shows "said P s'"
  unfolding said_def
proof
  fix b
  show "said_at (b \<in> P) (brk s') (registered s' b) (hist s') b (ehs s' b) (phs s' b)"
  proof (cases "b = a")
    case True
    have "session a (hist s') = Some (eh_fd e, ph_content p @ received (eh_fd e) es, False)"
      using said_registered [OF said reg] e p session_on_fd [OF es, of a "hist s"] h by auto
    moreover have "Parser_callback a hp' \<notin> set es" for hp' by (rule on_fd_callback [OF es])
    ultimately show ?thesis
      using True said_at [OF said, of a] said_registered [OF said reg] reg e p s' only h hp
      by (auto simp: said_at_def only_def)
  qed (use said_other [OF said x reg e es only] h in blast)
qed

end
