(* ===== verification/Parser_Loop.thy ===== *)
theory Parser_Loop
  imports Parser_Session Demo_Kernel
begin

text \<open>
  The parser as a client of the event loop: its invariant, the interpretation of
  \<open>event_handlers\<close> with the class \<open>ParseEventHandler\<close>, and what it guarantees for every request.
\<close>

section \<open>The invariant\<close>

text \<open>How often the callback of a handler has been called.\<close>

primrec calls :: "addr \<Rightarrow> history \<Rightarrow> nat" where
  "calls a [] = 0"
| "calls a (e # h) = calls a h + (case e of Parser_callback b hp \<Rightarrow> if b = a then 1 else 0 | _ \<Rightarrow> 0)"

definition pending :: "parser \<Rightarrow> addr set" where
  "pending s = {a. AddHandler a \<in> set (sched s)}"

text \<open>
  A handler is first pending (allocated, its registration scheduled), then registered, then
  answered (its callback called, the references on the stack keep it alive), then freed.
\<close>

definition ph_ok :: "nat \<Rightarrow> bool \<Rightarrow> history \<Rightarrow> addr \<Rightarrow> eh \<Rightarrow> ph \<Rightarrow> bool" where
  "ph_ok n pend h a e p \<longleftrightarrow>
     ref_count e = int n + of_bool (event_loop e \<noteq> None) \<and>
     (pend \<longrightarrow> event_loop e = None \<and> n = 0 \<and> eh_fd e \<notin> dom (interest h) \<and> ph_content p = []) \<and>
     (\<not> pend \<longrightarrow> ref_count e > 0) \<and>
     (pend \<or> event_loop e \<noteq> None \<longrightarrow> compatible (ph_content p) \<and>
        length (ph_content p) < ph_cap p \<and> \<not> suffix CRLFCRLF (ph_content p)) \<and>
     calls a h = of_bool (\<not> pend \<and> event_loop e = None)"

definition at_ok :: "nat \<Rightarrow> bool \<Rightarrow> addr \<Rightarrow> history \<Rightarrow> addr \<Rightarrow> eh option \<Rightarrow> ph option \<Rightarrow> bool" where
  "at_ok n pend b h a eo po \<longleftrightarrow>
     (case eo of
        None \<Rightarrow> po = None \<and> n = 0 \<and> \<not> pend \<and> calls a h = of_bool (a < b)
      | Some e \<Rightarrow> \<exists>p. po = Some p \<and> ph_ok n pend h a e p)"

definition pinv :: "os \<Rightarrow> (addr \<Rightarrow> nat) \<Rightarrow> parser \<Rightarrow> bool" where
  "pinv os t s \<longleftrightarrow>
     (\<exists>xs. evl_inv os s xs) \<and>
     (\<forall>a. at_ok (t a) (a \<in> pending s) (brk s) (hist s) a (ehs s a) (phs s a)) \<and>
     distinct (sched s) \<and> inj_on (fd_of (ehs s)) (pending s)"

lemma pinv_evl: "pinv os t s \<Longrightarrow> \<exists>xs. evl_inv os s xs"
  by (simp add: pinv_def)

lemma pinv_at: "pinv os t s \<Longrightarrow> at_ok (t a) (a \<in> pending s) (brk s) (hist s) a (ehs s a) (phs s a)"
  by (simp add: pinv_def)

lemma pinv_handler:
  "pinv os t s \<Longrightarrow> ehs s a = Some e \<Longrightarrow>
   \<exists>p. phs s a = Some p \<and> ph_ok (t a) (a \<in> pending s) (hist s) a e p"
  using pinv_at [of os t s a] by (simp add: at_ok_def)

lemma pinv_none:
  "pinv os t s \<Longrightarrow> ehs s a = None \<Longrightarrow>
   phs s a = None \<and> t a = 0 \<and> a \<notin> pending s \<and> calls a (hist s) = of_bool (a < brk s)"
  using pinv_at [of os t s a] by (simp add: at_ok_def)

lemma pinv_held: "pinv os t s \<Longrightarrow> t a > 0 \<Longrightarrow> ehs s a \<noteq> None"
  using pinv_none by fastforce

lemma pinvI:
  assumes "evl_inv os s xs" and "distinct (sched s)" and "inj_on (fd_of (ehs s)) (pending s)"
    and "\<And>a. at_ok (t a) (a \<in> pending s) (brk s) (hist s) a (ehs s a) (phs s a)"
  shows "pinv os t s"
  using assms unfolding pinv_def by blast

text \<open>Calls that neither answer a request nor change the interest list.\<close>

definition silent :: "event list \<Rightarrow> bool" where
  "silent es \<longleftrightarrow> (\<forall>e \<in> set es. (\<forall>h. interest (e # h) = interest h) \<and> (\<forall>a h. calls a (e # h) = calls a h))"

lemma silent_append:
  assumes "silent es"
  shows "interest (es @ h) = interest h" and "calls a (es @ h) = calls a h"
proof -
  have "interest (es @ h) = interest h \<and> calls a (es @ h) = calls a h"
    using assms
  proof (induction es)
    case (Cons e es)
    then have "interest (e # (es @ h)) = interest (es @ h)" "calls a (e # (es @ h)) = calls a (es @ h)"
      unfolding silent_def by (meson list.set_intros(1))+
    with Cons show ?case by (simp add: silent_def del: interest.simps calls.simps)
  qed simp
  then show "interest (es @ h) = interest h" "calls a (es @ h) = calls a h" by simp_all
qed

lemma silent_simps [simp]:
  "silent []" "silent (Clock_now t # es) = silent es" "silent (Epoll_wait n ms r # es) = silent es"
  "silent (Read f k q # es) = silent es" "silent (Getsockopt f g # es) = silent es"
  by (auto simp: silent_def)

lemma at_ok_silent: "silent es \<Longrightarrow> at_ok n pend b (es @ h) a eo po = at_ok n pend b h a eo po"
  by (simp add: at_ok_def ph_ok_def silent_append cong: option.case_cong)

lemma pinv_cong:
  assumes inv: "pinv os t s" and ev: "evl_inv os s' xs" and "ehs s' = ehs s" and "phs s' = phs s"
    and "brk s' = brk s" and "sched s' = sched s" and h: "hist s' = es @ hist s" "silent es"
  shows "pinv os t s'"
proof (rule pinvI [OF ev])
  have p: "pending s' = pending s" using assms(6) by (simp add: pending_def)
  show "distinct (sched s')" "inj_on (fd_of (ehs s')) (pending s')"
    using inv assms p by (simp_all add: pinv_def)
  show "at_ok (t a) (a \<in> pending s') (brk s') (hist s') a (ehs s' a) (phs s' a)" for a
    using pinv_at [OF inv, of a] assms p by (simp add: at_ok_silent)
qed

lemma pinv_log:
  assumes inv: "pinv os t s" and mono: "clock_mono os" and e: "silent [e]"
  shows "pinv os t (log_event e (s\<lparr>events_size := k\<rparr>))"
proof -
  from pinv_evl [OF inv] obtain xs where "evl_inv os s xs" by blast
  then have "evl_inv os (s\<lparr>events_size := k\<rparr>) xs" by (simp add: evl_inv_def on_loop_thread_def)
  with mono silent_append(1) [OF e] have "evl_inv os (log_event e (s\<lparr>events_size := k\<rparr>)) xs"
    by (intro evl_inv_log) simp_all
  with inv show ?thesis by (rule pinv_cong [where es = "[e]"]) (simp_all add: log_event_def e)
qed

section \<open>Reference counts\<close>

lemma pinv_refs:
  assumes inv: "pinv os t s" and a: "ehs s a = Some e" "a \<notin> pending s"
    and r: "r = ref_count e + int n - int (t a)" "r > 0"
  shows "pinv os (t(a := n)) (s\<lparr>ehs := (ehs s)(a \<mapsto> e\<lparr>ref_count := r\<rparr>)\<rparr>)"
proof -
  let ?s = "s\<lparr>ehs := (ehs s)(a \<mapsto> e\<lparr>ref_count := r\<rparr>)\<rparr>"
  from pinv_evl [OF inv] obtain xs where x: "evl_inv os s xs" by blast
  have p: "pending ?s = pending s" by (simp add: pending_def)
  have f: "fd_of (ehs ?s) = fd_of (ehs s)" using fd_of_same [of "ehs s" a e] a by simp
  show ?thesis
  proof (rule pinvI)
    show "evl_inv os ?s xs" using evl_inv_refs [OF x a(1), of r] r by simp
    show "distinct (sched ?s)" "inj_on (fd_of (ehs ?s)) (pending ?s)"
      unfolding p f using inv by (simp_all add: pinv_def)
    show "at_ok ((t(a := n)) b) (b \<in> pending ?s) (brk ?s) (hist ?s) b (ehs ?s b) (phs ?s b)" for b
      unfolding p using pinv_at [OF inv, of b] a r
      by (cases "b = a") (auto simp: at_ok_def ph_ok_def)
  qed
qed

lemma pinv_DecRef:
  assumes inv: "pinv os t s" and pos: "t a > 0"
  shows "\<exists>s'. DecRef Parse_dtor a s = Some s' \<and> pinv os (t(a := t a - 1)) s' \<and> sched s' = sched s \<and>
    registered s' = registered s \<and> hist s' = hist s \<and> brk s' = brk s \<and> keeps s s' \<and>
    same_clients s s' \<and> same_fds s s'"
proof -
  from pinv_held [OF inv pos] obtain e where e: "ehs s a = Some e" by blast
  from pinv_handler [OF inv e] obtain p where p: "phs s a = Some p" "ph_ok (t a) (a \<in> pending s) (hist s) a e p"
    by blast
  then have np: "a \<notin> pending s" and rc: "ref_count e = int (t a) + of_bool (event_loop e \<noteq> None)"
    using pos by (auto simp: ph_ok_def)
  show ?thesis
  proof (cases "ref_count e = 1")
    case False
    let ?s = "s\<lparr>ehs := (ehs s)(a \<mapsto> e\<lparr>ref_count := ref_count e - 1\<rparr>)\<rparr>"
    have gt: "ref_count e > 1" using False rc pos by (cases "event_loop e") auto
    then have "DecRef Parse_dtor a s = Some ?s" using e by (simp add: DecRef_def)
    moreover have "pinv os (t(a := t a - 1)) ?s"
      by (rule pinv_refs [OF inv e np]) (use pos gt in auto)
    moreover have "registered ?s = registered s" using e by (auto simp: registered_def fun_eq_iff)
    moreover from this e have "keeps s ?s" by (intro keepsI [of _ _ "[]"]) (auto simp: dl_def)
    moreover from calculation(3) e have "same_clients s ?s" by (auto simp: same_clients_def)
    moreover have "same_fds s ?s" by (rule same_fds_upd [OF e, where e' = "e\<lparr>ref_count := ref_count e - 1\<rparr>"]) simp_all
    ultimately show ?thesis by (intro exI [of _ ?s]) simp
  next
    case True
    with rc pos have un: "event_loop e = None" and t1: "t a = 1" by (auto split: if_splits simp: of_bool_def)
    let ?s = "s\<lparr>ehs := (ehs s)(a := None), nodes := (nodes s)(a := None), phs := (phs s)(a := None)\<rparr>"
    have run: "DecRef Parse_dtor a s = Some ?s"
      using e p True un by (simp add: DecRef_def delete_EventHandler_def Parse_dtor_def)
    from pinv_evl [OF inv] obtain xs where x: "evl_inv os s xs" by blast
    have na: "a \<notin> set xs" by (rule evl_inv_detached(1) [OF x e un])
    have lt: "a < brk s" using evl_inv_eh [OF x e] by (simp add: eh_ok_def)
    have one: "calls a (hist s) = 1" using p(2) np un by (simp add: ph_ok_def)
    have "pinv os (t(a := t a - 1)) ?s"
    proof (rule pinvI)
      show "evl_inv os ?s xs"
        using evl_inv_free [OF x na] by (simp add: evl_inv_def on_loop_thread_def)
      have "fd_of ((ehs s)(a := None)) b = fd_of (ehs s) b" if "b \<in> pending s" for b
        using that np by (auto simp: fd_of_def)
      then have "inj_on (fd_of ((ehs s)(a := None))) (pending s) = inj_on (fd_of (ehs s)) (pending s)"
        by (rule inj_on_cong)
      then show "inj_on (fd_of (ehs ?s)) (pending ?s)" using inv by (simp add: pinv_def pending_def)
      show "at_ok ((t(a := t a - 1)) b) (b \<in> pending ?s) (brk ?s) (hist ?s) b (ehs ?s b) (phs ?s b)" for b
        using pinv_at [OF inv, of b] np lt one t1 by (cases "b = a") (simp_all add: at_ok_def pending_def)
    qed (use inv in \<open>simp add: pinv_def\<close>)
    moreover have reg: "registered ?s = registered s"
      using e un by (auto simp: registered_def fun_eq_iff)
    moreover have "keeps s ?s"
    proof (rule keepsI [of _ _ "[]"])
      fix b assume "registered ?s b"
      with reg show "registered s b \<and> dl (ehs ?s) b = dl (ehs s) b"
        using e un by (auto simp: dl_def registered_def)
    qed simp_all
    moreover have "same_clients s ?s" using reg e un by (auto simp: same_clients_def registered_def)
    moreover have "same_fds s ?s" by (rule same_fds_del) simp
    ultimately show ?thesis using run by (intro exI [of _ ?s]) simp
  qed
qed

section \<open>Answering a request\<close>

text \<open>\<open>Finish\<close>, after the handler's own fields may have changed and \<open>es\<close> has happened.\<close>

lemma Parse_Finish_ok:
  assumes k: "epoll_ctl_ok os" "clock_mono os" and inv: "pinv os t s" and held: "t a > 0"
    and reg: "registered s a" and es: "\<forall>e \<in> set es. quiet e" "silent es"
  shows "\<exists>s'. Parse_Finish os a hp (s\<lparr>hist := es @ hist s, phs := (phs s)(a \<mapsto> p')\<rparr>) = Some s' \<and>
    pinv os t s' \<and> sched s' = sched s \<and> brk s' = brk s \<and> \<not> registered s' a \<and>
    keeps s s' \<and> only a s s' \<and> same_fds s s' \<and>
    hist s' = Parser_callback a hp # Epoll_ctl CTL_DEL (fd_of (ehs s) a) 0 None 0 # es @ hist s"
proof -
  let ?s = "s\<lparr>hist := es @ hist s, phs := (phs s)(a \<mapsto> p')\<rparr>"
  from reg obtain e where e: "ehs s a = Some e" "event_loop e = Some (self s)" by (auto simp: registered_def)
  from pinv_handler [OF inv e(1)] e(2) held have rc: "ref_count e = int (t a) + 1" and np: "a \<notin> pending s"
    and c0: "calls a (hist s) = 0" by (auto simp: ph_ok_def)
  from pinv_evl [OF inv] obtain xs where x: "evl_inv os s xs" by blast
  have mem: "a \<in> set xs" using evl_inv_registered [OF x] reg by simp
  have "evl_inv os (s\<lparr>hist := es @ hist s\<rparr>) xs" by (rule evl_inv_logs [OF x k(2) es(1)])
  then have x1: "evl_inv os ?s xs" by (simp add: evl_inv_def on_loop_thread_def)
  have "ehs ?s a = Some e" "ref_count e \<ge> 2" using e rc held by auto
  from EventLoop_Remove_spec [OF x1 k mem this, of Parse_dtor] obtain ns l s1 where
    1: "EventLoop_Remove os Parse_dtor (Some a) ?s = Some s1"
      "s1 = ?s\<lparr>nodes := ns, expire := l, hist := Epoll_ctl CTL_DEL (eh_fd e) 0 None 0 # hist ?s,
           total_events := total_events ?s - 1,
           ehs := (ehs ?s)(a \<mapsto> e\<lparr>event_loop := None, ref_count := ref_count e - 1\<rparr>)\<rparr>"
      "evl_inv os s1 (remove1 a xs)" by blast
  let ?e = "e\<lparr>event_loop := None, ref_count := ref_count e - 1\<rparr>"
  let ?s' = "log_event (Parser_callback a hp) s1"
  have h: "hist ?s' = Parser_callback a hp # Epoll_ctl CTL_DEL (eh_fd e) 0 None 0 # es @ hist s"
    and es': "ehs ?s' = (ehs s)(a \<mapsto> ?e)" "phs ?s' = (phs s)(a \<mapsto> p')" "brk ?s' = brk s" "sched ?s' = sched s"
    using 1(2) by (simp_all add: log_event_def)
  have p: "pending ?s' = pending s" using es'(4) by (simp add: pending_def)
  have "pinv os t ?s'"
  proof (rule pinvI)
    show "evl_inv os ?s' (remove1 a xs)" using 1(3) k(2) by (intro evl_inv_log) simp_all
    have "fd_of (ehs ?s') = fd_of (ehs s)" using fd_of_same [of "ehs s" a e ?e] e es'(1) by simp
    then show "distinct (sched ?s')" "inj_on (fd_of (ehs ?s')) (pending ?s')"
      using inv p es'(4) by (simp_all add: pinv_def)
    show "at_ok (t b) (b \<in> pending ?s') (brk ?s') (hist ?s') b (ehs ?s' b) (phs ?s' b)" for b
    proof (cases "b = a")
      case True
      then show ?thesis
        unfolding p h es' using rc np held c0 by (simp add: at_ok_def ph_ok_def silent_append [OF es(2)])
    next
      case False
      with pinv_at [OF inv, of b] show ?thesis
        unfolding p h es' by (auto simp: at_ok_def ph_ok_def silent_append [OF es(2)] split: option.splits)
    qed
  qed
  moreover have "Parse_Finish os a hp ?s = Some ?s'" using 1(1,2) by (simp add: Parse_Finish_def)
  moreover have "\<not> registered ?s' a" using 1(2) by (auto simp: registered_def log_event_def)
  moreover have "keeps s ?s'"
    by (rule keepsI [of _ _ "[Parser_callback a hp, Epoll_ctl CTL_DEL (eh_fd e) 0 None 0] @ es"])
      (use 1(2) quiet_no_add [OF es(1)] in \<open>auto simp: registered_def log_event_def dl_def quiet_not_adds\<close>)
  moreover have "only a s ?s'" using 1(2) by (simp add: only_def log_event_def)
  moreover have "same_fds s ?s'" by (rule same_fds_upd [OF e(1) es'(1)]) simp
  ultimately show ?thesis using h es'(3,4) fd_of_at [of "ehs s" a e] e(1) by (intro exI [of _ ?s']) simp
qed

lemma Parse_Finish_now:
  assumes "epoll_ctl_ok os" "clock_mono os" and inv: "pinv os t s" and "t a > 0" and reg: "registered s a"
    and "\<forall>e \<in> set es. quiet e" "silent es"
  shows "\<exists>s'. Parse_Finish os a hp (s\<lparr>hist := es @ hist s\<rparr>) = Some s' \<and> pinv os t s' \<and> sched s' = sched s \<and>
    brk s' = brk s \<and> \<not> registered s' a \<and> keeps s s' \<and> only a s s' \<and> same_fds s s' \<and>
    hist s' = Parser_callback a hp # Epoll_ctl CTL_DEL (fd_of (ehs s) a) 0 None 0 # es @ hist s"
proof -
  from reg pinv_handler [OF inv] obtain p where "phs s a = Some p" by (auto simp: registered_def)
  then have "s\<lparr>hist := es @ hist s, phs := (phs s)(a \<mapsto> p)\<rparr> = s\<lparr>hist := es @ hist s\<rparr>"
    by (simp add: fun_upd_idem)
  with Parse_Finish_ok [OF assms, of hp p] show ?thesis by simp
qed

section \<open>Events\<close>

lemma reads_quiet:
  assumes "\<forall>e \<in> set es. is_read f e"
  shows "\<forall>e \<in> set es. quiet e" and "silent es"
  using assms by (auto simp: is_read_def silent_def)

text \<open>Bytes that are not a whole request yet are kept.\<close>

lemma pinv_content:
  assumes k: "clock_mono os" and inv: "pinv os t s" and reg: "registered s a" and p: "phs s a = Some p"
    and es: "\<forall>e \<in> set es. quiet e" "silent es"
    and ok: "compatible content" "length content < ph_cap p" "\<not> suffix CRLFCRLF content"
  shows "pinv os t (s\<lparr>hist := es @ hist s, phs := (phs s)(a \<mapsto> p\<lparr>ph_content := content\<rparr>)\<rparr>)"
proof -
  let ?s = "s\<lparr>hist := es @ hist s, phs := (phs s)(a \<mapsto> p\<lparr>ph_content := content\<rparr>)\<rparr>"
  have pe: "pending ?s = pending s" by (simp add: pending_def)
  from pinv_evl [OF inv] obtain xs where x: "evl_inv os s xs" by blast
  have "evl_inv os (s\<lparr>hist := es @ hist s\<rparr>) xs" by (rule evl_inv_logs [OF x k es(1)])
  then have x1: "evl_inv os ?s xs" by (simp add: evl_inv_def on_loop_thread_def)
  show ?thesis
  proof (rule pinvI [OF x1])
    show "distinct (sched ?s)" "inj_on (fd_of (ehs ?s)) (pending ?s)"
      unfolding pe using inv by (simp_all add: pinv_def)
    show "at_ok (t b) (b \<in> pending ?s) (brk ?s) (hist ?s) b (ehs ?s b) (phs ?s b)" for b
    proof (cases "b = a")
      case True
      from reg obtain e where e: "ehs s a = Some e" "event_loop e \<noteq> None" by (auto simp: registered_def)
      with True pinv_handler [OF inv e(1)] p ok show ?thesis
        unfolding pe by (auto simp: at_ok_def ph_ok_def silent_append [OF es(2)])
    next
      case False
      with pinv_at [OF inv, of b] show ?thesis unfolding pe by (simp add: at_ok_silent [OF es(2)])
    qed
  qed
qed

definition parser_env :: "os \<Rightarrow> bool" where
  "parser_env os \<longleftrightarrow> epoll_ctl_ok os \<and> clock_mono os \<and> read_ok os \<and> sock_ok os"

text \<open>
  An event is answered or the handler waits for more.  The answer is the host and port of a
  complete request, or empty.
\<close>

lemma Parse_OnEvent_ok:
  assumes k: "parser_env os" and inv: "pinv os t s" and held: "t a > 0" and reg: "registered s a"
    and e: "ehs s a = Some e" and p: "phs s a = Some p"
  shows "\<exists>s' es. Parse_OnEvent os a ev s = Some s' \<and> pinv os t s' \<and> sched s' = sched s \<and> brk s' = brk s \<and>
    keeps s s' \<and> only a s s' \<and> same_fds s s' \<and> (\<forall>x \<in> set es. on_fd (eh_fd e) x) \<and>
    (ehs s' a = ehs s a \<and> hist s' = es @ hist s \<and>
       phs s' a = Some (p\<lparr>ph_content := ph_content p @ received (eh_fd e) es\<rparr>) \<or>
     (\<exists>hp. hist s' = Parser_callback a hp # Epoll_ctl CTL_DEL (eh_fd e) 0 None 0 # es @ hist s \<and>
       \<not> registered s' a \<and>
       (hp \<noteq> [] \<longrightarrow> is_request (ph_content p @ received (eh_fd e) es) \<and>
          length (ph_content p @ received (eh_fd e) es) \<le> ph_cap p \<and>
          hp = host_port_of (ph_content p @ received (eh_fd e) es))))"
proof -
  have kk: "epoll_ctl_ok os" "clock_mono os" "read_ok os" "sock_ok os" using k by (auto simp: parser_env_def)
  have fd: "fd_of (ehs s) a = eh_fd e" using fd_of_at [of "ehs s" a e] e by simp
  have ok: "compatible (ph_content p)" "length (ph_content p) < ph_cap p" "\<not> suffix CRLFCRLF (ph_content p)"
    using pinv_handler [OF inv e] reg e p by (auto simp: ph_ok_def registered_def)
  consider (err) "HasBits ev EPOLLERR" | (inp) "\<not> HasBits ev EPOLLERR" "HasBits ev EPOLLIN"
    | (other) "\<not> HasBits ev EPOLLERR" "\<not> HasBits ev EPOLLIN" by blast
  then show ?thesis
  proof cases
    case err
    from SockError_ok [OF kk(4), of "eh_fd e" s] obtain q where
      q: "SockError os (eh_fd e) s = Some (q, s\<lparr>hist := [Getsockopt (eh_fd e) (Inr (q, 4))] @ hist s\<rparr>)"
      by (auto simp: log_event_def)
    from Parse_Finish_now [OF kk(1,2) inv held reg, of "[Getsockopt (eh_fd e) (Inr (q, 4))]" "[]"]
    obtain s' where "Parse_Finish os a [] (s\<lparr>hist := [Getsockopt (eh_fd e) (Inr (q, 4))] @ hist s\<rparr>) = Some s'"
      "pinv os t s'" "sched s' = sched s" "brk s' = brk s" "\<not> registered s' a" "keeps s s'" "only a s s'" "same_fds s s'"
      "hist s' = Parser_callback a [] # Epoll_ctl CTL_DEL (eh_fd e) 0 None 0 # [Getsockopt (eh_fd e) (Inr (q, 4))] @ hist s"
      unfolding fd by auto
    with err e q show ?thesis
      by (intro exI [of _ s'] exI [of _ "[Getsockopt (eh_fd e) (Inr (q, 4))]"]) (simp add: Parse_OnEvent_def)
  next
    case inp
    from parse_read_spec [OF kk(3) ok, of "eh_fd e" s] obtain r content es where
      r: "parse_read os (eh_fd e) (ph_cap p) (ph_content p) s = Some (r, content, s\<lparr>hist := es @ hist s\<rparr>)"
        "\<forall>x \<in> set es. is_read (eh_fd e) x"
        "verdict (ph_cap p) (ph_content p @ received (eh_fd e) es) (read_ended (eh_fd e) es) r"
        "r = None \<longrightarrow> content = ph_content p @ received (eh_fd e) es"
      by blast
    let ?s = "s\<lparr>hist := es @ hist s, phs := (phs s)(a \<mapsto> p\<lparr>ph_content := content\<rparr>)\<rparr>"
    have on: "\<forall>x \<in> set es. on_fd (eh_fd e) x" using r(2) by (auto simp: is_read_def)
    have read: "Parse_Read os a s = Some (r, ?s)"
      using e p ok r(1) by (simp add: Parse_Read_def)
    show ?thesis
    proof (cases r)
      case None
      have "pinv os t ?s"
        using pinv_content [OF kk(2) inv reg p reads_quiet [OF r(2)], of content] r(3,4) None
        by (simp add: verdict_def)
      moreover have "registered ?s = registered s" by (auto simp: registered_def fun_eq_iff)
      moreover have "keeps s ?s"
        by (rule keeps_same [of _ _ es]) (simp_all add: quiet_no_add reads_quiet(1) [OF r(2)])
      moreover have "Parse_OnEvent os a ev s = Some ?s"
        using inp read None by (simp add: Parse_OnEvent_def)
      moreover have "only a s ?s" by (simp add: only_def)
      moreover have "same_fds s ?s" by (rule same_fds_refl) simp
      ultimately show ?thesis
        using reg r(4) None on by (intro exI [of _ ?s] exI [of _ es]) simp
    next
      case (Some hp)
      from Parse_Finish_ok [OF kk(1,2) inv held reg reads_quiet [OF r(2)], of hp "p\<lparr>ph_content := content\<rparr>"]
      obtain s' where "Parse_Finish os a hp ?s = Some s'" "pinv os t s'" "sched s' = sched s"
        "brk s' = brk s" "\<not> registered s' a" "keeps s s'" "only a s s'" "same_fds s s'"
        "hist s' = Parser_callback a hp # Epoll_ctl CTL_DEL (eh_fd e) 0 None 0 # es @ hist s"
        unfolding fd by blast
      moreover have "hp \<noteq> [] \<longrightarrow> is_request (ph_content p @ received (eh_fd e) es) \<and>
          length (ph_content p @ received (eh_fd e) es) \<le> ph_cap p \<and>
          hp = host_port_of (ph_content p @ received (eh_fd e) es)"
        using r(3) Some by (auto simp: verdict_def)
      ultimately show ?thesis
        using inp read Some on by (intro exI [of _ s'] exI [of _ es]) (simp add: Parse_OnEvent_def)
    qed
  next
    case other
    with inv reg p show ?thesis
      by (intro exI [of _ s] exI [of _ "[]"]) (simp add: Parse_OnEvent_def keeps_refl only_refl same_fds_refl)
  qed
qed

lemma Parse_OnTimeout_ok:
  assumes k: "parser_env os" and "pinv os t s" and "t a > 0" and "registered s a"
  shows "\<exists>s'. Parse_OnTimeout os a s = Some s' \<and> pinv os t s' \<and> sched s' = sched s \<and> brk s' = brk s \<and>
    \<not> registered s' a \<and> keeps s s' \<and> only a s s' \<and> same_fds s s' \<and>
    hist s' = Parser_callback a [] # Epoll_ctl CTL_DEL (fd_of (ehs s) a) 0 None 0 # hist s"
  using Parse_Finish_now [OF _ _ assms(2-4), of "[]" "[]"] k
  by (simp add: Parse_OnTimeout_def parser_env_def)

text \<open>A pending handler is registered.\<close>

lemma parser_run_ok:
  assumes k: "parser_env os" and inv: "pinv os t s" and f: "sched s = f # fs"
  shows "\<exists>s'. parser_run os f (s\<lparr>sched := fs\<rparr>) = Some s' \<and> pinv os t s' \<and>
    suffix (hist s) (hist s') \<and> brk s' = brk s \<and> sched s' = fs \<and> timeout s' = timeout s \<and>
    (timely (pending s) s \<longrightarrow> timely (pending s') s') \<and> (said (pending s) s \<longrightarrow> said (pending s') s') \<and>
    (\<forall>F. fd_by F s \<longrightarrow> fd_by F s')"
proof (cases f)
  case (AddHandler a)
  have kk: "epoll_ctl_ok os" "clock_mono os" using k by (auto simp: parser_env_def)
  have pa: "a \<in> pending s" using f AddHandler by (simp add: pending_def)
  then obtain e where e: "ehs s a = Some e" using pinv_none [OF inv, of a] by (cases "ehs s a") auto
  from pinv_handler [OF inv e] pa obtain p where p0: "phs s a = Some p" "ph_ok (t a) True (hist s) a e p"
    by auto
  have p: "phs s a = Some p" "ref_count e = 0" "event_loop e = None"
    "t a = 0" "eh_fd e \<notin> dom (interest (hist s))" "calls a (hist s) = 0"
    "compatible (ph_content p)" "length (ph_content p) < ph_cap p" "\<not> suffix CRLFCRLF (ph_content p)" "ph_content p = []"
    using p0 by (simp_all add: ph_ok_def compatible_def CRLFCRLF_def)
  from pinv_evl [OF inv] obtain xs where "evl_inv os s xs" by blast
  then have x: "evl_inv os (s\<lparr>sched := fs\<rparr>) xs" by (simp add: evl_inv_def on_loop_thread_def)
  from EventLoop_Add_spec [OF x kk, of a e EPOLLIN] e p obtain ns l s' where
    1: "EventLoop_Add os (Some a) EPOLLIN (s\<lparr>sched := fs\<rparr>) = Some s'" "evl_inv os s' (xs @ [a])"
      "hist s' = Epoll_ctl CTL_ADD (eh_fd e) EPOLLIN (Some a) 0 # Clock_now (os_clock os (hist s)) # hist s"
      "ehs s' = (ehs s)(a \<mapsto> e\<lparr>ref_count := 1, event_loop := Some (self s),
                                  deadline := os_clock os (hist s) + timeout s\<rparr>)"
      "phs s' = phs s" "brk s' = brk s" "sched s' = fs" "timeout s' = timeout s" "self s' = self s"
    by auto
  let ?e = "e\<lparr>ref_count := 1, event_loop := Some (self s), deadline := os_clock os (hist s) + timeout s\<rparr>"
  have d: "distinct (sched s)" and inj: "inj_on (fd_of (ehs s)) (pending s)" using inv by (simp_all add: pinv_def)
  have pe: "pending s' = pending s - {a}" using 1(7) f AddHandler d by (auto simp: pending_def)
  have fd: "fd_of (ehs s') = fd_of (ehs s)" using fd_of_same [of "ehs s" a e ?e] e 1(4) by simp
  have "pinv os t s'"
  proof (rule pinvI [OF 1(2)])
    show "distinct (sched s')" using d f 1(7) by simp
    show "inj_on (fd_of (ehs s')) (pending s')" unfolding pe fd using inj by (rule inj_on_subset) auto
    show "at_ok (t b) (b \<in> pending s') (brk s') (hist s') b (ehs s' b) (phs s' b)" for b
    proof (cases "b = a")
      case True
      then show ?thesis unfolding pe 1 using p by (simp add: at_ok_def ph_ok_def)
    next
      case False
      show ?thesis
      proof (cases "ehs s b")
        case None
        with False pinv_at [OF inv, of b] show ?thesis unfolding pe 1 by (simp add: at_ok_def)
      next
        case (Some d)
        from pinv_handler [OF inv Some] obtain q where q: "phs s b = Some q"
          "ph_ok (t b) (b \<in> pending s) (hist s) b d q" by blast
        have "b \<in> pending s \<longrightarrow> fd_of (ehs s) b \<noteq> fd_of (ehs s) a"
          using False inj pa unfolding inj_on_def by blast
        then have "b \<in> pending s \<longrightarrow> eh_fd d \<noteq> eh_fd e" using Some e by (simp add: fd_of_def)
        with q False Some show ?thesis
          unfolding pe 1 by (cases "event_loop d"; cases "b \<in> pending s") (auto simp: at_ok_def ph_ok_def)
      qed
    qed
  qed
  moreover have lt: "a < brk s" using pinv_evl [OF inv] evl_inv_eh [of os s _ a, OF _ e] by (auto simp: eh_ok_def)
  have reg: "registered s' b = registered s b \<and> dl (ehs s') b = dl (ehs s) b \<and> ehs s' b = ehs s b" if "b \<noteq> a" for b
    using that by (simp add: 1(4,9) dl_def registered_def)
  have "timely (pending s') s'" if "timely (pending s) s"
  proof (rule timely_register [OF that pa lt _ 1(3) 1(8,6)])
    show "dl (ehs s') a = os_clock os (hist s) + timeout s" by (simp add: 1(4) dl_def)
  qed (use reg pe in simp_all)
  moreover have "said (pending s') s'" if "said (pending s) s"
    by (rule said_register [OF that pa lt _ 1(3,6) _ _ 1(5) p(1,10), where e = ?e])
      (use reg pe 1(4,9) in \<open>simp_all add: registered_def\<close>)
  moreover have "fd_by F s'" if "fd_by F s" for F
    by (rule fd_by_register [OF that e 1(3) same_fds_upd [OF e 1(4)]]) simp
  ultimately show ?thesis using 1(1,3,6-8) AddHandler by (simp add: suffix_def)
qed

text \<open>
  The invariant of the interpretation also says that the deadlines are \<open>timely\<close> and what the clients have
  \<open>said\<close>, and that since the state \<open>s0\<close> the history has only grown and the loop has neither allocated
  handlers nor changed their sockets.
\<close>

definition pinv_since :: "os \<Rightarrow> parser \<Rightarrow> (addr \<Rightarrow> nat) \<Rightarrow> parser \<Rightarrow> bool" where
  "pinv_since os s0 t s \<longleftrightarrow> parser_env os \<and> pinv os t s \<and> timely (pending s) s \<and> said (pending s) s \<and>
     (\<forall>F. fd_by F s0 \<longrightarrow> fd_by F s) \<and>
     suffix (hist s0) (hist s) \<and> brk s = brk s0 \<and> timeout s = timeout s0"

lemma pinv_sinceD:
  "pinv_since os s0 t s \<Longrightarrow> parser_env os" "pinv_since os s0 t s \<Longrightarrow> pinv os t s"
  "pinv_since os s0 t s \<Longrightarrow> clock_mono os"
  by (simp_all add: pinv_since_def parser_env_def)

lemma pinv_since_step:
  assumes inv: "pinv_since os s0 t s" and "pinv os t' s'" and k: "keeps s s'" and "brk s' = brk s" and "sched s' = sched s"
    and said: "said (pending s) s \<Longrightarrow> said (pending s) s'" and fds: "same_fds s s'"
  shows "pinv_since os s0 t' s'"
proof -
  have "suffix (hist s) (hist s')" "timeout s' = timeout s" using k by (auto simp: keeps_def suffix_def)
  moreover have "timely (pending s') s'"
    using inv by (intro timely_keeps [OF _ k]) (auto simp: pinv_since_def pending_def assms(5))
  moreover have "said (pending s') s'" using inv said assms(5) by (simp add: pinv_since_def pending_def)
  moreover have "fd_by F s'" if "fd_by F s0" for F
    using inv that by (intro fd_by_keeps [OF _ k fds]) (simp add: pinv_since_def)
  ultimately show ?thesis using assms(1-5) by (auto simp: pinv_since_def dest: suffix_order.trans)
qed

interpretation parse: event_handlers os "Parse_OnEvent os" "Parse_OnTimeout os" Parse_dtor "parser_run os"
  "pinv_since os s0"
  for os s0
proof (unfold_locales, goal_cases)
  case (1 t s)
  then show ?case using pinv_evl pinv_sinceD(2) by blast
next
  case (2 t s now)
  have "pinv os t (log_event (Clock_now now) s)"
    using pinv_log [OF pinv_sinceD(2) [OF 2] pinv_sinceD(3) [OF 2], of "Clock_now now" "events_size s"] by simp
  then show ?case 
  proof (rule pinv_since_step [OF 2])
    show "said (pending s) (log_event (Clock_now now) s)" if "said (pending s) s"
      by (rule said_same_clients [OF that, where es = "[Clock_now now]"])
        (simp_all add: log_event_def unheard_def same_clients_def registered_def fun_eq_iff)
  qed (simp_all add: log_event_def keeps_same [of _ _ "[Clock_now now]"] same_fds_refl)
next
  case (3 t s n ms r k)
  have "pinv os t (log_event (Epoll_wait n ms r) (s\<lparr>events_size := k\<rparr>))"
    using pinv_log [OF pinv_sinceD(2) [OF 3] pinv_sinceD(3) [OF 3], of "Epoll_wait n ms r" k] by simp
  then show ?case 
  proof (rule pinv_since_step [OF 3])
    show "said (pending s) (log_event (Epoll_wait n ms r) (s\<lparr>events_size := k\<rparr>))" if "said (pending s) s"
      by (rule said_same_clients [OF that, where es = "[Epoll_wait n ms r]"])
        (simp_all add: log_event_def unheard_def same_clients_def registered_def fun_eq_iff)
  qed (simp_all add: log_event_def keeps_same [of _ _ "[Epoll_wait n ms r]"] same_fds_refl)
next
  case (4 t s a)
  then show ?case using pinv_held pinv_sinceD(2) by blast
next
  case (5 t s a e)
  note inv = pinv_sinceD(2) [OF 5(1)]
  from pinv_evl [OF inv] obtain xs where x: "evl_inv os s xs" by blast
  have "event_loop e \<noteq> None" "ref_count e \<ge> 0"
    using 5(2,3) evl_inv_eh [OF x 5(3)] by (auto simp: registered_def eh_ok_def)
  moreover from this(1) have "a \<notin> pending s" using pinv_handler [OF inv 5(3)] by (auto simp: ph_ok_def)
  ultimately have "pinv os (t(a := Suc (t a))) (s\<lparr>ehs := (ehs s)(a \<mapsto> e\<lparr>ref_count := ref_count e + 1\<rparr>)\<rparr>)"
    by (intro pinv_refs [OF inv 5(3)]) auto
  moreover have "keeps s (s\<lparr>ehs := (ehs s)(a \<mapsto> e\<lparr>ref_count := ref_count e + 1\<rparr>)\<rparr>)"
    using 5(3) by (intro keepsI [of _ _ "[]"]) (auto simp: registered_def dl_def)
  moreover have "said (pending s) (s\<lparr>ehs := (ehs s)(a \<mapsto> e\<lparr>ref_count := ref_count e + 1\<rparr>)\<rparr>)" if "said (pending s) s"
    using 5(3) by (intro said_same_clients [OF that, where es = "[]"]) (auto simp: same_clients_def registered_def fun_eq_iff)
  moreover have "same_fds s (s\<lparr>ehs := (ehs s)(a \<mapsto> e\<lparr>ref_count := ref_count e + 1\<rparr>)\<rparr>)"
    by (rule same_fds_upd [OF 5(3), where e' = "e\<lparr>ref_count := ref_count e + 1\<rparr>"]) simp_all
  ultimately show ?case by (intro pinv_since_step [OF 5(1)]) simp_all
next
  case (6 t s a)
  from pinv_DecRef [OF pinv_sinceD(2) [OF 6(1)] 6(2)] obtain s' where s': "DecRef Parse_dtor a s = Some s'"
    "pinv os (t(a := t a - 1)) s'" "sched s' = sched s" "registered s' = registered s" "keeps s s'" "brk s' = brk s"
    "hist s' = hist s" "same_clients s s'" "same_fds s s'"
    by blast
  have "said (pending s) s'" if "said (pending s) s"
    by (rule said_same_clients [OF that s'(8), where es = "[]"]) (simp_all add: s')
  from pinv_since_step [OF 6(1) s'(2,5,6,3) this s'(9)] s' show ?case by simp
next
  case (7 t s a ev)
  note inv = pinv_sinceD(2) [OF 7(1)]
  from 7 obtain e where e: "ehs s a = Some e" by (auto simp: registered_def)
  with pinv_handler [OF inv e] obtain p where p: "phs s a = Some p" by auto
  from Parse_OnEvent_ok [OF pinv_sinceD(1) [OF 7(1)] inv 7(2,3) e p, of ev] obtain s' es where
    s': "Parse_OnEvent os a ev s = Some s'" "pinv os t s'" "sched s' = sched s" "brk s' = brk s" "keeps s s'" "same_fds s s'"
    and on: "\<forall>x \<in> set es. on_fd (eh_fd e) x" "only a s s'"
    and how: "ehs s' a = ehs s a \<and> hist s' = es @ hist s \<and>
       phs s' a = Some (p\<lparr>ph_content := ph_content p @ received (eh_fd e) es\<rparr>) \<or>
     (\<exists>hp. hist s' = Parser_callback a hp # Epoll_ctl CTL_DEL (eh_fd e) 0 None 0 # es @ hist s \<and> \<not> registered s' a \<and>
       (hp \<noteq> [] \<longrightarrow> is_request (ph_content p @ received (eh_fd e) es) \<and>
          hp = host_port_of (ph_content p @ received (eh_fd e) es)))" by blast
  from pinv_evl [OF inv] obtain xs where x: "evl_inv os s xs" by blast
  have "said (pending s) s'" if "said (pending s) s"
    using how said_wait [OF that x 7(3) e p on] said_finish [OF that x 7(3) e p on] by blast
  with pinv_since_step [OF 7(1) s'(2,5,4,3) _ s'(6)] s' show ?case by blast
next
  case (8 t s a)
  from Parse_OnTimeout_ok [OF pinv_sinceD(1,2) [OF 8(1)] 8(2,3)] obtain s' where
    s': "Parse_OnTimeout os a s = Some s'" "pinv os t s'" "brk s' = brk s" "\<not> registered s' a"
    "keeps s s'" "sched s' = sched s" "only a s s'" "same_fds s s'"
    "hist s' = Parser_callback a [] # Epoll_ctl CTL_DEL (fd_of (ehs s) a) 0 None 0 # hist s" by blast
  note inv = pinv_sinceD(2) [OF 8(1)]
  from pinv_evl [OF inv] obtain xs where x: "evl_inv os s xs" by blast
  from 8(3) obtain e where e: "ehs s a = Some e" by (auto simp: registered_def)
  with pinv_handler [OF inv e] obtain p where p: "phs s a = Some p" by auto
  have "said (pending s) s'" if "said (pending s) s"
    by (rule said_finish [OF that x 8(3) e p _ s'(7), where es = "[]" and hp = "[]"])
      (use s'(4,9) fd_of_at [of "ehs s" a e] e in simp_all)
  with pinv_since_step [OF 8(1) s'(2,5,3,6) _ s'(8)] s' keeps_registered [OF s'(5)] show ?case by blast
next
  case (9 t s f fs)
  from parser_run_ok [OF pinv_sinceD(1,2) [OF 9(1)] 9(2)] obtain s' where
    "parser_run os f (s\<lparr>sched := fs\<rparr>) = Some s'" "pinv os t s'" "suffix (hist s) (hist s')" "brk s' = brk s"
    "sched s' = fs" "timeout s' = timeout s" "timely (pending s) s \<longrightarrow> timely (pending s') s'"
    "said (pending s) s \<longrightarrow> said (pending s') s'" "\<forall>F. fd_by F s \<longrightarrow> fd_by F s'" by blast
  then show ?case using 9(1) by (auto simp: pinv_since_def dest: suffix_order.trans)
qed

end
