(* ===== verification/Parser_Correct.thy ===== *)
theory Parser_Correct
  imports Parser_Loop
begin

text \<open>
  What the parser guarantees: every request is answered exactly once and in time, the answer is
  the host and port of a well-formed request, and how the bytes of the request are cut
  into packets does not matter.
\<close>

section \<open>Runs\<close>

text \<open>
  Passes of the parser's event loop, between which a thread \<open>tid\<close> other than the loop's calls
  \<open>ParseRequest\<close> with an open socket that this loop does not have yet.
\<close>

definition parser_fds :: "parser \<Rightarrow> fd set" where
  "parser_fds s = dom (interest (hist s)) \<union> fd_of (ehs s) ` pending s"

definition parser_pass :: "os \<Rightarrow> parser \<Rightarrow> parser option" where
  "parser_pass os = Loop_body os (Parse_OnEvent os) (Parse_OnTimeout os) Parse_dtor (parser_run os)"

inductive parser_reach :: "os \<Rightarrow> parser_options \<Rightarrow> parser \<Rightarrow> parser \<Rightarrow> bool"
  for os :: os and opt :: parser_options and s0 :: parser where
  start: "parser_reach os opt s0 s0"
| request: "parser_reach os opt s0 s \<Longrightarrow> f \<ge> 0 \<Longrightarrow> f \<notin> parser_fds s \<Longrightarrow> tid \<noteq> loop_tid s \<Longrightarrow>
    ParseRequest os opt f (s\<lparr>cur_tid := tid\<rparr>) = Some s' \<Longrightarrow>
    parser_reach os opt s0 (s'\<lparr>cur_tid := cur_tid s\<rparr>)"
| pass: "parser_reach os opt s0 s \<Longrightarrow> wakeup_ok os s \<Longrightarrow> parser_pass os s = Some s' \<Longrightarrow>
    parser_reach os opt s0 s'"

text \<open>A request allocates a handler and schedules its registration.\<close>

lemma ParseRequest_schedules:
  assumes inv: "pinv os t s" and f: "f \<ge> 0" "f \<notin> parser_fds s" and opt: "max_request_size_bytes opt > 0"
    and tid: "tid \<noteq> loop_tid s"
  shows "\<exists>s'. ParseRequest os opt f (s\<lparr>cur_tid := tid\<rparr>) = Some s' \<and> pinv os t (s'\<lparr>cur_tid := cur_tid s\<rparr>) \<and>
    sched s' = sched s @ [AddHandler (brk s)] \<and> brk s' = Suc (brk s) \<and> hist s' = hist s \<and>
    (\<exists>e. ehs s' = (ehs s)(brk s \<mapsto> e) \<and> eh_fd e = f) \<and> cur_tid s' = tid \<and> loop_tid s' = loop_tid s \<and>
    keeps s (s'\<lparr>cur_tid := cur_tid s\<rparr>) \<and>
    (said (pending s) s \<longrightarrow> said (pending (s'\<lparr>cur_tid := cur_tid s\<rparr>)) (s'\<lparr>cur_tid := cur_tid s\<rparr>))"
proof -
  let ?a = "brk s" and ?e = "\<lparr>eh_fd = f, deadline = 0, event_loop = None, ref_count = 0\<rparr>"
  let ?p = "\<lparr>ph_cap = max_request_size_bytes opt, ph_content = []\<rparr>"
  from pinv_evl [OF inv] obtain xs where x: "evl_inv os s xs" by blast
  let ?s1 = "s\<lparr>brk := Suc ?a, nodes := (nodes s)(?a \<mapsto> new_node), ehs := (ehs s)(?a \<mapsto> ?e)\<rparr>"
  have new: "new_EventHandler f s = Some (?a, ?s1)" using f by (simp add: new_EventHandler_def Let_def)
  note n = evl_inv_new [OF x new]
  let ?s = "?s1\<lparr>phs := (phs s)(?a \<mapsto> ?p), sched := sched s @ [AddHandler ?a]\<rparr>"
  have run: "ParseRequest os opt f (s\<lparr>cur_tid := tid\<rparr>) =
      Some (s\<lparr>cur_tid := tid, brk := Suc ?a, nodes := (nodes s)(?a \<mapsto> new_node), ehs := (ehs s)(?a \<mapsto> ?e),
        phs := (phs s)(?a \<mapsto> ?p), sched := sched s @ [AddHandler ?a]\<rparr>)" (is "_ = Some ?r")
    using f tid by (simp add: ParseRequest_def new_ParseEventHandler_def new_EventHandler_def Let_def
        ScheduleOrRun_def EventLoop_Schedule_def on_loop_thread_def)
  have same: "?r\<lparr>cur_tid := cur_tid s\<rparr> = ?s" by simp
  have none: "phs s ?a = None" "t ?a = 0" "?a \<notin> pending s" "calls ?a (hist s) = 0"
    using pinv_none [OF inv n(4)] by simp_all
  have pe: "pending ?s = insert ?a (pending s)" by (auto simp: pending_def)
  have fd: "fd_of (ehs ?s) b = fd_of (ehs s) b" if "b \<in> pending s" for b
    using that none(3) by (auto simp: fd_of_def)
  have "pinv os t ?s"
  proof (rule pinvI)
    show "evl_inv os ?s xs" using n(1) by (simp add: evl_inv_def on_loop_thread_def)
    show "distinct (sched ?s)" using inv none(3) by (simp add: pinv_def pending_def)
    have "inj_on (fd_of (ehs ?s)) (pending s)"
      using inv fd by (simp add: pinv_def cong: inj_on_cong)
    moreover have "fd_of (ehs ?s) ?a \<notin> fd_of (ehs ?s) ` pending s"
      using f(2) fd by (auto simp: parser_fds_def)
    ultimately show "inj_on (fd_of (ehs ?s)) (pending ?s)" unfolding pe using none(3) by simp
    show "at_ok (t b) (b \<in> pending ?s) (brk ?s) (hist ?s) b (ehs ?s b) (phs ?s b)" for b
    proof (cases "b = ?a")
      case True
      have "\<not> suffix CRLFCRLF []" "compatible []" by (simp_all add: CRLFCRLF_def compatible_def)
      with True none f opt show ?thesis unfolding pe by (simp add: at_ok_def ph_ok_def parser_fds_def)
    next
      case False
      with pinv_at [OF inv, of b] show ?thesis
        unfolding pe by (cases "ehs s b") (auto simp: at_ok_def)
    qed
  qed
  moreover have "keeps s ?s"
  proof (rule keepsI [of _ _ "[]"])
    show "registered s b \<and> dl (ehs ?s) b = dl (ehs s) b" if "registered ?s b" for b
      using that by (cases "b = ?a") (simp_all add: registered_def dl_def)
  qed simp_all
  moreover have "said (pending ?s) ?s" if "said (pending s) s"
    by (rule said_same [OF that, where es = "[]"]) (use n(4) pe in \<open>auto simp: registered_def\<close>)
  ultimately show ?thesis using run same by (intro exI [of _ ?r]) auto
qed

text \<open>The invariant of runs.\<close>

definition parser_good :: "os \<Rightarrow> parser_options \<Rightarrow> parser \<Rightarrow> bool" where
  "parser_good os opt s \<longleftrightarrow>
     pinv os (\<lambda>_. 0) s \<and> timely (pending s) s \<and> said (pending s) s \<and> timeout s = accept_timeout opt"

lemma parser_good_request:
  assumes "parser_good os opt s" and "f \<ge> 0" "f \<notin> parser_fds s" and "max_request_size_bytes opt > 0"
    and "tid \<noteq> loop_tid s" and "ParseRequest os opt f (s\<lparr>cur_tid := tid\<rparr>) = Some s'"
  shows "parser_good os opt (s'\<lparr>cur_tid := cur_tid s\<rparr>)"
proof -
  from assms(1) have good: "pinv os (\<lambda>_. 0) s" "timely (pending s) s" "timeout s = accept_timeout opt"
    "said (pending s) s" by (simp_all add: parser_good_def)
  from ParseRequest_schedules [OF good(1) assms(2-5)] assms(6) have
    s': "pinv os (\<lambda>_. 0) (s'\<lparr>cur_tid := cur_tid s\<rparr>)" "sched s' = sched s @ [AddHandler (brk s)]"
      "keeps s (s'\<lparr>cur_tid := cur_tid s\<rparr>)" "said (pending (s'\<lparr>cur_tid := cur_tid s\<rparr>)) (s'\<lparr>cur_tid := cur_tid s\<rparr>)"
    using good(4) by auto
  have "timely (pending (s'\<lparr>cur_tid := cur_tid s\<rparr>)) (s'\<lparr>cur_tid := cur_tid s\<rparr>)"
    by (rule timely_schedule [OF good(2) s'(3)]) (auto simp: pending_def s'(2))
  with s'(1,3,4) good(3) show ?thesis by (simp add: parser_good_def keeps_def)
qed

lemma parser_pass_waits: "parser_pass os s = Some s' \<Longrightarrow> \<not> wait_fails os s"
  unfolding parser_pass_def by (rule Loop_body_waits)

lemma parser_pass_ok:
  assumes env: "parser_env os" and wait: "epoll_wait_ok os" and good: "parser_good os opt s" and ok: "wakeup_ok os s"
    and nf: "\<not> wait_fails os s"
  shows "\<exists>s'. parser_pass os s = Some s' \<and> parser_good os opt s' \<and>
    (\<forall>a. registered s' a \<longrightarrow> on_time os s' a) \<and>
    (\<exists>k ms q. suffix (Epoll_wait k ms q # hist s) (hist s')) \<and> brk s' = brk s \<and> (sched s' = sched s \<or> sched s' = tl (sched s)) \<and>
    (\<forall>F. fd_by F s \<longrightarrow> fd_by F s') \<and>
    (capacity_ok os \<and> wakeup_live os s \<longrightarrow> sched s' = tl (sched s))"
proof -
  from good have inv: "pinv os (\<lambda>_. 0) s" and t: "timely (pending s) s" and sd: "said (pending s) s" by (simp_all add: parser_good_def)
  from pinv_evl [OF inv] obtain xs where "evl_inv os s xs" by blast
  from wait_result [OF this wait nf ok] obtain ready k ms r where
    w: "EPoll_Wait os (Some (timeout s)) s = Some (ready, log_event (Epoll_wait k ms r) (s\<lparr>events_size := k\<rparr>))"
      "\<And>ev a. (ev, Some a) \<in> set ready \<Longrightarrow> registered s a" "length (filter (\<lambda>x. snd x = None) ready) \<le> 1"
      "None \<in> snd ` set ready \<longrightarrow> sched s \<noteq> []"
    and live: "capacity_ok os \<and> wakeup_live os s \<and> sched s \<noteq> [] \<longrightarrow> None \<in> snd ` set ready" by blast
  let ?w = "log_event (Epoll_wait k ms r) (s\<lparr>events_size := k\<rparr>)"
  have "pinv os (\<lambda>_. 0) ?w" using env inv by (intro pinv_log) (simp_all add: parser_env_def)
  moreover have "timely (pending ?w) ?w"
    by (rule timely_keeps [OF t keeps_same [of _ _ "[Epoll_wait k ms r]"]]) (auto simp: log_event_def pending_def)
  moreover have "said (pending ?w) ?w"
    by (rule said_same [OF sd, where es = "[Epoll_wait k ms r]"])
      (auto simp: log_event_def pending_def unheard_def registered_def)
  ultimately have "pinv_since os ?w (\<lambda>_. 0) ?w" using env by (simp add: pinv_since_def)
  from parse.Loop_after_wait [OF w(1) this _ w(3,4)] w(2) obtain s' where
    s': "parser_pass os s = Some s'" "pinv_since os ?w (\<lambda>_. 0) s'" "\<forall>a. registered s' a \<longrightarrow> on_time os s' a"
      "sched s' = (if None \<in> snd ` set ready then tl (sched s) else sched s)"
    unfolding parser_pass_def by blast
  from s'(2) good have "parser_good os opt s'" "suffix (Epoll_wait k ms r # hist s) (hist s')" "brk s' = brk s"
    by (simp_all add: pinv_since_def parser_good_def log_event_def)
  moreover have "fd_by F s'" if "fd_by F s" for F
  proof -
    have "fd_by F ?w"
      by (rule fd_by_keeps [OF that keeps_same [of _ _ "[Epoll_wait k ms r]"] same_fds_refl]) (simp_all add: log_event_def)
    with s'(2) show ?thesis by (simp add: pinv_since_def)
  qed
  moreover have "sched s' = tl (sched s)" if "capacity_ok os \<and> wakeup_live os s"
    using live that s'(4) by (cases "sched s = []") auto
  ultimately show ?thesis using s'(1,3,4) by (intro exI [of _ s']) (auto split: if_splits)
qed

definition blank_parser :: parser where
  "blank_parser = \<lparr>hist = [], total_events = 0, events_size = 0, nodes = Map.empty, ehs = Map.empty,
     expire = new_list, timeout = 0, self = 0, sched = [], pipe_rd = - 1, pipe_wr = - 1,
     loop_tid = 1, cur_tid = 1, brk = 0, phs = Map.empty\<rparr>"

lemma parser_good_ctor:
  assumes "Parser_ctor os opt blank_parser = Some s0"
  shows "parser_good os opt s0"
proof -
  have run: "EventLoop_ctor os (accept_timeout opt) blank_parser = Some s0"
    using assms by (simp add: Parser_ctor_def)
  note c = EventLoop_ctor_inv [OF run]
  have 1: "evl_inv os s0 []" "sched s0 = []" "ehs s0 = Map.empty" "evl.more s0 = evl.more blank_parser"
    using c by (simp_all add: blank_parser_def on_loop_thread_def)
  from EventLoop_ctor_result [OF run] obtain es where
    h: "hist s0 = Epoll_ctl CTL_ADD (pipe_rd s0) EPOLLIN None 0 # es @ []"
      "\<forall>e \<in> set es. quiet e \<and> \<not> is_callback e" and b: "brk s0 = 0"
    by (auto simp: blank_parser_def)
  have "calls a es = 0" for a
    using h(2) by (induction es) (auto simp: is_callback_def split: event.splits)
  then have c0: "calls a (hist s0) = 0" for a using h(1) by simp
  have "phs s0 = Map.empty" using 1(4) by (cases s0) (simp add: blank_parser_def)
  with 1 c0 b have "pinv os (\<lambda>_. 0) s0" by (intro pinvI) (simp_all add: at_ok_def pending_def)
  moreover have "no_add es" using h(2) by (simp add: quiet_no_add)
  then have "added_at a (hist s0) = None" for a using h(1) by (simp add: added_at_append [of es a "[]", simplified])
  then have "timely (pending s0) s0" using 1(3) by (simp add: timely_def registered_def)
  moreover have "Parser_callback a hp \<notin> set es" for a hp using h(2) by (auto simp: is_callback_def)
  then have "said (pending s0) s0"
    using h(1) \<open>no_add es\<close> session_no_add [of es _ "[]"] 1(3) by (auto simp: said_def said_at_def registered_def)
  moreover have "timeout s0 = accept_timeout opt" using c(3) by (simp add: blank_parser_def on_loop_thread_def)
  ultimately show ?thesis by (simp add: parser_good_def)
qed

definition parser_running :: "os \<Rightarrow> parser_options \<Rightarrow> parser \<Rightarrow> bool" where
  "parser_running os opt s \<longleftrightarrow> parser_env os \<and> epoll_wait_ok os \<and> max_request_size_bytes opt > 0 \<and>
     (\<exists>s0. Parser_ctor os opt blank_parser = Some s0 \<and> parser_reach os opt s0 s)"

lemma parser_running_good:
  assumes "parser_running os opt s"
  shows "parser_good os opt s"
proof -
  from assms obtain s0 where env: "parser_env os" "epoll_wait_ok os" "max_request_size_bytes opt > 0"
    and c: "Parser_ctor os opt blank_parser = Some s0" and r: "parser_reach os opt s0 s"
    by (auto simp: parser_running_def)
  from r show ?thesis
  proof (induction rule: parser_reach.induct)
    case start
    show ?case by (rule parser_good_ctor [OF c])
  next
    case (request s f tid s')
    show ?case by (rule parser_good_request [OF request.IH request.hyps(2,3) env(3) request.hyps(4,5)])
  next
    case (pass s s')
    from parser_pass_ok [OF env(1,2) pass.IH pass.hyps(2) parser_pass_waits [OF pass.hyps(3)]] pass.hyps(3) show ?case by auto
  qed
qed

lemma parser_running_pinv: "parser_running os opt s \<Longrightarrow> pinv os (\<lambda>_. 0) s"
  using parser_running_good [of os opt s] by (simp add: parser_good_def)

text \<open>The calls of the callback, by where the handler is.\<close>

lemma parser_calls:
  assumes "parser_running os opt s" and "a < brk s"
  shows "calls a (hist s) = (if registered s a \<or> a \<in> pending s then 0 else 1)"
proof (cases "ehs s a")
  case None
  with pinv_none [OF parser_running_pinv [OF assms(1)] None] assms(2) show ?thesis
    by (simp add: registered_def)
next
  case (Some e)
  note inv = parser_running_pinv [OF assms(1)]
  obtain xs where x: "evl_inv os s xs" using pinv_evl [OF inv] by blast
  have "event_loop e = None \<longleftrightarrow> \<not> registered s a"
    using evl_inv_eh [OF x Some] Some by (auto simp: registered_def eh_ok_def split: if_splits)
  with pinv_handler [OF inv Some] show ?thesis by (auto simp: ph_ok_def)
qed

section \<open>Packets\<close>

text \<open>The rounds of \<open>Read\<close>, over all events of a request, when \<open>cs\<close> are the pieces read.\<close>

fun feed :: "nat \<Rightarrow> string \<Rightarrow> string list \<Rightarrow> (string option \<times> string) option" where
  "feed cap content [] = Some (None, content)"
| "feed cap content (c # cs) = do {
     (r, content) \<leftarrow> parse_chunk cap content c;
     (case r of Some host_port \<Rightarrow> Some (Some host_port, content) | None \<Rightarrow> feed cap content cs)
   }"

lemma compatible_prefix: "prefix kConnectPrefix req \<Longrightarrow> prefix p req \<Longrightarrow> compatible p"
  unfolding compatible_def by (rule prefix_same_cases)

lemma feed_request:
  assumes req: "is_request req" "length req \<le> cap"
    and first: "\<And>p. strict_prefix p req \<Longrightarrow> \<not> suffix CRLFCRLF p"
    and cs: "content @ concat cs = req" "[] \<notin> set cs" "cs \<noteq> []"
  shows "feed cap content cs = Some (Some (host_port_of req), req)"
  using cs
proof (induction cs arbitrary: content)
  case (Cons c cs)
  have k: "prefix kConnectPrefix req" using req(1) by (auto simp: is_request_def)
  have "prefix content req" using Cons.prems(1) by (metis prefixI)
  then have comp: "compatible content" by (rule compatible_prefix [OF k])
  have p: "prefix (content @ c) req" using Cons.prems(1) by (metis append_assoc concat.simps(2) prefixI)
  note chunk = parse_chunk_spec [OF comp, of cap c, unfolded Let_def]
  have comp': "compatible (content @ c)" by (rule compatible_prefix [OF k p])
  show ?case
  proof (cases "cs = []")
    case True
    then have "content @ c = req" using Cons.prems(1) by simp
    moreover have "suffix CRLFCRLF req" using req(1) by (simp add: is_request_iff)
    ultimately show ?thesis using chunk comp' True by simp
  next
    case False
    then have "concat cs \<noteq> []" using Cons.prems(2) by (cases cs) auto
    then have s: "strict_prefix (content @ c) req" and l: "length (content @ c) < length req"
      using p Cons.prems(1) by (auto simp: strict_prefix_def)
    have "c \<noteq> []" "length (content @ c) \<noteq> cap" using Cons.prems(2) l req(2) by auto
    with chunk comp' first [OF s] have "parse_chunk cap content c = Some (None, content @ c)" by simp
    with Cons.IH [of "content @ c"] Cons.prems False show ?thesis by simp
  qed
qed simp

section \<open>A concrete run\<close>

text \<open>The client behind every socket sends its request in two packets and then waits.\<close>

definition demo_request :: string where
  "demo_request = ''CONNECT h:1 x'' @ CRLFCRLF"

definition demo_parse_os :: os where
  "demo_parse_os = demo_os\<lparr>os_read := (\<lambda>h f n.
     let k = length (received f h) in
     if k = 0 then Inr (take n ''CONNE'') else if k = 5 then Inr (take n (drop 5 demo_request))
     else Inl EAGAIN)\<rparr>"

lemma demo_parse_env: "parser_env demo_parse_os" "epoll_wait_ok demo_parse_os"
proof -
  have "epoll_ctl_ok demo_parse_os"
    using demo_epoll_ctl by (simp add: epoll_ctl_ok_def demo_parse_os_def)
  moreover have "clock_mono demo_parse_os"
    using demo_clock by (simp add: clock_mono_def demo_parse_os_def)
  moreover have "sock_ok demo_parse_os"
    using demo_sock by (simp add: sock_ok_def demo_parse_os_def)
  moreover have "read_ok demo_parse_os"
    by (auto simp: read_ok_def demo_parse_os_def Let_def split: if_splits)
  ultimately show "parser_env demo_parse_os" by (simp add: parser_env_def)
  show "epoll_wait_ok demo_parse_os"
    using demo_epoll_wait by (simp add: epoll_wait_ok_def demo_parse_os_def)
qed

definition demo_parser :: parser where
  "demo_parser = the (Parser_ctor demo_parse_os default_parser_options blank_parser)"

lemma demo_parser_ctor: "Parser_ctor demo_parse_os default_parser_options blank_parser = Some demo_parser"
  and demo_parser_eq: "demo_parser =
   \<lparr>hist = [Epoll_ctl CTL_ADD 3 EPOLLIN None 0, Pipe2 (Inr (3, 4)), Epoll_create (Inr 2)], total_events = 1,
     events_size = 0, nodes = Map.empty, ehs = Map.empty, expire = new_list, timeout = 5000000000,
     self = 0, sched = [], pipe_rd = 3, pipe_wr = 4, loop_tid = 1, cur_tid = 1, brk = 0,
     phs = Map.empty\<rparr>"
  by (simp_all add: demo_parser_def Parser_ctor_def EventLoop_ctor_def EPoll_ctor_def default_parser_options_def
      sys_epoll_create_def sys_pipe2_def sys_epoll_ctl_def EPoll_Add_def blank_parser_def Let_def log_event_def
      demo_parse_os_def demo_os_def)

definition demo_requested :: parser where
  "demo_requested = (the (ParseRequest demo_parse_os default_parser_options 5 (demo_parser\<lparr>cur_tid := 2\<rparr>)))\<lparr>cur_tid := 1\<rparr>"

lemma demo_requested_run:
  "ParseRequest demo_parse_os default_parser_options 5 (demo_parser\<lparr>cur_tid := 2\<rparr>) =
     Some (demo_requested\<lparr>cur_tid := 2\<rparr>)"
  and demo_requested_eq: "demo_requested = demo_parser\<lparr>
     nodes := [0 \<mapsto> new_node], ehs := [0 \<mapsto> \<lparr>eh_fd = 5, deadline = 0, event_loop = None, ref_count = 0\<rparr>],
     sched := [AddHandler 0], brk := 1, phs := [0 \<mapsto> \<lparr>ph_cap = 1024, ph_content = []\<rparr>]\<rparr>"
  by (simp_all add: demo_requested_def ParseRequest_def new_ParseEventHandler_def new_EventHandler_def Let_def
      ScheduleOrRun_def EventLoop_Schedule_def on_loop_thread_def demo_parser_eq default_parser_options_def)

lemma demo_parser_running: "parser_running demo_parse_os default_parser_options demo_requested"
proof -
  have "parser_reach demo_parse_os default_parser_options demo_parser
      ((demo_requested\<lparr>cur_tid := 2\<rparr>)\<lparr>cur_tid := cur_tid demo_parser\<rparr>)"
    by (rule parser_reach.request [OF parser_reach.start _ _ _ demo_requested_run])
      (simp_all add: parser_fds_def pending_def demo_parser_eq)
  moreover have "(demo_requested\<lparr>cur_tid := 2\<rparr>)\<lparr>cur_tid := cur_tid demo_parser\<rparr> = demo_requested"
    by (simp add: demo_requested_eq demo_parser_eq)
  ultimately show ?thesis
    using demo_parser_ctor demo_parse_env by (auto simp: parser_running_def default_parser_options_def)
qed

lemma demo_parser_wakeup: "wakeup_ok demo_parse_os demo_requested"
  by (simp add: wakeup_ok_def demo_requested_eq)

text \<open>The first pass registers the handler.\<close>

lemma demo_parser_pass:
  "\<exists>s e p. parser_pass demo_parse_os demo_requested = Some s \<and> registered s 0 \<and> ehs s 0 = Some e \<and>
     phs s 0 = Some p \<and> ph_content p = [] \<and> eh_fd e = 5 \<and> ref_count e = 1 \<and> brk s = 1 \<and> received 5 (hist s) = []"
  unfolding parser_pass_def Loop_body_def demo_requested_eq demo_parser_eq
  by (simp add: EventLoop_Add_def IncRef_def on_loop_thread_def upd_eh_def AddTail_def new_node_def
      new_list_def sys_defs EPoll_Add_def Let_def demo_parse_os_def demo_os_def registered_def
      EPoll_Wait_def report_def waited_def PopFunc_def expire_loop.simps)

lemma demo_parser_registered:
  "\<exists>s. parser_running demo_parse_os default_parser_options s \<and> registered s 0 \<and> brk s = 1"
proof -
  from demo_parser_pass obtain s where s: "parser_pass demo_parse_os demo_requested = Some s"
    "registered s 0" "brk s = 1" by blast
  with demo_parser_running demo_parser_wakeup
  have "parser_running demo_parse_os default_parser_options s"
    by (auto simp: parser_running_def intro: parser_reach.pass)
  with s show ?thesis by blast
qed

lemma demo_parser_held:
  "\<exists>s t e p. pinv demo_parse_os t s \<and> t 0 > 0 \<and> registered s 0 \<and> ehs s 0 = Some e \<and> phs s 0 = Some p"
proof -
  from demo_parser_registered obtain s where s: "parser_running demo_parse_os default_parser_options s"
    "registered s 0" by blast
  have "pinv_since demo_parse_os s (\<lambda>_. 0) s"
    using demo_parse_env(1) parser_running_good [OF s(1)] by (simp add: pinv_since_def parser_good_def)
  from parse.IncRef_ok [OF this s(2)]
  obtain s' t where s': "pinv demo_parse_os t s'" "t 0 > 0" "registered s' 0" using s(2) by (force simp: pinv_since_def)
  then obtain e where e: "ehs s' 0 = Some e" by (auto simp: registered_def)
  from pinv_handler [OF s'(1) e] s' e show ?thesis by blast
qed

section \<open>Properties\<close>

definition connect_request :: "string \<Rightarrow> string \<Rightarrow> string" where
  "connect_request hp rest = kConnectPrefix @ hp @ rest @ CRLFCRLF"

text \<open>
  C8: The parser aborts in one case only and never hangs: from every reachable state the next pass of its
  event loop returns, whatever the clients send, unless its call of \<open>epoll_wait\<close> fails, as it does when a signal interrupts
  it (\<open>EINTR\<close>), which the code answers by aborting.  A pass that returns ends with a reading of the clock less than
  \<open>accept_timeout\<close> after the registration of every request that is still waiting for data: a client
  cannot gain time by sending its request slowly.  The kernel is assumed to behave as \<open>parser_env\<close> and \<open>epoll_wait_ok\<close> say.
\<close>

theorem parser_pass_returns:
  assumes "parser_running os opt s" and "wakeup_ok os s"
  shows "(parser_pass os s = None \<longleftrightarrow> wait_fails os s) \<and>
    (\<forall>s'. parser_pass os s = Some s' \<longrightarrow> parser_running os opt s' \<and>
      (\<forall>a. registered s' a \<longrightarrow> within (accept_timeout opt) a (hist s')))"
proof (cases "wait_fails os s")
  case True
  then show ?thesis by (simp add: parser_pass_def Loop_body_waits(2))
next
  case False
  have env: "parser_env os" "epoll_wait_ok os" using assms(1) by (auto simp: parser_running_def)
  from parser_pass_ok [OF env parser_running_good [OF assms(1)] assms(2) False] obtain s' where
    s': "parser_pass os s = Some s'" "parser_good os opt s'" "\<forall>a. registered s' a \<longrightarrow> on_time os s' a" by blast
  then have "registered s' a \<longrightarrow> within (accept_timeout opt) a (hist s')" for a
    using on_time_within [of "pending s'" s' a os] by (simp add: parser_good_def)
  moreover have "parser_running os opt s'"
    using assms s'(1) by (auto simp: parser_running_def intro: parser_reach.pass)
  ultimately show ?thesis using s'(1) False by simp
qed

theorem parser_pass_returns_witness:
  "\<exists>s'. parser_pass demo_parse_os demo_requested = Some s'"
proof -
  have "\<not> wait_fails demo_parse_os demo_requested" by (simp add: wait_fails_def demo_parse_os_def demo_os_def)
  with parser_pass_returns [OF demo_parser_running demo_parser_wakeup] show ?thesis by auto
qed

text \<open>
  C9: Every request is answered exactly once.  In every reachable state, the callback of a
  request has been called once if its handler is neither waiting to be registered nor
  registered, and not at all otherwise.
\<close>

theorem parser_answers_once:
  assumes "parser_running os opt s" and "a < brk s"
  shows "calls a (hist s) = (if registered s a \<or> a \<in> pending s then 0 else 1)"
  using assms by (rule parser_calls)

theorem parser_answers_once_witness:
  "\<exists>s :: parser. registered s 0 \<and> calls 0 (hist s) = 0"
proof -
  from demo_parser_registered obtain s where s: "parser_running demo_parse_os default_parser_options s"
    "registered s 0" "brk s = 1" by blast
  with parser_answers_once [OF s(1), of 0] show ?thesis by auto
qed

text \<open>
  C10: The callback's argument.  In every reachable state a waiting handler has exactly the bytes that were read from its
  socket since it was registered, and an answer that is not empty is the host and port of a complete, well-formed
  request, which is exactly what was read from the socket between registration and answer.
\<close>

theorem parser_answers_what_was_sent:
  assumes "parser_running os opt s"
  shows "(\<forall>a. registered s a \<longrightarrow> (\<exists>e p. ehs s a = Some e \<and> phs s a = Some p \<and>
      session a (hist s) = Some (eh_fd e, ph_content p, True))) \<and>
    (\<forall>a hp. Parser_callback a hp \<in> set (hist s) \<longrightarrow> hp \<noteq> [] \<longrightarrow>
      (\<exists>f bs. session a (hist s) = Some (f, bs, False) \<and> is_request bs \<and> hp = host_port_of bs))"
proof -
  have "said (pending s) s" using parser_running_good [OF assms] by (simp add: parser_good_def)
  from said_registered [OF this] said_callback [OF this] show ?thesis by blast
qed

theorem parser_answers_what_was_sent_witness:
  "\<exists>s :: parser. registered s 0 \<and> (\<exists>f bs. session 0 (hist s) = Some (f, bs, True))"
proof -
  from demo_parser_registered obtain s where s: "parser_running demo_parse_os default_parser_options s"
    "registered s 0" by blast
  with parser_answers_what_was_sent [OF s(1)] show ?thesis by blast
qed

text \<open>
  C11: How a request is cut into packets does not matter.  A request \<open>CONNECT host:port ...\<close> that
  ends at its first empty line and fits into the buffer is accepted, with its host and
  port, however many reads it takes.
\<close>

theorem parse_packets_roundtrip:
  assumes "set hp \<inter> set host_end = {}" and "rest = [] \<or> hd rest \<in> set host_end"
    and "length (connect_request hp rest) \<le> cap" and "concat cs = connect_request hp rest" and "[] \<notin> set cs"
    and "\<forall>p \<in> set (prefixes (connect_request hp rest)). p \<noteq> connect_request hp rest \<longrightarrow> \<not> EndsWith p CRLFCRLF"
  shows "feed cap [] cs = Some (Some hp, connect_request hp rest)"
proof -
  let ?req = "connect_request hp rest"
  have req: "is_request ?req" unfolding is_request_def connect_request_def
    by (intro exI [of _ "hp @ rest"]) simp
  have "takeWhile (\<lambda>c. c \<notin> set host_end) (hp @ rest @ CRLFCRLF) = hp"
  proof -
    have "takeWhile (\<lambda>c. c \<notin> set host_end) (rest @ CRLFCRLF) = []"
      using assms(2) by (cases rest) (auto simp: CRLFCRLF_def host_end_def)
    moreover have "\<forall>c \<in> set hp. c \<notin> set host_end" using assms(1) by blast
    ultimately show ?thesis by (simp add: takeWhile_append2)
  qed
  then have hp: "host_port_of ?req = hp" by (simp add: host_port_of_def connect_request_def)
  have "\<not> suffix CRLFCRLF p" if "strict_prefix p ?req" for p
    using that assms(6) by (auto simp: strict_prefix_def EndsWith_suffix)
  moreover have "cs \<noteq> []" using assms(4) by (auto simp: connect_request_def kConnectPrefix_def)
  ultimately show ?thesis
    using feed_request [OF req assms(3) _ _ assms(5), of "[]"] assms(4) hp by simp
qed

theorem parse_packets_roundtrip_witness:
  "feed 30 [] [''CONN'', ''ECT a:1 x'', CRLFCRLF] = Some (Some ''a:1'', ''CONNECT a:1 x'' @ CRLFCRLF)"
  using parse_packets_roundtrip [of "''a:1''" "'' x''" 30 "[''CONN'', ''ECT a:1 x'', CRLFCRLF]"]
  by (simp add: connect_request_def kConnectPrefix_def CRLFCRLF_def host_end_def EndsWith_def)

text \<open>
  C12: \<open>Read\<close> stays within its buffer and returns.  It reads at most what the buffer still has room
  for, and its result is determined by the bytes read so far: more data needed, an error or the
  end of the stream or too long or malformed a request (empty), or the host and port.
\<close>

theorem Read_total_and_bounded:
  assumes "read_ok os" and "compatible content" and "length content < cap" and "\<not> suffix CRLFCRLF content"
  shows "\<exists>r content' es. parse_read os f cap content s = Some (r, content', s\<lparr>hist := es @ hist s\<rparr>) \<and>
    verdict cap (content @ received f es) (read_ended f es) r \<and>
    (r = None \<longrightarrow> content' = content @ received f es \<and> length content' < cap \<and> read_again f es)"
proof -
  from parse_read_spec [OF assms, of f s] obtain r content' es where
    r: "parse_read os f cap content s = Some (r, content', s\<lparr>hist := es @ hist s\<rparr>)"
      "verdict cap (content @ received f es) (read_ended f es) r"
      "r = None \<longrightarrow> content' = content @ received f es \<and> read_again f es" by blast
  moreover have "r = None \<longrightarrow> length content' < cap" using r by (auto simp: verdict_def)
  ultimately show ?thesis by blast
qed

theorem Read_total_and_bounded_witness:
  "\<exists>r content' s'. parse_read demo_parse_os 5 1024 [] \<lparr>hist = []\<rparr> = Some (r, content', s')"
proof -
  have "read_ok demo_parse_os" "compatible []" "\<not> suffix CRLFCRLF []"
    using demo_parse_env(1) by (simp_all add: parser_env_def compatible_def CRLFCRLF_def)
  from Read_total_and_bounded [OF this(1,2) _ this(3), of 1024 5 "\<lparr>hist = []\<rparr>"] show ?thesis by auto
qed

end
