(* ===== verification/Parser_Progress.thy ===== *)
theory Parser_Progress
  imports Parser_Correct
begin

text \<open>
  Progress of the parser: in every infinite run, whatever the clients do, each request is answered.
\<close>

section \<open>Infinite runs\<close>

text \<open>
  A step is a call of \<open>ParseRequest\<close> by another thread or a pass of the loop.  In an execution the loop is never
  held up for ever, and waits infinitely often with the wake-up pipe reported if a function is waiting in it.
\<close>

inductive parser_step :: "os \<Rightarrow> parser_options \<Rightarrow> parser \<Rightarrow> parser \<Rightarrow> bool"
  for os :: os and opt :: parser_options where
  request: "f \<ge> 0 \<Longrightarrow> f \<notin> parser_fds s \<Longrightarrow> tid \<noteq> loop_tid s \<Longrightarrow>
    ParseRequest os opt f (s\<lparr>cur_tid := tid\<rparr>) = Some s' \<Longrightarrow> parser_step os opt s (s'\<lparr>cur_tid := cur_tid s\<rparr>)"
| pass: "wakeup_ok os s \<Longrightarrow> parser_pass os s = Some s' \<Longrightarrow> parser_step os opt s s'"

definition parser_execution :: "os \<Rightarrow> parser_options \<Rightarrow> (nat \<Rightarrow> parser) \<Rightarrow> bool" where
  "parser_execution os opt r \<longleftrightarrow> parser_running os opt (r 0) \<and>
     (\<forall>i. parser_step os opt (r i) (r (Suc i))) \<and>
     (\<forall>i. \<exists>j \<ge> i. wakeup_ok os (r j) \<and> wakeup_live os (r j) \<and> parser_pass os (r j) = Some (r (Suc j)))"

lemma parser_step_ok:
  assumes run: "parser_running os opt s" and step: "parser_step os opt s s'"
  shows "parser_running os opt s' \<and> suffix (hist s) (hist s') \<and> brk s \<le> brk s' \<and> queue_step s s' \<and>
    (a < brk s \<and> a \<notin> pending s \<longrightarrow> a \<notin> pending s')"
  using step
proof cases
  case (request f tid s1)
  have "max_request_size_bytes opt > 0" using run by (simp add: parser_running_def)
  from ParseRequest_schedules [OF parser_running_pinv [OF run] request(2,3) this request(4)] request(5)
  have "sched s1 = sched s @ [AddHandler (brk s)]" "brk s1 = Suc (brk s)" "hist s1 = hist s" by auto
  moreover have "parser_running os opt s'"
    using run request by (auto simp: parser_running_def intro: parser_reach.request)
  ultimately show ?thesis using request(1) by (auto simp: queue_step_def pending_def)
next
  case pass
  from run have env: "parser_env os" "epoll_wait_ok os" by (simp_all add: parser_running_def)
  from parser_pass_ok [OF env parser_running_good [OF run] pass(1) parser_pass_waits [OF pass(2)]] pass(2) have
    p: "\<exists>k ms q. suffix (Epoll_wait k ms q # hist s) (hist s')" "brk s' = brk s"
      "sched s' = sched s \<or> sched s' = tl (sched s)" by auto
  moreover have "parser_running os opt s'"
    using run pass by (auto simp: parser_running_def intro: parser_reach.pass)
  moreover have "suffix (hist s) (hist s')" using p(1) by (blast dest: suffix_ConsD)
  moreover have "set (tl (sched s)) \<subseteq> set (sched s)" by (cases "sched s") auto
  ultimately show ?thesis by (auto simp: queue_step_def pending_def)
qed

lemma parser_execution_step:
  assumes "parser_execution os opt r"
  shows "parser_running os opt (r i)" and "parser_step os opt (r i) (r (Suc i))"
proof -
  show "parser_step os opt (r i) (r (Suc i))" for i using assms by (simp add: parser_execution_def)
  then show "parser_running os opt (r i)"
    using assms parser_step_ok by (induction i) (auto simp: parser_execution_def)
qed

lemma parser_execution_fair:
  assumes r: "parser_execution os opt r" and cap: "capacity_ok os"
  shows "fair_run os AddHandler r"
proof -
  note run = parser_execution_step(1) [OF r]
  have good: "parser_good os opt (r i)" for i by (rule parser_running_good [OF run])
  have "\<exists>j \<ge> i. sched (r (Suc j)) = tl (sched (r j)) \<and> length (hist (r j)) < length (hist (r (Suc j))) \<and>
    (\<forall>a. registered (r (Suc j)) a \<longrightarrow> on_time os (r (Suc j)) a)" for i
  proof -
    from r obtain j where j: "j \<ge> i" "wakeup_ok os (r j)" "wakeup_live os (r j)" "parser_pass os (r j) = Some (r (Suc j))"
      unfolding parser_execution_def by blast
    have env: "parser_env os" "epoll_wait_ok os" using run [of j] by (simp_all add: parser_running_def)
    from parser_pass_ok [OF env good j(2) parser_pass_waits [OF j(4)]] j(3,4) cap have
      "\<forall>a. registered (r (Suc j)) a \<longrightarrow> on_time os (r (Suc j)) a" "sched (r (Suc j)) = tl (sched (r j))"
      and "\<exists>k ms q. suffix (Epoll_wait k ms q # hist (r j)) (hist (r (Suc j)))" by auto
    moreover from this(3) have "length (hist (r j)) < length (hist (r (Suc j)))"
      by (auto dest: suffix_length_le)
    ultimately show ?thesis using j(1) by blast
  qed
  moreover have "suffix (hist (r i)) (hist (r (Suc i))) \<and> brk (r i) \<le> brk (r (Suc i)) \<and> queue_step (r i) (r (Suc i)) \<and>
      (\<forall>a < brk (r i). AddHandler a \<in> set (sched (r (Suc i))) \<longrightarrow> AddHandler a \<in> set (sched (r i)))" for i
    using parser_step_ok [OF parser_execution_step [OF r, of i]] by (auto simp: pending_def)
  moreover have "distinct (sched (r i)) \<and> (\<exists>P. timely P (r i)) \<and> timeout (r i) = timeout (r 0)" for i
    using good [of i] good [of 0] by (auto simp: parser_good_def pinv_def)
  ultimately show ?thesis unfolding fair_run_def by blast
qed

lemma calls_suffix: "suffix h h' \<Longrightarrow> calls a h \<le> calls a h'"
proof -
  have "calls a h \<le> calls a (es @ h)" for es by (induction es) auto
  then show "suffix h h' \<Longrightarrow> calls a h \<le> calls a h'" by (auto simp: suffix_def)
qed

lemma parser_answered_stays:
  assumes run: "parser_running os opt s" "parser_running os opt s'" and h: "suffix (hist s) (hist s')"
    and a: "a < brk s" "a < brk s'" "\<not> registered s a" "a \<notin> pending s"
  shows "calls a (hist s') = 1"
  using parser_calls [OF run(1) a(1)] parser_calls [OF run(2) a(2)] calls_suffix [OF h, of a] a(3,4)
  by (simp split: if_splits)

section \<open>A concrete run\<close>

text \<open>A client that connects and sends nothing: no event is reported after the first wake-up.\<close>

definition demo_silent_os :: os where
  "demo_silent_os = demo_parse_os\<lparr>os_epoll_wait := (\<lambda>h n ms. Inr (if waited h then [] else report h 3 n))\<rparr>"

primrec demo_silent_run :: "nat \<Rightarrow> parser" where
  "demo_silent_run 0 = demo_requested"
| "demo_silent_run (Suc i) = the (parser_pass demo_silent_os (demo_silent_run i))"

lemma demo_silent_env: "parser_env demo_silent_os" "epoll_wait_ok demo_silent_os"
  "time_passes demo_silent_os" "capacity_ok demo_silent_os"
proof -
  show "parser_env demo_silent_os"
    using demo_parse_env(1) by (simp add: parser_env_def epoll_ctl_ok_def clock_mono_def read_ok_def sock_ok_def demo_silent_os_def)
  have "\<exists>fes. distinct (map fst fes) \<and> length fes \<le> n \<and> fst ` set fes \<subseteq> dom (interest h) \<and>
     (if waited h then [] else report h 3 n) = map (\<lambda>(f, ev). (ev, snd (the (interest h f)))) fes" for h n
    using report_ok [of n h 3] by (cases "waited h") auto
  then show "epoll_wait_ok demo_silent_os" by (simp add: epoll_wait_ok_def demo_silent_os_def)
  have "\<exists>n. \<forall>h. n \<le> length h \<longrightarrow> t \<le> os_clock demo_silent_os h" for t
    by (rule exI [of _ "nat t"]) (auto simp: demo_silent_os_def demo_parse_os_def demo_os_def nat_le_iff)
  then show "time_passes demo_silent_os" by (simp add: time_passes_def)
  show "capacity_ok demo_silent_os" by (simp add: capacity_ok_def demo_silent_os_def demo_parse_os_def demo_os_def)
qed

lemma demo_silent_start: "parser_running demo_silent_os default_parser_options demo_requested"
proof -
  have c: "Parser_ctor demo_silent_os default_parser_options blank_parser = Some demo_parser"
    unfolding demo_parser_eq
    by (simp add: Parser_ctor_def EventLoop_ctor_def EPoll_ctor_def default_parser_options_def
      sys_epoll_create_def sys_pipe2_def sys_epoll_ctl_def EPoll_Add_def blank_parser_def Let_def log_event_def
      demo_silent_os_def demo_parse_os_def demo_os_def)
  have run: "ParseRequest demo_silent_os default_parser_options 5 (demo_parser\<lparr>cur_tid := 2\<rparr>) =
      Some (demo_requested\<lparr>cur_tid := 2\<rparr>)"
    unfolding demo_requested_eq
    by (simp add: ParseRequest_def new_ParseEventHandler_def new_EventHandler_def Let_def
      ScheduleOrRun_def EventLoop_Schedule_def on_loop_thread_def demo_parser_eq default_parser_options_def)
  have "parser_reach demo_silent_os default_parser_options demo_parser
      ((demo_requested\<lparr>cur_tid := 2\<rparr>)\<lparr>cur_tid := cur_tid demo_parser\<rparr>)"
    by (rule parser_reach.request [OF parser_reach.start _ _ _ run])
      (simp_all add: parser_fds_def pending_def demo_parser_eq)
  moreover have "(demo_requested\<lparr>cur_tid := 2\<rparr>)\<lparr>cur_tid := cur_tid demo_parser\<rparr> = demo_requested"
    by (simp add: demo_requested_eq demo_parser_eq)
  ultimately show ?thesis
    using c demo_silent_env by (auto simp: parser_running_def default_parser_options_def)
qed

text \<open>The wake-up pipe is reported when it should be.\<close>

definition woken_once :: "parser \<Rightarrow> bool" where
  "woken_once s \<longleftrightarrow> s = demo_requested \<or> sched s = [] \<and> waited (hist s)"

lemma woken_once_wakeup: "woken_once s \<Longrightarrow> wakeup_ok demo_silent_os s \<and> wakeup_live demo_silent_os s"
  by (auto simp: woken_once_def wakeup_ok_def wakeup_live_def demo_silent_os_def report_def waited_def
      demo_requested_eq demo_parser_eq)

lemma demo_silent_step:
  assumes "parser_running demo_silent_os default_parser_options s" and "woken_once s"
  shows "\<exists>s'. parser_pass demo_silent_os s = Some s' \<and>
    parser_running demo_silent_os default_parser_options s' \<and> woken_once s'"
proof -
  note w = woken_once_wakeup [OF assms(2)]
  have "\<not> wait_fails demo_silent_os s" by (simp add: wait_fails_def demo_silent_os_def)
  with parser_pass_ok [OF demo_silent_env(1,2) parser_running_good [OF assms(1)]] w demo_silent_env(4)
  obtain s' k ms q where s': "parser_pass demo_silent_os s = Some s'" "sched s' = tl (sched s)"
    "suffix (Epoll_wait k ms q # hist s) (hist s')" by blast
  have "sched s' = []" using assms(2) s'(2) by (auto simp: woken_once_def demo_requested_eq)
  moreover have "waited (hist s')" using s'(3) by (auto simp: suffix_def waited_def)
  moreover have "parser_running demo_silent_os default_parser_options s'"
    using assms(1) w s'(1) by (auto simp: parser_running_def intro: parser_reach.pass)
  ultimately show ?thesis using s'(1) by (auto simp: woken_once_def)
qed

lemma demo_silent_execution: "parser_execution demo_silent_os default_parser_options demo_silent_run"
proof -
  have r: "parser_running demo_silent_os default_parser_options (demo_silent_run i) \<and> woken_once (demo_silent_run i)" for i
  proof (induction i)
    case 0
    show ?case using demo_silent_start by (simp add: woken_once_def)
  next
    case (Suc i)
    with demo_silent_step [of "demo_silent_run i"] show ?case by auto
  qed
  have p: "parser_pass demo_silent_os (demo_silent_run i) = Some (demo_silent_run (Suc i))" for i
    using demo_silent_step [of "demo_silent_run i"] r [of i] by auto
  have w: "wakeup_ok demo_silent_os (demo_silent_run i)" "wakeup_live demo_silent_os (demo_silent_run i)" for i
    using woken_once_wakeup r [of i] by blast+
  show ?thesis
    unfolding parser_execution_def using r [of 0] p w parser_step.pass [OF w(1) p] by blast
qed

section \<open>Properties\<close>

text \<open>
  C7: Every request is answered.  In every infinite run of the parser in which its loop keeps being scheduled,
  each request is eventually answered, and from then on its callback has been called exactly once: also when the
  client sends nothing, or sends its request so slowly that it never ends.
\<close>

theorem parser_answers_eventually:
  assumes "parser_execution os opt r" and "time_passes os" and "capacity_ok os" and "a < brk (r i)"
  shows "\<exists>j \<ge> i. \<forall>k \<ge> j. calls a (hist (r k)) = 1"
proof -
  note run = parser_execution_step(1) [OF assms(1)]
    and fair = parser_execution_fair [OF assms(1,3)]
  from fair_run_settles [OF fair assms(2,4)] obtain j where
    j: "j \<ge> i" "a \<notin> pending (r j)" "\<not> registered (r j) a" by (auto simp: pending_def)
  have "calls a (hist (r k)) = 1" if k: "k \<ge> j" for k
  proof (rule parser_answered_stays [OF run run fair_run_grows(1) [OF fair k] _ _ j(3,2)])
    show "a < brk (r j)" "a < brk (r k)"
      using assms(4) fair_run_grows(2) [OF fair, of i j] fair_run_grows(2) [OF fair, of i k] j(1) k by simp_all
  qed
  with j(1) show ?thesis by blast
qed

theorem parser_answers_eventually_witness:
  "\<exists>j. calls 0 (hist (demo_silent_run j)) = 1"
proof -
  have "0 < brk (demo_silent_run 0)" by (simp add: demo_requested_eq)
  from parser_answers_eventually [OF demo_silent_execution demo_silent_env(3,4) this] show ?thesis by blast
qed

end
