(* ===== verification/Connector.thy ===== *)
theory Connector
  imports Event_Dispatch Sock Addr
begin

text \<open>
  The connector: \<open>src/src/connector.h\<close> and \<open>src/src/connector.cc\<close>.  A \<open>ConnectEventHandler\<close> has no field of its own
  besides its callback; calling the callback of handler \<open>a\<close> is the event \<open>Connector_callback (Some a)\<close>, and
  \<open>Connector_callback None\<close> is the call \<open>Connect\<close> makes itself when it cannot even start.
\<close>

datatype conn_func = AddConn addr

type_synonym connector = "conn_func evl"

record conn_options =
  connect_timeout :: duration

definition default_conn_options :: conn_options where
  "default_conn_options = \<lparr>connect_timeout = 10 * 1000000000\<rparr>"

text \<open>\<open>ConnectAsync\<close> gives a connecting socket or \<open>-1\<close>.\<close>

definition ConnectAsync :: "os \<Rightarrow> addrinfo \<Rightarrow> 'a world_scheme \<Rightarrow> (fd \<times> 'a world_scheme) option" where
  "ConnectAsync os addr s =
     (case sys_socket os s of
        (Inl errno, s) \<Rightarrow> do {
          CHECK (errno = EMFILE \<or> errno = ENFILE \<or> errno = ENOBUFS \<or> errno = ENOMEM);
          Some (- 1, s)
        }
      | (Inr f, s) \<Rightarrow> do {
          ip_port \<leftarrow> Cast_addrinfo addr;
          let (r, s) = sys_setsockopt os f TCP_NODELAY s;
          CHECK (r = 0);
          let (r, s) = sys_connect os f ip_port s;
          if r \<noteq> 0 \<and> r \<noteq> EINPROGRESS then do {
            let (r, s) = sys_close os f s;
            CHECK (r = 0);
            Some (- 1, s)
          }
          else Some (f, s)
        })"

definition Connect_dtor :: "addr \<Rightarrow> connector \<Rightarrow> connector option" where
  "Connect_dtor a s = Some s"

definition Connect_Finish :: "os \<Rightarrow> addr \<Rightarrow> int \<Rightarrow> connector \<Rightarrow> connector option" where
  "Connect_Finish os a err s = do {
     s \<leftarrow> EventLoop_Remove os Connect_dtor (Some a) s;
     e \<leftarrow> ehs s a;
     if err = 0 then Some (log_event (Connector_callback (Some a) (eh_fd e)) s)
     else do {
       let (r, s) = sys_close os (eh_fd e) s;
       CHECK (r = 0);
       Some (log_event (Connector_callback (Some a) (- 1)) s)
     }
   }"

definition Connect_OnEvent :: "os \<Rightarrow> addr \<Rightarrow> epoll_events \<Rightarrow> connector \<Rightarrow> connector option" where
  "Connect_OnEvent os a events s =
     (if HasBits events EPOLLERR \<or> HasBits events EPOLLOUT then do {
        e \<leftarrow> ehs s a;
        (err, s) \<leftarrow> SockError os (eh_fd e) s;
        Connect_Finish os a err s
      }
      else Some s)"

definition Connect_OnTimeout :: "os \<Rightarrow> addr \<Rightarrow> connector \<Rightarrow> connector option" where
  "Connect_OnTimeout os a s = Connect_Finish os a ETIME s"

primrec conn_run :: "os \<Rightarrow> conn_func \<Rightarrow> connector \<Rightarrow> connector option" where
  "conn_run os (AddConn a) s = EventLoop_Add os (Some a) EPOLLOUT s"

definition Connector_Connect :: "os \<Rightarrow> addrinfo \<Rightarrow> connector \<Rightarrow> connector option" where
  "Connector_Connect os addr s = do {
     (f, s) \<leftarrow> ConnectAsync os addr s;
     if f < 0 then Some (log_event (Connector_callback None f) s)
     else do {
       (a, s) \<leftarrow> new_EventHandler f s;
       ScheduleOrRun (conn_run os) (Some (AddConn a)) s
     }
   }"

definition Connector_ctor :: "os \<Rightarrow> conn_options \<Rightarrow> connector \<Rightarrow> connector option" where
  "Connector_ctor os opt s = EventLoop_ctor os (connect_timeout opt) s"

section \<open>Starting to connect\<close>

text \<open>
  \<open>ConnectAsync\<close> returns, and closes the socket it has made if it cannot use it.
\<close>

lemma ConnectAsync_ok:
  assumes "new_socket_ok os" and "close_ok os" and ip: "Cast_addrinfo addr = Some ip"
  shows "\<exists>f es. ConnectAsync os addr s = Some (f, s\<lparr>hist := es @ hist s\<rparr>) \<and> (\<forall>e \<in> set es. quiet e \<and> \<not> is_callback e) \<and>
    ((\<exists>errno. os_socket os (hist s) = Inl errno \<and> f = - 1 \<and> es = [Socket (Inl errno)]) \<or>
     (\<exists>g r. os_socket os (hist s) = Inr g \<and> g \<ge> 0 \<and> (r = 0 \<or> r = EINPROGRESS) \<and> f = g \<and>
        es = [Connect g ip r, Setsockopt g TCP_NODELAY 0, Socket (Inr g)]) \<or>
     (\<exists>g r. os_socket os (hist s) = Inr g \<and> g \<ge> 0 \<and> r \<noteq> 0 \<and> r \<noteq> EINPROGRESS \<and> f = - 1 \<and>
        es = [Close g 0, Connect g ip r, Setsockopt g TCP_NODELAY 0, Socket (Inr g)]))"
proof (cases "os_socket os (hist s)")
  case (Inl e)
  then have "out_of_resources e" using assms(1) by (simp add: new_socket_ok_def)
  with Inl show ?thesis
    by (intro exI [of _ "- 1"] exI [of _ "[Socket (Inl e)]"])
      (simp add: ConnectAsync_def sys_socket_def Let_def log_event_def out_of_resources_def is_callback_def)
next
  case (Inr g)
  let ?h = "Setsockopt g TCP_NODELAY 0 # Socket (Inr g) # hist s"
  have g: "g \<ge> 0" "os_setsockopt os (Socket (Inr g) # hist s) g TCP_NODELAY = 0" using assms(1) Inr by (simp_all add: new_socket_ok_def)
  have close: "os_close os h g = 0" for h using assms(2) by (simp add: close_ok_def)
  show ?thesis
  proof (cases "os_connect os ?h g ip = 0 \<or> os_connect os ?h g ip = EINPROGRESS")
    case True
    with Inr g ip show ?thesis
      by (intro exI [of _ g] exI [of _ "[Connect g ip (os_connect os ?h g ip), Setsockopt g TCP_NODELAY 0, Socket (Inr g)]"])
        (auto simp: ConnectAsync_def sys_defs Let_def is_callback_def)
  next
    case False
    with Inr g ip close show ?thesis
      by (intro exI [of _ "- 1"] exI [of _ "[Close g 0, Connect g ip (os_connect os ?h g ip), Setsockopt g TCP_NODELAY 0, Socket (Inr g)]"])
        (auto simp: ConnectAsync_def sys_defs Let_def is_callback_def)
  qed
qed

end
