(* ===== verification/Connector_Loop.thy ===== *)
theory Connector_Loop
  imports Connector Event_Progress Demo_Kernel
begin

text \<open>
  The connector as a client of the event loop: its invariant and the interpretation of
  \<open>event_handlers\<close> with the class \<open>ConnectEventHandler\<close>.
\<close>

section \<open>The invariant\<close>

text \<open>How often the callback of a handler has been called.\<close>

primrec conn_calls :: "addr \<Rightarrow> history \<Rightarrow> nat" where
  "conn_calls a [] = 0"
| "conn_calls a (e # h) = conn_calls a h + (case e of Connector_callback p i \<Rightarrow> if p = Some a then 1 else 0 | _ \<Rightarrow> 0)"

definition connecting :: "connector \<Rightarrow> addr set" where
  "connecting s = {a. AddConn a \<in> set (sched s)}"

text \<open>
  A handler is first pending (its socket is connecting, its registration scheduled), then registered,
  then answered, then freed.
\<close>

definition ch_ok :: "nat \<Rightarrow> bool \<Rightarrow> history \<Rightarrow> addr \<Rightarrow> eh \<Rightarrow> bool" where
  "ch_ok n pend h a e \<longleftrightarrow>
     ref_count e = int n + of_bool (event_loop e \<noteq> None) \<and>
     (pend \<longrightarrow> event_loop e = None \<and> n = 0 \<and> eh_fd e \<notin> dom (interest h)) \<and>
     (\<not> pend \<longrightarrow> ref_count e > 0) \<and>
     conn_calls a h = of_bool (\<not> pend \<and> event_loop e = None)"

definition conn_at :: "nat \<Rightarrow> bool \<Rightarrow> addr \<Rightarrow> history \<Rightarrow> addr \<Rightarrow> eh option \<Rightarrow> bool" where
  "conn_at n pend b h a eo \<longleftrightarrow>
     (case eo of
        None \<Rightarrow> n = 0 \<and> \<not> pend \<and> conn_calls a h = of_bool (a < b)
      | Some e \<Rightarrow> ch_ok n pend h a e)"

definition cinv :: "os \<Rightarrow> (addr \<Rightarrow> nat) \<Rightarrow> connector \<Rightarrow> bool" where
  "cinv os t s \<longleftrightarrow>
     (\<exists>xs. evl_inv os s xs) \<and>
     (\<forall>a. conn_at (t a) (a \<in> connecting s) (brk s) (hist s) a (ehs s a)) \<and>
     distinct (sched s) \<and> inj_on (fd_of (ehs s)) (connecting s)"

lemma cinv_evl: "cinv os t s \<Longrightarrow> \<exists>xs. evl_inv os s xs"
  by (simp add: cinv_def)

lemma cinv_at: "cinv os t s \<Longrightarrow> conn_at (t a) (a \<in> connecting s) (brk s) (hist s) a (ehs s a)"
  by (simp add: cinv_def)

lemma cinv_handler: "cinv os t s \<Longrightarrow> ehs s a = Some e \<Longrightarrow> ch_ok (t a) (a \<in> connecting s) (hist s) a e"
  using cinv_at [of os t s a] by (simp add: conn_at_def)

lemma cinv_none:
  "cinv os t s \<Longrightarrow> ehs s a = None \<Longrightarrow>
   t a = 0 \<and> a \<notin> connecting s \<and> conn_calls a (hist s) = of_bool (a < brk s)"
  using cinv_at [of os t s a] by (simp add: conn_at_def)

lemma cinv_held: "cinv os t s \<Longrightarrow> t a > 0 \<Longrightarrow> ehs s a \<noteq> None"
  using cinv_none by fastforce

lemma cinvI:
  assumes "evl_inv os s xs" and "distinct (sched s)" and "inj_on (fd_of (ehs s)) (connecting s)"
    and "\<And>a. conn_at (t a) (a \<in> connecting s) (brk s) (hist s) a (ehs s a)"
  shows "cinv os t s"
  using assms unfolding cinv_def by blast

text \<open>Calls that neither answer a request nor change the interest list.\<close>

definition conn_silent :: "event list \<Rightarrow> bool" where
  "conn_silent es \<longleftrightarrow> (\<forall>e \<in> set es. quiet e \<and> \<not> is_callback e \<or> is_wait e)"

lemma conn_silent_append:
  assumes "conn_silent es"
  shows "interest (es @ h) = interest h" and "conn_calls a (es @ h) = conn_calls a h"
proof -
  have "interest (es @ h) = interest h \<and> conn_calls a (es @ h) = conn_calls a h"
    using assms
  proof (induction es)
    case (Cons e es)
    then have "quiet e \<and> \<not> is_callback e \<or> is_wait e" by (simp add: conn_silent_def)
    then have "interest (e # (es @ h)) = interest (es @ h)" "conn_calls a (e # (es @ h)) = conn_calls a (es @ h)"
      by (cases e; simp add: quiet_def is_callback_def)+
    with Cons show ?case by (simp add: conn_silent_def del: interest.simps conn_calls.simps)
  qed simp
  then show "interest (es @ h) = interest h" "conn_calls a (es @ h) = conn_calls a h" by simp_all
qed

lemma conn_silent_simps [simp]:
  "conn_silent []" "conn_silent (Clock_now t # es) = conn_silent es" "conn_silent (Epoll_wait n ms r # es) = conn_silent es"
  "conn_silent (Getsockopt f g # es) = conn_silent es"
  by (auto simp: conn_silent_def is_callback_def)

lemma conn_at_silent: "conn_silent es \<Longrightarrow> conn_at n pend b (es @ h) a eo = conn_at n pend b h a eo"
  by (simp add: conn_at_def ch_ok_def conn_silent_append cong: option.case_cong)

lemma cinv_cong:
  assumes inv: "cinv os t s" and ev: "evl_inv os s' xs" and "ehs s' = ehs s"
    and "brk s' = brk s" and "sched s' = sched s" and h: "hist s' = es @ hist s" "conn_silent es"
  shows "cinv os t s'"
proof (rule cinvI [OF ev])
  have p: "connecting s' = connecting s" using assms(5) by (simp add: connecting_def)
  show "distinct (sched s')" "inj_on (fd_of (ehs s')) (connecting s')"
    using inv assms p by (simp_all add: cinv_def)
  show "conn_at (t a) (a \<in> connecting s') (brk s') (hist s') a (ehs s' a)" for a
    using cinv_at [OF inv, of a] assms p by (simp add: conn_at_silent)
qed

lemma cinv_log:
  assumes inv: "cinv os t s" and mono: "clock_mono os" and e: "conn_silent [e]"
  shows "cinv os t (log_event e (s\<lparr>events_size := k\<rparr>))"
proof -
  from cinv_evl [OF inv] obtain xs where "evl_inv os s xs" by blast
  then have "evl_inv os (s\<lparr>events_size := k\<rparr>) xs" by (simp add: evl_inv_def on_loop_thread_def)
  with mono conn_silent_append(1) [OF e] have "evl_inv os (log_event e (s\<lparr>events_size := k\<rparr>)) xs"
    by (intro evl_inv_log) simp_all
  with inv show ?thesis by (rule cinv_cong [where es = "[e]"]) (simp_all add: log_event_def e)
qed

section \<open>Attempts\<close>

primrec no_attempt :: "event list \<Rightarrow> bool" where
  "no_attempt [] = True"
| "no_attempt (e # es) = (no_attempt es \<and>
     (case e of Connect f ip r \<Rightarrow> False | Socket r \<Rightarrow> False | Connector_callback p r \<Rightarrow> p \<noteq> None | _ \<Rightarrow> True))"

lemma no_attempt_append [simp]: "no_attempt (es @ fs) \<longleftrightarrow> no_attempt es \<and> no_attempt fs"
  by (induction es) auto

lemma no_attempt_Connect: "no_attempt es \<Longrightarrow> Connect f ip r \<notin> set es"
  by (induction es) auto

text \<open>
  How many attempts have been made, as every call of \<open>Connect\<close> makes one call of \<open>socket\<close>, and how many of them have been
  answered at once, before \<open>Connect\<close> returned: their callbacks belong to no handler.
\<close>

primrec tried :: "history \<Rightarrow> nat" where
  "tried [] = 0"
| "tried (e # h) = tried h + (case e of Socket r \<Rightarrow> 1 | _ \<Rightarrow> 0)"

primrec refused :: "history \<Rightarrow> nat" where
  "refused [] = 0"
| "refused (e # h) = refused h + (case e of Connector_callback p r \<Rightarrow> if p = None then 1 else 0 | _ \<Rightarrow> 0)"

lemma no_attempt_tried: "no_attempt es \<Longrightarrow> tried (es @ h) = tried h \<and> refused (es @ h) = refused h"
  by (induction es) (auto split: event.splits)

lemma no_attempt_refused: "no_attempt es \<Longrightarrow> Connector_callback None r \<notin> set es"
  by (induction es) auto

text \<open>The calls of \<open>connect\<close> that have succeeded or are in progress, oldest first: each makes a handler.\<close>

primrec attempts :: "history \<Rightarrow> (fd \<times> sockaddr) list" where
  "attempts [] = []"
| "attempts (e # h) = attempts h @ (case e of Connect f ip r \<Rightarrow> if r = 0 \<or> r = EINPROGRESS then [(f, ip)] else [] | _ \<Rightarrow> [])"

lemma attempts_append: "attempts (es @ h) = attempts h @ attempts es"
  by (induction es) auto

lemma no_attempt_attempts: "no_attempt es \<Longrightarrow> attempts es = []"
  by (induction es) (auto split: event.splits)

text \<open>The handler and the callback of an attempt have its socket.\<close>

definition matched :: "connector \<Rightarrow> bool" where
  "matched s \<longleftrightarrow> length (attempts (hist s)) = brk s \<and>
     (\<forall>i e. ehs s i = Some e \<longrightarrow> i < brk s \<and> eh_fd e = fst (attempts (hist s) ! i)) \<and>
     (\<forall>i r. Connector_callback (Some i) r \<in> set (hist s) \<longrightarrow> i < brk s \<and> (r = - 1 \<or> r = fst (attempts (hist s) ! i)))"

lemma matched_step:
  assumes m: "matched s" and h: "hist s' = es @ hist s" "attempts es = []" and b: "brk s' = brk s" and fds: "same_fds s s'"
    and cb: "\<And>i r. Connector_callback (Some i) r \<in> set es \<Longrightarrow> \<exists>e. ehs s i = Some e \<and> (r = - 1 \<or> r = eh_fd e)"
  shows "matched s'"
proof -
  have at: "attempts (hist s') = attempts (hist s)" by (simp add: h attempts_append)
  have "i < brk s \<and> eh_fd e = fst (attempts (hist s) ! i)" if "ehs s' i = Some e" for i e
    using that fds m by (force simp: same_fds_def matched_def)
  moreover have "i < brk s \<and> (r = - 1 \<or> r = fst (attempts (hist s) ! i))"
    if "Connector_callback (Some i) r \<in> set (es @ hist s)" for i r
    using that cb [of i r] m by (auto simp: matched_def)
  ultimately show ?thesis using m unfolding matched_def at b unfolding h(1) by (simp add: attempts_append h(2))
qed

lemma matched_start:
  assumes m: "matched s" and h: "hist s' = Connect f ip r # es @ hist s" "attempts es = []" "r = 0 \<or> r = EINPROGRESS"
    and b: "brk s' = Suc (brk s)" and e: "ehs s' = (ehs s)(brk s \<mapsto> e)" "eh_fd e = f"
    and cb: "\<And>i r. Connector_callback (Some i) r \<notin> set es"
  shows "matched s'"
proof -
  have at: "attempts (hist s') = attempts (hist s) @ [(f, ip)]" using h by (simp add: attempts_append)
  have "i < Suc (brk s) \<and> eh_fd d = fst ((attempts (hist s) @ [(f, ip)]) ! i)" if "ehs s' i = Some d" for i d
    using that e m by (auto simp: matched_def nth_append split: if_splits)
  moreover have "i < Suc (brk s) \<and> (q = - 1 \<or> q = fst ((attempts (hist s) @ [(f, ip)]) ! i))"
    if "Connector_callback (Some i) q \<in> set (hist s)" for i q
  proof -
    from that m have i: "i < brk s" "q = - 1 \<or> q = fst (attempts (hist s) ! i)" "length (attempts (hist s)) = brk s"
      unfolding matched_def by blast+
    then show ?thesis by (simp add: nth_append)
  qed
  moreover have "Connector_callback (Some i) q \<in> set (hist s') \<longleftrightarrow> Connector_callback (Some i) q \<in> set (hist s)" for i q
    using cb by (simp add: h(1))
  moreover have "length (attempts (hist s)) = brk s" using m by (simp add: matched_def)
  ultimately show ?thesis unfolding matched_def at b by simp
qed

section \<open>Reference counts\<close>

lemma cinv_refs:
  assumes inv: "cinv os t s" and a: "ehs s a = Some e" "a \<notin> connecting s"
    and r: "r = ref_count e + int n - int (t a)" "r > 0"
  shows "cinv os (t(a := n)) (s\<lparr>ehs := (ehs s)(a \<mapsto> e\<lparr>ref_count := r\<rparr>)\<rparr>)"
proof -
  let ?s = "s\<lparr>ehs := (ehs s)(a \<mapsto> e\<lparr>ref_count := r\<rparr>)\<rparr>"
  from cinv_evl [OF inv] obtain xs where x: "evl_inv os s xs" by blast
  have p: "connecting ?s = connecting s" by (simp add: connecting_def)
  have f: "fd_of (ehs ?s) = fd_of (ehs s)" using fd_of_same [of "ehs s" a e] a by simp
  show ?thesis
  proof (rule cinvI)
    show "evl_inv os ?s xs" using evl_inv_refs [OF x a(1), of r] r by simp
    show "distinct (sched ?s)" "inj_on (fd_of (ehs ?s)) (connecting ?s)"
      unfolding p f using inv by (simp_all add: cinv_def)
    show "conn_at ((t(a := n)) b) (b \<in> connecting ?s) (brk ?s) (hist ?s) b (ehs ?s b)" for b
      unfolding p using cinv_at [OF inv, of b] a r by (cases "b = a") (auto simp: conn_at_def ch_ok_def)
  qed
qed

lemma cinv_DecRef:
  assumes inv: "cinv os t s" and pos: "t a > 0"
  shows "\<exists>s'. DecRef Connect_dtor a s = Some s' \<and> cinv os (t(a := t a - 1)) s' \<and> sched s' = sched s \<and>
    registered s' = registered s \<and> hist s' = hist s \<and> brk s' = brk s \<and> keeps s s' \<and> same_fds s s'"
proof -
  from cinv_held [OF inv pos] obtain e where e: "ehs s a = Some e" by blast
  note ch = cinv_handler [OF inv e]
  then have np: "a \<notin> connecting s" and rc: "ref_count e = int (t a) + of_bool (event_loop e \<noteq> None)"
    using pos by (auto simp: ch_ok_def)
  show ?thesis
  proof (cases "ref_count e = 1")
    case False
    let ?s = "s\<lparr>ehs := (ehs s)(a \<mapsto> e\<lparr>ref_count := ref_count e - 1\<rparr>)\<rparr>"
    have gt: "ref_count e > 1" using False rc pos by (cases "event_loop e") auto
    then have "DecRef Connect_dtor a s = Some ?s" using e by (simp add: DecRef_def)
    moreover have "cinv os (t(a := t a - 1)) ?s" by (rule cinv_refs [OF inv e np]) (use pos gt in auto)
    moreover have "registered ?s = registered s" using e by (auto simp: registered_def fun_eq_iff)
    moreover from this e have "keeps s ?s" by (intro keepsI [of _ _ "[]"]) (auto simp: dl_def)
    moreover have "same_fds s ?s" by (rule same_fds_upd [OF e, where e' = "e\<lparr>ref_count := ref_count e - 1\<rparr>"]) simp_all
    ultimately show ?thesis by (intro exI [of _ ?s]) simp
  next
    case True
    with rc pos have un: "event_loop e = None" and t1: "t a = 1" by (auto split: if_splits simp: of_bool_def)
    let ?s = "s\<lparr>ehs := (ehs s)(a := None), nodes := (nodes s)(a := None)\<rparr>"
    have run: "DecRef Connect_dtor a s = Some ?s"
      using e True un by (simp add: DecRef_def delete_EventHandler_def Connect_dtor_def)
    from cinv_evl [OF inv] obtain xs where x: "evl_inv os s xs" by blast
    have na: "a \<notin> set xs" by (rule evl_inv_detached(1) [OF x e un])
    have lt: "a < brk s" using evl_inv_eh [OF x e] by (simp add: eh_ok_def)
    have one: "conn_calls a (hist s) = 1" using ch np un by (simp add: ch_ok_def)
    have "cinv os (t(a := t a - 1)) ?s"
    proof (rule cinvI)
      show "evl_inv os ?s xs" using evl_inv_free [OF x na] by (simp add: evl_inv_def on_loop_thread_def)
      have "fd_of ((ehs s)(a := None)) b = fd_of (ehs s) b" if "b \<in> connecting s" for b
        using that np by (auto simp: fd_of_def)
      then have "inj_on (fd_of ((ehs s)(a := None))) (connecting s) = inj_on (fd_of (ehs s)) (connecting s)"
        by (rule inj_on_cong)
      then show "inj_on (fd_of (ehs ?s)) (connecting ?s)" using inv by (simp add: cinv_def connecting_def)
      show "conn_at ((t(a := t a - 1)) b) (b \<in> connecting ?s) (brk ?s) (hist ?s) b (ehs ?s b)" for b
        using cinv_at [OF inv, of b] np lt one t1 by (cases "b = a") (simp_all add: conn_at_def connecting_def)
    qed (use inv in \<open>simp add: cinv_def\<close>)
    moreover have reg: "registered ?s = registered s" using e un by (auto simp: registered_def fun_eq_iff)
    moreover have "keeps s ?s"
    proof (rule keepsI [of _ _ "[]"])
      fix b assume "registered ?s b"
      with reg show "registered s b \<and> dl (ehs ?s) b = dl (ehs s) b"
        using e un by (auto simp: dl_def registered_def)
    qed simp_all
    moreover have "same_fds s ?s" by (rule same_fds_del) simp
    ultimately show ?thesis using run by (intro exI [of _ ?s]) simp
  qed
qed

section \<open>The end of an attempt\<close>

definition conn_env :: "os \<Rightarrow> bool" where
  "conn_env os \<longleftrightarrow> epoll_ctl_ok os \<and> clock_mono os \<and> sock_ok os \<and> close_ok os \<and> new_socket_ok os"

text \<open>
  A successful socket is given to the callback and stays open, any other is closed and the callback gets
  \<open>-1\<close>.
\<close>

definition outcome :: "int \<Rightarrow> addr \<Rightarrow> fd \<Rightarrow> event list" where
  "outcome err a f = (if err = 0 then [Connector_callback (Some a) f, Epoll_ctl CTL_DEL f 0 None 0]
     else [Connector_callback (Some a) (- 1), Close f 0, Epoll_ctl CTL_DEL f 0 None 0])"

lemma Connect_Finish_ok:
  assumes k: "conn_env os" and inv: "cinv os t s" and held: "t a > 0" and reg: "registered s a"
    and es: "\<forall>e \<in> set es. quiet e" "conn_silent es" and e1: "ehs s a = Some e"
  shows "\<exists>s'. Connect_Finish os a err (s\<lparr>hist := es @ hist s\<rparr>) = Some s' \<and>
    cinv os t s' \<and> sched s' = sched s \<and> brk s' = brk s \<and> \<not> registered s' a \<and>
    keeps s s' \<and> same_fds s s' \<and> hist s' = outcome err a (eh_fd e) @ es @ hist s"
proof -
  have kk: "epoll_ctl_ok os" "clock_mono os" and close: "\<And>h f. os_close os h f = 0"
    using k by (auto simp: conn_env_def close_ok_def)
  let ?s = "s\<lparr>hist := es @ hist s\<rparr>"
  from reg e1 have e: "ehs s a = Some e" "event_loop e = Some (self s)" by (auto simp: registered_def)
  from cinv_handler [OF inv e(1)] e(2) held have rc: "ref_count e = int (t a) + 1" and np: "a \<notin> connecting s"
    and c0: "conn_calls a (hist s) = 0" by (auto simp: ch_ok_def)
  from cinv_evl [OF inv] obtain xs where x: "evl_inv os s xs" by blast
  have mem: "a \<in> set xs" using evl_inv_registered [OF x] reg by simp
  have x1: "evl_inv os ?s xs" by (rule evl_inv_logs [OF x kk(2) es(1)])
  have "ehs ?s a = Some e" "ref_count e \<ge> 2" using e rc held by auto
  from EventLoop_Remove_spec [OF x1 kk mem this, of Connect_dtor] obtain ns l s1 where
    1: "EventLoop_Remove os Connect_dtor (Some a) ?s = Some s1"
      "s1 = ?s\<lparr>nodes := ns, expire := l, hist := Epoll_ctl CTL_DEL (eh_fd e) 0 None 0 # hist ?s,
           total_events := total_events ?s - 1,
           ehs := (ehs ?s)(a \<mapsto> e\<lparr>event_loop := None, ref_count := ref_count e - 1\<rparr>)\<rparr>"
      "evl_inv os s1 (remove1 a xs)" by blast
  let ?e = "e\<lparr>event_loop := None, ref_count := ref_count e - 1\<rparr>"
  let ?s' = "s1\<lparr>hist := outcome err a (eh_fd e) @ es @ hist s\<rparr>"
  have run: "Connect_Finish os a err ?s = Some ?s'"
    using 1(1,2) close by (simp add: Connect_Finish_def outcome_def log_event_def sys_close_def Let_def)
  have es': "ehs ?s' = (ehs s)(a \<mapsto> ?e)" "brk ?s' = brk s" "sched ?s' = sched s"
    using 1(2) by simp_all
  have p: "connecting ?s' = connecting s" using es'(3) by (simp add: connecting_def)
  have int: "interest (hist ?s') = (interest (hist s))(eh_fd e := None)"
    and calls: "conn_calls b (hist ?s') = conn_calls b (hist s) + (if b = a then 1 else 0)" for b
    by (auto simp: outcome_def conn_silent_append [OF es(2)])
  obtain fs where fs: "outcome err a (eh_fd e) = fs @ [Epoll_ctl CTL_DEL (eh_fd e) 0 None 0]" "\<forall>e \<in> set fs. quiet e"
    by (cases "err = 0") (auto simp: outcome_def)
  have "cinv os t ?s'"
  proof (rule cinvI)
    have "evl_inv os (s1\<lparr>hist := fs @ hist s1\<rparr>) (remove1 a xs)" by (rule evl_inv_logs [OF 1(3) kk(2) fs(2)])
    then show "evl_inv os ?s' (remove1 a xs)" using fs(1) 1(2) by simp
    have "fd_of (ehs ?s') = fd_of (ehs s)" using fd_of_same [of "ehs s" a e ?e] e es'(1) by simp
    then show "distinct (sched ?s')" "inj_on (fd_of (ehs ?s')) (connecting ?s')"
      using inv p es'(3) by (simp_all add: cinv_def)
    show "conn_at (t b) (b \<in> connecting ?s') (brk ?s') (hist ?s') b (ehs ?s' b)" for b
    proof (cases "b = a")
      case True
      then show ?thesis unfolding p es' using rc np held c0 calls int by (simp add: conn_at_def ch_ok_def)
    next
      case False
      with cinv_at [OF inv, of b] show ?thesis
        unfolding p es' using calls int by (auto simp: conn_at_def ch_ok_def split: option.splits)
    qed
  qed
  moreover have "\<not> registered ?s' a" using 1(2) by (auto simp: registered_def)
  moreover have "keeps s ?s'"
    by (rule keepsI [of _ _ "outcome err a (eh_fd e) @ es"])
      (use 1(2) quiet_no_add [OF es(1)] in \<open>auto simp: registered_def dl_def outcome_def quiet_not_adds\<close>)
  moreover have "same_fds s ?s'" by (rule same_fds_upd [OF e(1) es'(1)]) simp
  ultimately show ?thesis using run es'(2,3) by (intro exI [of _ ?s']) simp
qed

text \<open>
  An event ends the attempt with the socket's error, unless it is neither an error nor writability.
\<close>

lemma Connect_OnEvent_ok:
  assumes k: "conn_env os" and inv: "cinv os t s" and held: "t a > 0" and reg: "registered s a"
    and e: "ehs s a = Some e"
  shows "\<exists>s'. Connect_OnEvent os a ev s = Some s' \<and> cinv os t s' \<and> sched s' = sched s \<and> brk s' = brk s \<and> keeps s s' \<and> same_fds s s' \<and>
    (if HasBits ev EPOLLERR \<or> HasBits ev EPOLLOUT
     then \<exists>err. hist s' = outcome err a (eh_fd e) @ Getsockopt (eh_fd e) (Inr (err, 4)) # hist s \<and> \<not> registered s' a
     else s' = s)"
proof (cases "HasBits ev EPOLLERR \<or> HasBits ev EPOLLOUT")
  case True
  have "sock_ok os" using k by (simp add: conn_env_def)
  from SockError_ok [OF this, of "eh_fd e" s] obtain err where
    q: "SockError os (eh_fd e) s = Some (err, s\<lparr>hist := [Getsockopt (eh_fd e) (Inr (err, 4))] @ hist s\<rparr>)"
    by (auto simp: log_event_def)
  from Connect_Finish_ok [OF k inv held reg _ _ e, of "[Getsockopt (eh_fd e) (Inr (err, 4))]" err]
  obtain s' where "Connect_Finish os a err (s\<lparr>hist := [Getsockopt (eh_fd e) (Inr (err, 4))] @ hist s\<rparr>) = Some s'"
    "cinv os t s'" "sched s' = sched s" "brk s' = brk s" "\<not> registered s' a" "keeps s s'" "same_fds s s'"
    "hist s' = outcome err a (eh_fd e) @ [Getsockopt (eh_fd e) (Inr (err, 4))] @ hist s"
    by auto
  with True e q show ?thesis by (auto simp: Connect_OnEvent_def)
next
  case False
  with inv show ?thesis by (simp add: Connect_OnEvent_def keeps_refl same_fds_refl)
qed

lemma Connect_OnTimeout_ok:
  assumes "conn_env os" and "cinv os t s" and "t a > 0" and "registered s a" and "ehs s a = Some e"
  shows "\<exists>s'. Connect_OnTimeout os a s = Some s' \<and> cinv os t s' \<and> sched s' = sched s \<and> brk s' = brk s \<and>
    \<not> registered s' a \<and> keeps s s' \<and> same_fds s s' \<and>
    hist s' = outcome ETIME a (eh_fd e) @ hist s"
  using Connect_Finish_ok [OF assms(1-4) _ _ assms(5), of "[]" ETIME] by (simp add: Connect_OnTimeout_def)

text \<open>A pending handler is registered.\<close>

lemma conn_run_ok:
  assumes k: "conn_env os" and inv: "cinv os t s" and f: "sched s = f # fs"
  shows "\<exists>s'. conn_run os f (s\<lparr>sched := fs\<rparr>) = Some s' \<and> cinv os t s' \<and> brk s' = brk s \<and> sched s' = fs \<and> timeout s' = timeout s \<and>
    (timely (connecting s) s \<longrightarrow> timely (connecting s') s') \<and> same_fds s s' \<and>
    (\<exists>g a now. hist s' = [Epoll_ctl CTL_ADD g EPOLLOUT (Some a) 0, Clock_now now] @ hist s)"
proof (cases f)
  case (AddConn a)
  have kk: "epoll_ctl_ok os" "clock_mono os" using k by (auto simp: conn_env_def)
  have pa: "a \<in> connecting s" using f AddConn by (simp add: connecting_def)
  then obtain e where e: "ehs s a = Some e" using cinv_none [OF inv, of a] by (cases "ehs s a") auto
  from cinv_handler [OF inv e] pa have p: "ref_count e = 0" "event_loop e = None"
    "t a = 0" "eh_fd e \<notin> dom (interest (hist s))" "conn_calls a (hist s) = 0"
    by (simp_all add: ch_ok_def)
  from cinv_evl [OF inv] obtain xs where "evl_inv os s xs" by blast
  then have x: "evl_inv os (s\<lparr>sched := fs\<rparr>) xs" by (simp add: evl_inv_def on_loop_thread_def)
  from EventLoop_Add_spec [OF x kk, of a e EPOLLOUT] e p obtain ns l s' where
    1: "EventLoop_Add os (Some a) EPOLLOUT (s\<lparr>sched := fs\<rparr>) = Some s'" "evl_inv os s' (xs @ [a])"
      "hist s' = Epoll_ctl CTL_ADD (eh_fd e) EPOLLOUT (Some a) 0 # Clock_now (os_clock os (hist s)) # hist s"
      "ehs s' = (ehs s)(a \<mapsto> e\<lparr>ref_count := 1, event_loop := Some (self s),
                                  deadline := os_clock os (hist s) + timeout s\<rparr>)"
      "brk s' = brk s" "sched s' = fs" "timeout s' = timeout s" "self s' = self s"
    by auto
  let ?e = "e\<lparr>ref_count := 1, event_loop := Some (self s), deadline := os_clock os (hist s) + timeout s\<rparr>"
  have d: "distinct (sched s)" and inj: "inj_on (fd_of (ehs s)) (connecting s)" using inv by (simp_all add: cinv_def)
  have pe: "connecting s' = connecting s - {a}" using 1(6) f AddConn d by (auto simp: connecting_def)
  have fd: "fd_of (ehs s') = fd_of (ehs s)" using fd_of_same [of "ehs s" a e ?e] e 1(4) by simp
  have "cinv os t s'"
  proof (rule cinvI [OF 1(2)])
    show "distinct (sched s')" using d f 1(6) by simp
    show "inj_on (fd_of (ehs s')) (connecting s')" unfolding pe fd using inj by (rule inj_on_subset) auto
    show "conn_at (t b) (b \<in> connecting s') (brk s') (hist s') b (ehs s' b)" for b
    proof (cases "b = a")
      case True
      then show ?thesis unfolding pe 1 using p by (simp add: conn_at_def ch_ok_def)
    next
      case False
      show ?thesis
      proof (cases "ehs s b")
        case None
        with False cinv_at [OF inv, of b] show ?thesis unfolding pe 1 by (simp add: conn_at_def)
      next
        case (Some d)
        note q = cinv_handler [OF inv Some]
        have "b \<in> connecting s \<longrightarrow> fd_of (ehs s) b \<noteq> fd_of (ehs s) a"
          using False inj pa unfolding inj_on_def by blast
        then have "b \<in> connecting s \<longrightarrow> eh_fd d \<noteq> eh_fd e" using Some e by (simp add: fd_of_def)
        with q False Some show ?thesis
          unfolding pe 1 by (cases "event_loop d"; cases "b \<in> connecting s") (auto simp: conn_at_def ch_ok_def)
      qed
    qed
  qed
  moreover have "timely (connecting s') s'" if "timely (connecting s) s"
  proof (rule timely_register [OF that pa _ _ 1(3) 1(7,5)])
    show "a < brk s" using cinv_evl [OF inv] evl_inv_eh [of os s _ a, OF _ e] by (auto simp: eh_ok_def)
    show "dl (ehs s') a = os_clock os (hist s) + timeout s" by (simp add: 1(4) dl_def)
    show "registered s' b = registered s b \<and> dl (ehs s') b = dl (ehs s) b" if "b \<noteq> a" for b
      using that by (simp add: 1(4,8) dl_def registered_def)
  qed (simp add: pe)
  moreover have "same_fds s s'" by (rule same_fds_upd [OF e 1(4)]) simp
  ultimately show ?thesis using 1(1,3,5-7) AddConn by simp
qed

text \<open>
  The invariant of the interpretation also says that the deadlines are \<open>timely\<close> and the attempts \<open>matched\<close>, and that since the
  state \<open>s0\<close> the loop has neither allocated handlers nor started attempts.
\<close>

lemma no_attempt_outcome [simp]: "no_attempt (outcome err a f)"
  by (simp add: outcome_def)

definition cinv_since :: "os \<Rightarrow> connector \<Rightarrow> (addr \<Rightarrow> nat) \<Rightarrow> connector \<Rightarrow> bool" where
  "cinv_since os s0 t s \<longleftrightarrow> conn_env os \<and> cinv os t s \<and> timely (connecting s) s \<and> matched s \<and> brk s = brk s0 \<and>
     timeout s = timeout s0 \<and> (\<exists>es. hist s = es @ hist s0 \<and> no_attempt es)"

lemma cinv_sinceD:
  "cinv_since os s0 t s \<Longrightarrow> conn_env os" "cinv_since os s0 t s \<Longrightarrow> cinv os t s"
  "cinv_since os s0 t s \<Longrightarrow> clock_mono os"
  by (simp_all add: cinv_since_def conn_env_def)

lemma cinv_since_step:
  assumes inv: "cinv_since os s0 t s" and "cinv os t' s'" and "brk s' = brk s" and "hist s' = es @ hist s" and "no_attempt es"
    and k: "keeps s s'" and "sched s' = sched s" and fds: "same_fds s s'"
    and cb: "\<And>i r. Connector_callback (Some i) r \<in> set es \<Longrightarrow> \<exists>e. ehs s i = Some e \<and> (r = - 1 \<or> r = eh_fd e)"
  shows "cinv_since os s0 t' s'"
proof -
  from inv obtain fs where "hist s = fs @ hist s0" "no_attempt fs" by (auto simp: cinv_since_def)
  moreover have "timely (connecting s') s'"
    using inv by (intro timely_keeps [OF _ k]) (auto simp: cinv_since_def connecting_def assms(7))
  moreover have "timeout s' = timeout s" using k by (simp add: keeps_def)
  moreover have "matched s'"
    using inv by (intro matched_step [OF _ assms(4) no_attempt_attempts [OF assms(5)] assms(3) fds cb]) (simp_all add: cinv_since_def)
  ultimately show ?thesis using assms(1-5) by (auto simp: cinv_since_def intro!: exI [of _ "es @ fs"])
qed

interpretation connect: event_handlers os "Connect_OnEvent os" "Connect_OnTimeout os" Connect_dtor "conn_run os"
  "cinv_since os s0"
  for os s0
proof (unfold_locales, goal_cases)
  case (1 t s)
  then show ?case using cinv_evl cinv_sinceD(2) by blast
next
  case (2 t s now)
  have "cinv os t (log_event (Clock_now now) s)"
    using cinv_log [OF cinv_sinceD(2) [OF 2] cinv_sinceD(3) [OF 2], of "Clock_now now" "events_size s"] by simp
  then show ?case 
    by (rule cinv_since_step [OF 2, where es = "[Clock_now now]"])
      (simp_all add: log_event_def keeps_same [of _ _ "[Clock_now now]"] same_fds_refl)
next
  case (3 t s n ms r k)
  have "cinv os t (log_event (Epoll_wait n ms r) (s\<lparr>events_size := k\<rparr>))"
    using cinv_log [OF cinv_sinceD(2) [OF 3] cinv_sinceD(3) [OF 3], of "Epoll_wait n ms r" k] by simp
  then show ?case 
    by (rule cinv_since_step [OF 3, where es = "[Epoll_wait n ms r]"])
      (simp_all add: log_event_def keeps_same [of _ _ "[Epoll_wait n ms r]"] same_fds_refl)
next
  case (4 t s a)
  then show ?case using cinv_held cinv_sinceD(2) by blast
next
  case (5 t s a e)
  note inv = cinv_sinceD(2) [OF 5(1)]
  from cinv_evl [OF inv] obtain xs where x: "evl_inv os s xs" by blast
  have "event_loop e \<noteq> None" "ref_count e \<ge> 0"
    using 5(2,3) evl_inv_eh [OF x 5(3)] by (auto simp: registered_def eh_ok_def)
  moreover from this(1) have "a \<notin> connecting s" using cinv_handler [OF inv 5(3)] by (auto simp: ch_ok_def)
  ultimately have "cinv os (t(a := Suc (t a))) (s\<lparr>ehs := (ehs s)(a \<mapsto> e\<lparr>ref_count := ref_count e + 1\<rparr>)\<rparr>)"
    by (intro cinv_refs [OF inv 5(3)]) auto
  moreover have "keeps s (s\<lparr>ehs := (ehs s)(a \<mapsto> e\<lparr>ref_count := ref_count e + 1\<rparr>)\<rparr>)"
    using 5(3) by (intro keepsI [of _ _ "[]"]) (auto simp: registered_def dl_def)
  moreover have "same_fds s (s\<lparr>ehs := (ehs s)(a \<mapsto> e\<lparr>ref_count := ref_count e + 1\<rparr>)\<rparr>)"
    by (rule same_fds_upd [OF 5(3), where e' = "e\<lparr>ref_count := ref_count e + 1\<rparr>"]) simp_all
  ultimately show ?case by (intro cinv_since_step [OF 5(1), where es = "[]"]) simp_all
next
  case (6 t s a)
  from cinv_DecRef [OF cinv_sinceD(2) [OF 6(1)] 6(2)] obtain s' where s': "DecRef Connect_dtor a s = Some s'"
    "cinv os (t(a := t a - 1)) s'" "sched s' = sched s" "registered s' = registered s" "hist s' = hist s" "brk s' = brk s"
    "keeps s s'" "same_fds s s'" by blast
  from cinv_since_step [OF 6(1) s'(2), of "[]"] s' show ?case by simp
next
  case (7 t s a ev)
  from 7 obtain e where e: "ehs s a = Some e" by (auto simp: registered_def)
  from Connect_OnEvent_ok [OF cinv_sinceD(1,2) [OF 7(1)] 7(2,3) e, of ev] obtain s' where
    s': "Connect_OnEvent os a ev s = Some s'" "cinv os t s'" "sched s' = sched s" "brk s' = brk s" "keeps s s'" "same_fds s s'"
    and how: "hist s' = hist s \<or> (\<exists>err. hist s' = (outcome err a (eh_fd e) @ [Getsockopt (eh_fd e) (Inr (err, 4))]) @ hist s)"
    by (cases "HasBits ev EPOLLERR \<or> HasBits ev EPOLLOUT") auto
  from how obtain es where "hist s' = es @ hist s" "no_attempt es"
    "\<forall>i r. Connector_callback (Some i) r \<in> set es \<longrightarrow> i = a \<and> (r = - 1 \<or> r = eh_fd e)"
  proof
    assume "hist s' = hist s"
    with that [of "[]"] show thesis by simp
  next
    assume "\<exists>err. hist s' = (outcome err a (eh_fd e) @ [Getsockopt (eh_fd e) (Inr (err, 4))]) @ hist s"
    then obtain err where "hist s' = (outcome err a (eh_fd e) @ [Getsockopt (eh_fd e) (Inr (err, 4))]) @ hist s" by blast
    with that [OF this] show thesis by (auto simp: outcome_def split: if_splits)
  qed
  with cinv_since_step [OF 7(1) s'(2,4) _ _ s'(5,3,6), of es] s' e show ?case by blast
next
  case (8 t s a)
  from 8 obtain e where e: "ehs s a = Some e" by (auto simp: registered_def)
  from Connect_OnTimeout_ok [OF cinv_sinceD(1,2) [OF 8(1)] 8(2,3) e] obtain s' where
    s': "Connect_OnTimeout os a s = Some s'" "cinv os t s'" "sched s' = sched s" "brk s' = brk s" "\<not> registered s' a"
      "keeps s s'" "hist s' = outcome ETIME a (eh_fd e) @ hist s" "same_fds s s'" by blast
  have "\<exists>d. ehs s i = Some d \<and> (r = - 1 \<or> r = eh_fd d)" if "Connector_callback (Some i) r \<in> set (outcome ETIME a (eh_fd e))" for i r
    using that e by (auto simp: outcome_def split: if_splits)
  with cinv_since_step [OF 8(1) s'(2,4,7) _ s'(6,3,8)] keeps_registered [OF s'(6)] s' show ?case by simp
next
  case (9 t s f fs)
  from conn_run_ok [OF cinv_sinceD(1,2) [OF 9(1)] 9(2)] obtain s' g a now where
    s': "conn_run os f (s\<lparr>sched := fs\<rparr>) = Some s'" "cinv os t s'" "brk s' = brk s" "sched s' = fs"
      "timeout s' = timeout s" "timely (connecting s) s \<longrightarrow> timely (connecting s') s'"
      "hist s' = [Epoll_ctl CTL_ADD g EPOLLOUT (Some a) 0, Clock_now now] @ hist s" "same_fds s s'" by blast
  have "matched s'" using 9(1)
    by (intro matched_step [OF _ s'(7) _ s'(3,8)]) (simp_all add: cinv_since_def)
  from 9(1) obtain es where "hist s = es @ hist s0" "no_attempt es" by (auto simp: cinv_since_def)
  then have "\<exists>es. hist s' = es @ hist s0 \<and> no_attempt es"
    using s'(7) by (intro exI [of _ "[Epoll_ctl CTL_ADD g EPOLLOUT (Some a) 0, Clock_now now] @ es"]) simp
  with s' 9(1) \<open>matched s'\<close> show ?case by (auto simp: cinv_since_def)
qed

end
