(* ===== verification/Connector_Correct.thy ===== *)
theory Connector_Correct
  imports Connector_Loop
begin

text \<open>
  What the connector guarantees: every call of \<open>Connect\<close> is answered exactly once and in time, with a
  connected socket or, after closing it, with \<open>-1\<close>.
\<close>

section \<open>Runs\<close>

text \<open>
  Passes of the connector's event loop, between which a thread \<open>tid\<close> other than the loop's calls
  \<open>Connect\<close>.  A new socket does not have the number of a socket this loop still holds.
\<close>

definition conn_fds :: "connector \<Rightarrow> fd set" where
  "conn_fds s = dom (interest (hist s)) \<union> fd_of (ehs s) ` connecting s"

definition conn_pass :: "os \<Rightarrow> connector \<Rightarrow> connector option" where
  "conn_pass os = Loop_body os (Connect_OnEvent os) (Connect_OnTimeout os) Connect_dtor (conn_run os)"

definition fresh_socket :: "os \<Rightarrow> connector \<Rightarrow> bool" where
  "fresh_socket os s \<longleftrightarrow> (\<forall>f. os_socket os (hist s) = Inr f \<longrightarrow> f \<notin> conn_fds s)"

inductive conn_reach :: "os \<Rightarrow> connector \<Rightarrow> connector \<Rightarrow> bool" for os :: os and s0 :: connector where
  start: "conn_reach os s0 s0"
| connect: "conn_reach os s0 s \<Longrightarrow> fresh_socket os s \<Longrightarrow> tid \<noteq> loop_tid s \<Longrightarrow> Cast_addrinfo addr = Some ip \<Longrightarrow>
    Connector_Connect os addr (s\<lparr>cur_tid := tid\<rparr>) = Some s' \<Longrightarrow> conn_reach os s0 (s'\<lparr>cur_tid := cur_tid s\<rparr>)"
| pass: "conn_reach os s0 s \<Longrightarrow> wakeup_ok os s \<Longrightarrow> conn_pass os s = Some s' \<Longrightarrow> conn_reach os s0 s'"

text \<open>How a call of \<open>Connect\<close> ends, with the system calls it has made.\<close>

definition attempt_started :: "sockaddr \<Rightarrow> fd \<Rightarrow> connector \<Rightarrow> connector \<Rightarrow> bool" where
  "attempt_started ip f s s' \<longleftrightarrow> f \<ge> 0 \<and>
     (\<exists>r. (r = 0 \<or> r = EINPROGRESS) \<and> hist s' = [Connect f ip r, Setsockopt f TCP_NODELAY 0, Socket (Inr f)] @ hist s) \<and>
     sched s' = sched s @ [AddConn (brk s)] \<and> brk s' = Suc (brk s) \<and> fd_of (ehs s') (brk s) = f"

definition attempt_failed :: "sockaddr \<Rightarrow> fd \<Rightarrow> connector \<Rightarrow> connector \<Rightarrow> bool" where
  "attempt_failed ip f s s' \<longleftrightarrow> sched s' = sched s \<and> brk s' = brk s \<and>
     ((\<exists>r. f \<ge> 0 \<and> r \<noteq> 0 \<and> r \<noteq> EINPROGRESS \<and>
         hist s' = [Connector_callback None (- 1), Close f 0, Connect f ip r, Setsockopt f TCP_NODELAY 0, Socket (Inr f)] @ hist s) \<or>
      (\<exists>e. hist s' = [Connector_callback None (- 1), Socket (Inl e)] @ hist s))"

text \<open>A request is answered at once or schedules the registration of a new handler.\<close>

lemma Connect_schedules:
  assumes k: "conn_env os" and inv: "cinv os t s" and fresh: "fresh_socket os s" and tid: "tid \<noteq> loop_tid s"
    and addr: "Cast_addrinfo addr = Some ip"
  shows "\<exists>s' f. Connector_Connect os addr (s\<lparr>cur_tid := tid\<rparr>) = Some s' \<and> cinv os t (s'\<lparr>cur_tid := cur_tid s\<rparr>) \<and>
    (attempt_started ip f s s' \<or> attempt_failed ip f s s') \<and> keeps s (s'\<lparr>cur_tid := cur_tid s\<rparr>) \<and>
    (matched s \<longrightarrow> matched (s'\<lparr>cur_tid := cur_tid s\<rparr>))"
proof -
  have kk: "clock_mono os" "new_socket_ok os" "close_ok os" using k by (simp_all add: conn_env_def)
  from cinv_evl [OF inv] obtain xs where x: "evl_inv os s xs" by blast
  let ?t = "s\<lparr>cur_tid := tid\<rparr>"
  from ConnectAsync_ok [OF kk(2,3) addr, of ?t] obtain f es where
    run0: "ConnectAsync os addr ?t = Some (f, ?t\<lparr>hist := es @ hist ?t\<rparr>)"
    and q: "\<forall>e \<in> set es. quiet e \<and> \<not> is_callback e"
    and cs0: "(\<exists>errno. os_socket os (hist ?t) = Inl errno \<and> f = - 1 \<and> es = [Socket (Inl errno)]) \<or>
     (\<exists>g r. os_socket os (hist ?t) = Inr g \<and> g \<ge> 0 \<and> (r = 0 \<or> r = EINPROGRESS) \<and> f = g \<and>
        es = [Connect g ip r, Setsockopt g TCP_NODELAY 0, Socket (Inr g)]) \<or>
     (\<exists>g r. os_socket os (hist ?t) = Inr g \<and> g \<ge> 0 \<and> r \<noteq> 0 \<and> r \<noteq> EINPROGRESS \<and> f = - 1 \<and>
        es = [Close g 0, Connect g ip r, Setsockopt g TCP_NODELAY 0, Socket (Inr g)])"
    by blast
  have run: "ConnectAsync os addr ?t = Some (f, s\<lparr>cur_tid := tid, hist := es @ hist s\<rparr>)" using run0 by simp
  have hs: "hist ?t = hist s" by simp
  note cs = cs0 [unfolded hs]
  have es: "\<forall>e \<in> set es. quiet e" using q by blast
  have sil: "conn_silent es" unfolding conn_silent_def using q by blast
  have x1: "evl_inv os (s\<lparr>hist := es @ hist s\<rparr>) xs" by (rule evl_inv_logs [OF x kk(1) es])
  have inv1: "cinv os t (s\<lparr>hist := es @ hist s\<rparr>)" by (rule cinv_cong [OF inv x1, where es = es]) (simp_all add: sil)
  show ?thesis
  proof (cases "f < 0")
    case True
    let ?e = "Connector_callback None (- 1)"
    have run': "Connector_Connect os addr (s\<lparr>cur_tid := tid\<rparr>) = Some (s\<lparr>cur_tid := tid, hist := ?e # es @ hist s\<rparr>)"
      using run True cs by (auto simp: Connector_Connect_def log_event_def)
    have same: "(s\<lparr>cur_tid := tid, hist := ?e # es @ hist s\<rparr>)\<lparr>cur_tid := cur_tid s\<rparr> = s\<lparr>hist := ?e # es @ hist s\<rparr>" by simp
    have x2: "evl_inv os (s\<lparr>hist := ?e # es @ hist s\<rparr>) xs"
      using evl_inv_logs [OF x kk(1), of "?e # es"] es by simp
    have "cinv os t (s\<lparr>hist := ?e # es @ hist s\<rparr>)"
    proof (rule cinvI [OF x2])
      show "conn_at (t a) (a \<in> connecting (s\<lparr>hist := ?e # es @ hist s\<rparr>)) (brk (s\<lparr>hist := ?e # es @ hist s\<rparr>))
          (hist (s\<lparr>hist := ?e # es @ hist s\<rparr>)) a (ehs (s\<lparr>hist := ?e # es @ hist s\<rparr>) a)" for a
        using cinv_at [OF inv1, of a] by (auto simp: conn_at_def ch_ok_def connecting_def split: option.splits)
    qed (use inv in \<open>simp_all add: cinv_def connecting_def\<close>)
    moreover obtain f where "attempt_failed ip f s (s\<lparr>cur_tid := tid, hist := ?e # es @ hist s\<rparr>)"
      using cs True by (auto simp: attempt_failed_def)
    moreover have "keeps s (s\<lparr>hist := ?e # es @ hist s\<rparr>)"
      by (rule keeps_same [of _ _ "?e # es"]) (simp_all add: quiet_no_add [OF es] quiet_not_adds)
    moreover have "matched (s\<lparr>hist := ?e # es @ hist s\<rparr>)" if "matched s"
      by (rule matched_step [OF that, where es = "?e # es"]) (use cs True in \<open>auto simp: same_fds_refl\<close>)
    ultimately show ?thesis unfolding run' using same by (intro exI [of _ "s\<lparr>cur_tid := tid, hist := ?e # es @ hist s\<rparr>"] exI [of _ f]) simp
  next
    case False
    with cs obtain r where f: "os_socket os (hist s) = Inr f" "f \<ge> 0" "r = 0 \<or> r = EINPROGRESS"
      "es = [Connect f ip r, Setsockopt f TCP_NODELAY 0, Socket (Inr f)]" by auto
    let ?a = "brk s" and ?e = "\<lparr>eh_fd = f, deadline = 0, event_loop = None, ref_count = 0\<rparr>"
    let ?s0 = "s\<lparr>hist := es @ hist s\<rparr>"
    let ?s1 = "?s0\<lparr>brk := Suc ?a, nodes := (nodes s)(?a \<mapsto> new_node), ehs := (ehs s)(?a \<mapsto> ?e)\<rparr>"
    have new: "new_EventHandler f ?s0 = Some (?a, ?s1)" using f by (simp add: new_EventHandler_def Let_def)
    note n = evl_inv_new [OF x1 new]
    let ?s = "?s1\<lparr>sched := sched s @ [AddConn ?a]\<rparr>"
    have run': "Connector_Connect os addr (s\<lparr>cur_tid := tid\<rparr>) =
        Some (s\<lparr>cur_tid := tid, hist := es @ hist s, brk := Suc ?a, nodes := (nodes s)(?a \<mapsto> new_node),
          ehs := (ehs s)(?a \<mapsto> ?e), sched := sched s @ [AddConn ?a]\<rparr>)" (is "_ = Some ?r")
      using run f tid by (simp add: Connector_Connect_def new_EventHandler_def Let_def
          ScheduleOrRun_def EventLoop_Schedule_def on_loop_thread_def)
    have same: "?r\<lparr>cur_tid := cur_tid s\<rparr> = ?s" by simp
    have none: "ehs s ?a = None" using n(4) by simp
    have c: "t ?a = 0" "?a \<notin> connecting s" "conn_calls ?a (hist s) = 0"
      using cinv_none [OF inv none] by simp_all
    have pe: "connecting ?s = insert ?a (connecting s)" by (auto simp: connecting_def)
    have fd: "fd_of (ehs ?s) b = fd_of (ehs s) b" if "b \<in> connecting s" for b
      using that c(2) by (auto simp: fd_of_def)
    have fr: "f \<notin> conn_fds s" using fresh f(1) by (simp add: fresh_socket_def)
    have int: "interest (hist ?s) = interest (hist s)" and calls: "conn_calls b (hist ?s) = conn_calls b (hist s)" for b
      by (simp_all add: conn_silent_append [OF sil])
    have "cinv os t ?s"
    proof (rule cinvI)
      show "evl_inv os ?s xs" using n(1) by (simp add: evl_inv_def on_loop_thread_def)
      show "distinct (sched ?s)" using inv c(2) by (simp add: cinv_def connecting_def)
      have "inj_on (fd_of (ehs ?s)) (connecting s)" using inv fd by (simp add: cinv_def cong: inj_on_cong)
      moreover have "fd_of (ehs ?s) ?a \<notin> fd_of (ehs ?s) ` connecting s" using fr fd by (auto simp: conn_fds_def)
      ultimately show "inj_on (fd_of (ehs ?s)) (connecting ?s)" unfolding pe using c(2) by simp
      show "conn_at (t b) (b \<in> connecting ?s) (brk ?s) (hist ?s) b (ehs ?s b)" for b
      proof (cases "b = ?a")
        case True
        then show ?thesis unfolding pe using c fr calls int by (simp add: conn_at_def ch_ok_def conn_fds_def)
      next
        case False
        with cinv_at [OF inv, of b] show ?thesis
          unfolding pe using calls int by (cases "ehs s b") (auto simp: conn_at_def ch_ok_def)
      qed
    qed
    moreover have "keeps s ?s"
    proof (rule keepsI [of _ _ es])
      show "registered s b \<and> dl (ehs ?s) b = dl (ehs s) b" if "registered ?s b" for b
        using that by (cases "b = ?a") (simp_all add: registered_def dl_def)
    qed (simp_all add: quiet_no_add [OF es])
    moreover have "matched ?s" if "matched s"
      by (rule matched_start [OF that, of _ f ip r "[Setsockopt f TCP_NODELAY 0, Socket (Inr f)]" ?e]) (use f in simp_all)
    ultimately show ?thesis using run' same f
      by (intro exI [of _ ?r] exI [of _ f]) (auto simp: fd_of_def attempt_started_def)
  qed
qed

text \<open>The invariant of runs.\<close>

definition conn_good :: "os \<Rightarrow> conn_options \<Rightarrow> connector \<Rightarrow> bool" where
  "conn_good os opt s \<longleftrightarrow>
     cinv os (\<lambda>_. 0) s \<and> timely (connecting s) s \<and> matched s \<and> timeout s = connect_timeout opt"

lemma conn_good_connect:
  assumes "conn_env os" and "conn_good os opt s" and "fresh_socket os s" and "tid \<noteq> loop_tid s" and "Cast_addrinfo addr = Some ip"
    and "Connector_Connect os addr (s\<lparr>cur_tid := tid\<rparr>) = Some s'"
  shows "conn_good os opt (s'\<lparr>cur_tid := cur_tid s\<rparr>)"
proof -
  from assms(2) have good: "cinv os (\<lambda>_. 0) s" "timely (connecting s) s" "timeout s = connect_timeout opt"
    "matched s" by (simp_all add: conn_good_def)
  from Connect_schedules [OF assms(1) good(1) assms(3-5)] assms(6) obtain f where
    s': "cinv os (\<lambda>_. 0) (s'\<lparr>cur_tid := cur_tid s\<rparr>)" "attempt_started ip f s s' \<or> attempt_failed ip f s s'"
      "keeps s (s'\<lparr>cur_tid := cur_tid s\<rparr>)" "matched (s'\<lparr>cur_tid := cur_tid s\<rparr>)" using good(4) by auto
  have "set (sched s') \<subseteq> insert (AddConn (brk s)) (set (sched s))"
    using s'(2) by (auto simp: attempt_started_def attempt_failed_def)
  then have "timely (connecting (s'\<lparr>cur_tid := cur_tid s\<rparr>)) (s'\<lparr>cur_tid := cur_tid s\<rparr>)"
    by (intro timely_schedule [OF good(2) s'(3)]) (auto simp: connecting_def)
  with s'(1,3,4) good(3) show ?thesis by (simp add: conn_good_def keeps_def)
qed

lemma conn_pass_waits: "conn_pass os s = Some s' \<Longrightarrow> \<not> wait_fails os s"
  unfolding conn_pass_def by (rule Loop_body_waits)

lemma conn_pass_ok:
  assumes env: "conn_env os" and wait: "epoll_wait_ok os" and good: "conn_good os opt s" and ok: "wakeup_ok os s"
    and nf: "\<not> wait_fails os s"
  shows "\<exists>s'. conn_pass os s = Some s' \<and> conn_good os opt s' \<and>
    (\<forall>a. registered s' a \<longrightarrow> on_time os s' a) \<and>
    brk s' = brk s \<and> (\<exists>es k ms q. hist s' = es @ Epoll_wait k ms q # hist s \<and> no_attempt es) \<and>
    (sched s' = sched s \<or> sched s' = tl (sched s)) \<and>
    (capacity_ok os \<and> wakeup_live os s \<longrightarrow> sched s' = tl (sched s))"
proof -
  from good have inv: "cinv os (\<lambda>_. 0) s" and t: "timely (connecting s) s" by (simp_all add: conn_good_def)
  from cinv_evl [OF inv] obtain xs where "evl_inv os s xs" by blast
  from wait_result [OF this wait nf ok] obtain ready k ms r where
    w: "EPoll_Wait os (Some (timeout s)) s = Some (ready, log_event (Epoll_wait k ms r) (s\<lparr>events_size := k\<rparr>))"
      "\<And>ev a. (ev, Some a) \<in> set ready \<Longrightarrow> registered s a" "length (filter (\<lambda>x. snd x = None) ready) \<le> 1"
      "None \<in> snd ` set ready \<longrightarrow> sched s \<noteq> []"
    and live: "capacity_ok os \<and> wakeup_live os s \<and> sched s \<noteq> [] \<longrightarrow> None \<in> snd ` set ready" by blast
  let ?w = "log_event (Epoll_wait k ms r) (s\<lparr>events_size := k\<rparr>)"
  have "cinv os (\<lambda>_. 0) ?w" using env inv by (intro cinv_log) (simp_all add: conn_env_def)
  moreover have "timely (connecting ?w) ?w"
    by (rule timely_keeps [OF t keeps_same [of _ _ "[Epoll_wait k ms r]"]]) (auto simp: log_event_def connecting_def)
  moreover have "matched s" using good by (simp add: conn_good_def)
  then have "matched ?w"
    by (rule matched_step [where es = "[Epoll_wait k ms r]"]) (simp_all add: log_event_def same_fds_refl)
  ultimately have "cinv_since os ?w (\<lambda>_. 0) ?w" using env by (simp add: cinv_since_def)
  from connect.Loop_after_wait [OF w(1) this _ w(3,4)] w(2) obtain s' where
    s': "conn_pass os s = Some s'" "cinv_since os ?w (\<lambda>_. 0) s'" "\<forall>a. registered s' a \<longrightarrow> on_time os s' a"
      "sched s' = (if None \<in> snd ` set ready then tl (sched s) else sched s)"
    unfolding conn_pass_def by blast
  from s'(2) good have "conn_good os opt s'" "brk s' = brk s"
      "\<exists>es. hist s' = es @ Epoll_wait k ms r # hist s \<and> no_attempt es"
    by (simp_all add: cinv_since_def conn_good_def log_event_def)
  moreover have "sched s' = tl (sched s)" if "capacity_ok os \<and> wakeup_live os s"
    using live that s'(4) by (cases "sched s = []") auto
  ultimately show ?thesis using s'(1,3,4) by (intro exI [of _ s']) (auto split: if_splits)
qed

definition blank_connector :: connector where
  "blank_connector = \<lparr>hist = [], total_events = 0, events_size = 0, nodes = Map.empty, ehs = Map.empty,
     expire = new_list, timeout = 0, self = 0, sched = [], pipe_rd = - 1, pipe_wr = - 1,
     loop_tid = 1, cur_tid = 1, brk = 0\<rparr>"

lemma no_attempt_ctor:
  assumes "Connector_ctor os opt blank_connector = Some s"
  shows "no_attempt (hist s)"
  using assms
  by (auto simp: Connector_ctor_def EventLoop_ctor_def EPoll_ctor_def EPoll_Add_def AddFlags_def blank_connector_def sys_defs Let_def
      split: bind_splits sum.splits if_splits)

lemma conn_good_ctor:
  assumes "Connector_ctor os opt blank_connector = Some s0"
  shows "conn_good os opt s0"
proof -
  have run: "EventLoop_ctor os (connect_timeout opt) blank_connector = Some s0"
    using assms by (simp add: Connector_ctor_def)
  note c = EventLoop_ctor_inv [OF run]
  have 1: "evl_inv os s0 []" "sched s0 = []" "ehs s0 = Map.empty"
    using c by (simp_all add: blank_connector_def on_loop_thread_def)
  from EventLoop_ctor_result [OF run] obtain es where
    h: "hist s0 = Epoll_ctl CTL_ADD (pipe_rd s0) EPOLLIN None 0 # es @ []"
      "\<forall>e \<in> set es. quiet e \<and> \<not> is_callback e" and b: "brk s0 = 0"
    by (auto simp: blank_connector_def)
  have "conn_calls a es = 0" for a
    using h(2) by (induction es) (auto simp: is_callback_def split: event.splits)
  then have "conn_calls a (hist s0) = 0" for a using h(1) by simp
  with 1 b have "cinv os (\<lambda>_. 0) s0" by (intro cinvI) (simp_all add: conn_at_def connecting_def)
  moreover have "no_add es" using h(2) by (simp add: quiet_no_add)
  then have "added_at a (hist s0) = None" for a using h(1) by (simp add: added_at_append [of es a "[]", simplified])
  then have "timely (connecting s0) s0" using 1(3) by (simp add: timely_def registered_def)
  moreover have "Connector_callback p r \<notin> set es" for p r using h(2) by (auto simp: is_callback_def)
  then have "matched s0" using h(1) 1(3) b no_attempt_attempts [OF no_attempt_ctor [OF assms]] by (auto simp: matched_def)
  moreover have "timeout s0 = connect_timeout opt" using c(3) by (simp add: blank_connector_def on_loop_thread_def)
  ultimately show ?thesis by (simp add: conn_good_def)
qed

definition conn_running :: "os \<Rightarrow> conn_options \<Rightarrow> connector \<Rightarrow> bool" where
  "conn_running os opt s \<longleftrightarrow> conn_env os \<and> epoll_wait_ok os \<and>
     (\<exists>s0. Connector_ctor os opt blank_connector = Some s0 \<and> conn_reach os s0 s)"

lemma conn_running_good:
  assumes "conn_running os opt s"
  shows "conn_good os opt s"
proof -
  from assms obtain s0 where env: "conn_env os" "epoll_wait_ok os"
    and c: "Connector_ctor os opt blank_connector = Some s0" and r: "conn_reach os s0 s"
    by (auto simp: conn_running_def)
  from r show ?thesis
  proof (induction rule: conn_reach.induct)
    case start
    show ?case by (rule conn_good_ctor [OF c])
  next
    case (connect s tid addr ip s')
    show ?case by (rule conn_good_connect [OF env(1) connect.IH connect.hyps(2-5)])
  next
    case (pass s s')
    from conn_pass_ok [OF env pass.IH pass.hyps(2) conn_pass_waits [OF pass.hyps(3)]] pass.hyps(3) show ?case by auto
  qed
qed

lemma conn_running_cinv: "conn_running os opt s \<Longrightarrow> cinv os (\<lambda>_. 0) s"
  using conn_running_good [of os opt s] by (simp add: conn_good_def)

text \<open>The calls of the callback, by where the handler is.\<close>

lemma conn_calls_by_state:
  assumes "conn_running os opt s" and "a < brk s"
  shows "conn_calls a (hist s) = (if registered s a \<or> a \<in> connecting s then 0 else 1)"
proof (cases "ehs s a")
  case None
  with cinv_none [OF conn_running_cinv [OF assms(1)] None] assms(2) show ?thesis by (simp add: registered_def)
next
  case (Some e)
  note inv = conn_running_cinv [OF assms(1)]
  obtain xs where x: "evl_inv os s xs" using cinv_evl [OF inv] by blast
  have "event_loop e = None \<longleftrightarrow> \<not> registered s a"
    using evl_inv_eh [OF x Some] Some by (auto simp: registered_def eh_ok_def split: if_splits)
  with cinv_handler [OF inv Some] show ?thesis by (auto simp: ch_ok_def)
qed

text \<open>A call of \<open>Connect\<close> as a step, and what it counts for.\<close>

definition connects :: "os \<Rightarrow> connector \<Rightarrow> connector \<Rightarrow> bool" where
  "connects os s s' \<longleftrightarrow> (\<exists>tid addr ip s1. fresh_socket os s \<and> tid \<noteq> loop_tid s \<and> Cast_addrinfo addr = Some ip \<and>
     Connector_Connect os addr (s\<lparr>cur_tid := tid\<rparr>) = Some s1 \<and> s' = s1\<lparr>cur_tid := cur_tid s\<rparr>)"

definition attempt_counted :: "connector \<Rightarrow> connector \<Rightarrow> bool" where
  "attempt_counted s s' \<longleftrightarrow> tried (hist s') = Suc (tried (hist s)) \<and>
     (brk s' = Suc (brk s) \<and> refused (hist s') = refused (hist s) \<and> brk s \<in> connecting s' \<or>
      brk s' = brk s \<and> refused (hist s') = Suc (refused (hist s)))"

lemma connects_counted:
  assumes run: "conn_running os opt s" and "connects os s s'"
  shows "attempt_counted s s'" and "Connector_callback None r \<in> set (hist s') \<Longrightarrow> r = - 1 \<or> Connector_callback None r \<in> set (hist s)"
proof -
  from assms(2) obtain tid addr ip s1 where c: "fresh_socket os s" "tid \<noteq> loop_tid s" "Cast_addrinfo addr = Some ip"
    "Connector_Connect os addr (s\<lparr>cur_tid := tid\<rparr>) = Some s1" "s' = s1\<lparr>cur_tid := cur_tid s\<rparr>" by (auto simp: connects_def)
  have env: "conn_env os" using run by (simp add: conn_running_def)
  from Connect_schedules [OF env conn_running_cinv [OF run] c(1-3)] c(4) obtain f where
    s1: "attempt_started ip f s s1 \<or> attempt_failed ip f s s1" by auto
  then show "attempt_counted s s'"
    by (auto simp: attempt_counted_def attempt_started_def attempt_failed_def connecting_def c(5))
  show "r = - 1 \<or> Connector_callback None r \<in> set (hist s)" if "Connector_callback None r \<in> set (hist s')"
    using s1 that by (auto simp: attempt_started_def attempt_failed_def c(5))
qed

text \<open>So the attempts are those with a handler and those answered at once.\<close>

lemma conn_running_counts:
  assumes "conn_running os opt s"
  shows "tried (hist s) = brk s + refused (hist s) \<and> (\<forall>r. Connector_callback None r \<in> set (hist s) \<longrightarrow> r = - 1)"
proof -
  from assms obtain s0 where env: "conn_env os" "epoll_wait_ok os"
    and c: "Connector_ctor os opt blank_connector = Some s0" and r: "conn_reach os s0 s"
    by (auto simp: conn_running_def)
  have running: "conn_running os opt x" if "conn_reach os s0 x" for x using that env c by (auto simp: conn_running_def)
  from r show ?thesis
  proof (induction rule: conn_reach.induct)
    case start
    have "brk s0 = 0" using EventLoop_ctor_result [OF c [unfolded Connector_ctor_def]] by (auto simp: blank_connector_def)
    with no_attempt_tried [OF no_attempt_ctor [OF c], of "[]"] no_attempt_refused [OF no_attempt_ctor [OF c]] show ?case by simp
  next
    case (connect s tid addr ip s')
    have "connects os s (s'\<lparr>cur_tid := cur_tid s\<rparr>)" unfolding connects_def using connect.hyps(2-5) by blast
    note x = connects_counted [OF running [OF connect.hyps(1)] this]
    from x(1) connect.IH show ?case using x(2) by (auto simp: attempt_counted_def)
  next
    case (pass s s')
    from conn_pass_ok [OF env conn_running_good [OF running [OF pass.hyps(1)]] pass.hyps(2) conn_pass_waits [OF pass.hyps(3)]]
      pass.hyps(3) obtain es k ms q where
      s': "brk s' = brk s" "hist s' = (es @ [Epoll_wait k ms q]) @ hist s" "no_attempt (es @ [Epoll_wait k ms q])" by auto
    then show ?case
      unfolding s'(1,2) no_attempt_tried [OF s'(3), THEN conjunct1] no_attempt_tried [OF s'(3), THEN conjunct2]
      using pass.IH no_attempt_refused [OF s'(3)] by auto
  qed
qed

section \<open>A concrete run\<close>

text \<open>The kernel makes socket \<open>9\<close>, on which connecting is in progress and then succeeds.\<close>

definition demo_conn_os :: os where
  "demo_conn_os = demo_os\<lparr>os_socket := (\<lambda>h. Inr 9), os_connect := (\<lambda>h f sa. EINPROGRESS),
     os_epoll_wait := (\<lambda>h n ms. Inr (report h (if waited h then 9 else 3) n))\<rparr>"

lemma demo_conn_env: "conn_env demo_conn_os" "epoll_wait_ok demo_conn_os"
proof -
  have "epoll_ctl_ok demo_conn_os" using demo_epoll_ctl by (simp add: epoll_ctl_ok_def demo_conn_os_def)
  moreover have "clock_mono demo_conn_os" using demo_clock by (simp add: clock_mono_def demo_conn_os_def)
  moreover have "sock_ok demo_conn_os" using demo_sock by (simp add: sock_ok_def demo_conn_os_def)
  moreover have "close_ok demo_conn_os" using demo_close by (simp add: close_ok_def demo_conn_os_def)
  moreover have "new_socket_ok demo_conn_os" by (simp add: new_socket_ok_def demo_conn_os_def demo_os_def)
  ultimately show "conn_env demo_conn_os" by (simp add: conn_env_def)
  show "epoll_wait_ok demo_conn_os" using report_ok by (simp add: epoll_wait_ok_def demo_conn_os_def)
qed

definition demo_addr :: addrinfo where
  "demo_addr = \<lparr>ai_addr = Some \<lparr>sa_family = AF_INET, sin_port = 80, sin_addr = 1\<rparr>, ai_next = None\<rparr>"

lemma demo_addr_ok: "Cast_addrinfo demo_addr = Some \<lparr>sa_family = AF_INET, sin_port = 80, sin_addr = 1\<rparr>"
  by (simp add: demo_addr_def Cast_addrinfo_def Cast_sockaddr_def)

definition demo_connector :: connector where
  "demo_connector = the (Connector_ctor demo_conn_os default_conn_options blank_connector)"

lemma demo_connector_ctor: "Connector_ctor demo_conn_os default_conn_options blank_connector = Some demo_connector"
  and demo_connector_eq: "demo_connector =
   \<lparr>hist = [Epoll_ctl CTL_ADD 3 EPOLLIN None 0, Pipe2 (Inr (3, 4)), Epoll_create (Inr 2)], total_events = 1,
     events_size = 0, nodes = Map.empty, ehs = Map.empty, expire = new_list, timeout = 10000000000,
     self = 0, sched = [], pipe_rd = 3, pipe_wr = 4, loop_tid = 1, cur_tid = 1, brk = 0\<rparr>"
  by (simp_all add: demo_connector_def Connector_ctor_def EventLoop_ctor_def EPoll_ctor_def default_conn_options_def
      sys_epoll_create_def sys_pipe2_def sys_epoll_ctl_def EPoll_Add_def blank_connector_def Let_def log_event_def
      demo_conn_os_def demo_os_def)

definition demo_connecting :: connector where
  "demo_connecting = (the (Connector_Connect demo_conn_os demo_addr (demo_connector\<lparr>cur_tid := 2\<rparr>)))\<lparr>cur_tid := 1\<rparr>"

lemma demo_connecting_run:
  "Connector_Connect demo_conn_os demo_addr (demo_connector\<lparr>cur_tid := 2\<rparr>) = Some (demo_connecting\<lparr>cur_tid := 2\<rparr>)"
  and demo_connecting_eq: "demo_connecting = demo_connector\<lparr>
     hist := [Connect 9 \<lparr>sa_family = AF_INET, sin_port = 80, sin_addr = 1\<rparr> EINPROGRESS, Setsockopt 9 TCP_NODELAY 0, Socket (Inr 9)] @ hist demo_connector,
     nodes := [0 \<mapsto> new_node], ehs := [0 \<mapsto> \<lparr>eh_fd = 9, deadline = 0, event_loop = None, ref_count = 0\<rparr>],
     sched := [AddConn 0], brk := 1\<rparr>"
  by (simp_all add: demo_connecting_def Connector_Connect_def ConnectAsync_def new_EventHandler_def Let_def sys_defs
      ScheduleOrRun_def EventLoop_Schedule_def on_loop_thread_def demo_connector_eq demo_conn_os_def demo_os_def
      demo_addr_def Cast_addrinfo_def Cast_sockaddr_def)

lemma demo_conn_running: "conn_running demo_conn_os default_conn_options demo_connecting"
proof -
  have "fresh_socket demo_conn_os demo_connector"
    by (simp add: fresh_socket_def conn_fds_def connecting_def demo_connector_eq demo_conn_os_def)
  then have "conn_reach demo_conn_os demo_connector ((demo_connecting\<lparr>cur_tid := 2\<rparr>)\<lparr>cur_tid := cur_tid demo_connector\<rparr>)"
    by (rule conn_reach.connect [OF conn_reach.start _ _ demo_addr_ok demo_connecting_run]) (simp add: demo_connector_eq)
  moreover have "(demo_connecting\<lparr>cur_tid := 2\<rparr>)\<lparr>cur_tid := cur_tid demo_connector\<rparr> = demo_connecting"
    by (simp add: demo_connecting_eq demo_connector_eq)
  ultimately show ?thesis using demo_connector_ctor demo_conn_env by (auto simp: conn_running_def)
qed

lemma demo_conn_wakeup: "wakeup_ok demo_conn_os demo_connecting"
  by (simp add: wakeup_ok_def demo_connecting_eq)

text \<open>The first pass registers the handler.\<close>

lemma demo_conn_pass:
  "\<exists>s e. conn_pass demo_conn_os demo_connecting = Some s \<and> registered s 0 \<and> ehs s 0 = Some e \<and> eh_fd e = 9 \<and> brk s = 1"
  unfolding conn_pass_def Loop_body_def demo_connecting_eq demo_connector_eq
  by (simp add: EventLoop_Add_def IncRef_def on_loop_thread_def upd_eh_def AddTail_def new_node_def
      new_list_def sys_defs EPoll_Add_def Let_def demo_conn_os_def demo_os_def registered_def
      EPoll_Wait_def report_def waited_def PopFunc_def expire_loop.simps)

lemma demo_conn_registered:
  "\<exists>s e. conn_running demo_conn_os default_conn_options s \<and> registered s 0 \<and> brk s = 1 \<and> ehs s 0 = Some e \<and> eh_fd e = 9"
proof -
  from demo_conn_pass obtain s e where s: "conn_pass demo_conn_os demo_connecting = Some s"
    "registered s 0" "brk s = 1" "ehs s 0 = Some e" "eh_fd e = 9" by blast
  with demo_conn_running demo_conn_wakeup have "conn_running demo_conn_os default_conn_options s"
    by (auto simp: conn_running_def intro: conn_reach.pass)
  with s show ?thesis by blast
qed

lemma demo_conn_held:
  "\<exists>s t e. cinv demo_conn_os t s \<and> t 0 > 0 \<and> registered s 0 \<and> ehs s 0 = Some e"
proof -
  from demo_conn_registered obtain s where s: "conn_running demo_conn_os default_conn_options s" "registered s 0" by blast
  have "cinv_since demo_conn_os s (\<lambda>_. 0) s"
    using demo_conn_env(1) conn_running_good [OF s(1)] by (simp add: cinv_since_def conn_good_def)
  from connect.IncRef_ok [OF this s(2)]
  obtain s' t where s': "cinv demo_conn_os t s'" "t 0 > 0" "registered s' 0" using s(2) by (force simp: cinv_since_def)
  then show ?thesis by (auto simp: registered_def)
qed

section \<open>Properties\<close>

text \<open>
  C29: The connector aborts in one case only and never hangs: from every reachable state the next pass of its event loop
  returns, whatever happens to the connections, unless its call of \<open>epoll_wait\<close> fails, as it does when a signal interrupts
  it (\<open>EINTR\<close>), which the code answers by aborting.  A pass that returns ends with a reading of the clock less than
  \<open>connect_timeout\<close> after the registration of every attempt that is still waiting.  The kernel is assumed to behave as
  \<open>conn_env\<close> and \<open>epoll_wait_ok\<close> say.
\<close>

theorem connector_pass_returns:
  assumes "conn_running os opt s" and "wakeup_ok os s"
  shows "(conn_pass os s = None \<longleftrightarrow> wait_fails os s) \<and>
    (\<forall>s'. conn_pass os s = Some s' \<longrightarrow> conn_running os opt s' \<and>
      (\<forall>a. registered s' a \<longrightarrow> within (connect_timeout opt) a (hist s')))"
proof (cases "wait_fails os s")
  case True
  then show ?thesis by (simp add: conn_pass_def Loop_body_waits(2))
next
  case False
  have env: "conn_env os" "epoll_wait_ok os" using assms(1) by (auto simp: conn_running_def)
  from conn_pass_ok [OF env conn_running_good [OF assms(1)] assms(2) False] obtain s' where
    s': "conn_pass os s = Some s'" "conn_good os opt s'" "\<forall>a. registered s' a \<longrightarrow> on_time os s' a" by blast
  then have "registered s' a \<longrightarrow> within (connect_timeout opt) a (hist s')" for a
    using on_time_within [of "connecting s'" s' a os] by (simp add: conn_good_def)
  moreover have "conn_running os opt s'"
    using assms s'(1) by (auto simp: conn_running_def intro: conn_reach.pass)
  ultimately show ?thesis using s'(1) False by simp
qed

theorem connector_pass_returns_witness:
  "\<exists>s'. conn_pass demo_conn_os demo_connecting = Some s'"
proof -
  have "\<not> wait_fails demo_conn_os demo_connecting" by (simp add: wait_fails_def demo_conn_os_def demo_os_def)
  with connector_pass_returns [OF demo_conn_running demo_conn_wakeup] show ?thesis by auto
qed

text \<open>
  C30: Every attempt is answered exactly once.  Every call of \<open>Connect\<close> is counted by \<open>tried\<close>.  In every
  reachable state these attempts are those that made a handler and those whose callback was called at once, with \<open>-1\<close>
  (\<open>refused\<close>).  The callback of an attempt with a handler has been called once if this handler is neither waiting to be
  registered nor registered, and not at all otherwise.
\<close>

theorem connector_answers_once:
  assumes "conn_running os opt s"
  shows "(\<forall>s'. connects os s s' \<longrightarrow> tried (hist s') = Suc (tried (hist s))) \<and>
    tried (hist s) = brk s + refused (hist s) \<and> (\<forall>r. Connector_callback None r \<in> set (hist s) \<longrightarrow> r = - 1) \<and>
    (\<forall>a < brk s. conn_calls a (hist s) = (if registered s a \<or> a \<in> connecting s then 0 else 1))"
  using connects_counted(1) [OF assms] conn_running_counts [OF assms] conn_calls_by_state [OF assms]
  unfolding attempt_counted_def by blast

theorem connector_answers_once_witness:
  "\<exists>s :: connector. registered s 0 \<and> conn_calls 0 (hist s) = 0 \<and> tried (hist s) = 1 + refused (hist s)"
proof -
  from demo_conn_registered obtain s where s: "conn_running demo_conn_os default_conn_options s" "registered s 0" "brk s = 1"
    by blast
  with connector_answers_once [OF s(1)] show ?thesis by auto
qed

text \<open>
  Starting an attempt.  \<open>Connect\<close> makes a socket and schedules its registration when \<open>connect\<close> succeeds or is in
  progress; otherwise it closes the socket, if it has one, and calls the callback with \<open>-1\<close>.
\<close>

theorem Connect_starts_or_answers:
  assumes "conn_running os opt s" and "fresh_socket os s" and "tid \<noteq> loop_tid s" and "Cast_addrinfo addr = Some ip"
  shows "\<exists>s' f. Connector_Connect os addr (s\<lparr>cur_tid := tid\<rparr>) = Some s' \<and> conn_running os opt (s'\<lparr>cur_tid := cur_tid s\<rparr>) \<and>
    (attempt_started ip f s s' \<or> attempt_failed ip f s s')"
proof -
  have env: "conn_env os" using assms(1) by (simp add: conn_running_def)
  have step: "conn_running os opt (s'\<lparr>cur_tid := cur_tid s\<rparr>)" if "Connector_Connect os addr (s\<lparr>cur_tid := tid\<rparr>) = Some s'" for s'
    using assms that by (auto simp: conn_running_def intro: conn_reach.connect)
  from Connect_schedules [OF env conn_running_cinv [OF assms(1)] assms(2-4)] show ?thesis
    using step by blast
qed

theorem Connect_starts_or_answers_witness:
  "\<exists>s'. Connector_Connect demo_conn_os demo_addr (demo_connector\<lparr>cur_tid := 2\<rparr>) = Some s' \<and>
    conn_running demo_conn_os default_conn_options (s'\<lparr>cur_tid := cur_tid demo_connector\<rparr>)"
proof -
  have r: "conn_running demo_conn_os default_conn_options demo_connector"
    using demo_connector_ctor demo_conn_env conn_reach.start by (auto simp: conn_running_def)
  have f: "fresh_socket demo_conn_os demo_connector" "2 \<noteq> loop_tid demo_connector"
    by (simp_all add: fresh_socket_def conn_fds_def connecting_def demo_connector_eq demo_conn_os_def)
  from Connect_starts_or_answers [OF r f demo_addr_ok] show ?thesis by blast
qed

text \<open>
  C31: The end of an attempt.  An error or writability ends it with the socket's pending error: the handler is unregistered, and
  either the callback gets the socket, which stays open, or the socket is closed and the callback
  gets \<open>-1\<close>; a timeout closes the socket in the same way; other events change nothing.
\<close>

theorem connector_hands_over_or_closes:
  assumes "conn_env os" and "cinv os t s" and "t a > 0" and "registered s a" and "ehs s a = Some e"
  shows "(\<exists>s'. Connect_OnEvent os a ev s = Some s' \<and>
      (if HasBits ev EPOLLERR \<or> HasBits ev EPOLLOUT
       then \<exists>err. hist s' = outcome err a (eh_fd e) @ Getsockopt (eh_fd e) (Inr (err, 4)) # hist s \<and> \<not> registered s' a
       else s' = s)) \<and>
    (\<exists>s'. Connect_OnTimeout os a s = Some s' \<and> \<not> registered s' a \<and>
      hist s' = [Connector_callback (Some a) (- 1), Close (eh_fd e) 0, Epoll_ctl CTL_DEL (eh_fd e) 0 None 0] @ hist s)"
proof -
  have "outcome ETIME a (eh_fd e) =
      [Connector_callback (Some a) (- 1), Close (eh_fd e) 0, Epoll_ctl CTL_DEL (eh_fd e) 0 None 0]"
    by (simp add: outcome_def)
  with Connect_OnEvent_ok [OF assms, of ev] Connect_OnTimeout_ok [OF assms] show ?thesis by (metis (no_types, lifting))
qed

theorem connector_hands_over_or_closes_witness:
  "\<exists>s (e :: eh) s'. registered s 0 \<and> Connect_OnTimeout demo_conn_os 0 s = Some s' \<and> \<not> registered s' 0 \<and>
    hist s' = [Connector_callback (Some 0) (- 1), Close (eh_fd e) 0, Epoll_ctl CTL_DEL (eh_fd e) 0 None 0] @ hist s"
proof -
  from demo_conn_held obtain s t e where s: "cinv demo_conn_os t s" "t 0 > 0" "registered s 0" "ehs s 0 = Some e" by blast
  from connector_hands_over_or_closes [OF demo_conn_env(1) s, of EPOLLIN] obtain s' where
    "Connect_OnTimeout demo_conn_os 0 s = Some s'" "\<not> registered s' 0"
    "hist s' = [Connector_callback (Some 0) (- 1), Close (eh_fd e) 0, Epoll_ctl CTL_DEL (eh_fd e) 0 None 0] @ hist s"
    by blast
  with s(3) show ?thesis by blast
qed

end
