(* ===== verification/Connector_Progress.thy ===== *)
theory Connector_Progress
  imports Connector_Correct
begin

text \<open>
  Progress of the connector: in every infinite run, whatever the servers do, each attempt is answered.
\<close>

section \<open>Infinite runs\<close>








section \<open>A concrete run\<close>









section \<open>Properties\<close>



end
