(* ===== verification/Work_Queue.thy ===== *)
theory Work_Queue
  imports Hcp_Prelude "HOL-Library.Multiset" "HOL-Library.Product_Lexorder"
begin

text \<open>
  The queue of a thread pool: \<open>ThreadPool::Work\<close> of \<open>src/src/thread_pool.h\<close> and the
  \<open>std::priority_queue\<close> of such works.  A work is ordered by the pair of its time and its
  index, lexicographically, as \<open>std::tie\<close> compares it; a \<open>std::priority_queue\<close> has the greatest
  element on top, so \<open>operator<\<close> swaps its arguments.  An empty \<open>std::function\<close> is \<open>None\<close>.
\<close>

record 'f work =
  w_t :: time
  w_idx :: int
  w_f :: "'f option"

definition work_key :: "'f work \<Rightarrow> time \<times> int" where
  "work_key w = (w_t w, w_idx w)"

definition work_less :: "'f work \<Rightarrow> 'f work \<Rightarrow> bool" where
  "work_less v w \<longleftrightarrow> work_key w < work_key v"

text \<open>The queue as a list, greatest element first.\<close>

fun pq_push :: "'f work \<Rightarrow> 'f work list \<Rightarrow> 'f work list" where
  "pq_push w [] = [w]"
| "pq_push w (v # q) = (if work_less v w then w # v # q else v # pq_push w q)"

definition pq_top :: "'f work list \<Rightarrow> 'f work" where
  "pq_top q = hd q"

definition pq_pop :: "'f work list \<Rightarrow> 'f work list" where
  "pq_pop q = tl q"

definition pq_ok :: "'f work list \<Rightarrow> bool" where
  "pq_ok q \<longleftrightarrow> sorted (map work_key q)"

section \<open>The interface of a priority queue\<close>

text \<open>
  What a user of \<open>std::priority_queue\<close> relies on: the queue holds the bag of the elements
  pushed and not popped, and the element on top has the least key.
\<close>

locale priority_queue =
  fixes empty :: 'q
    and push :: "'a \<Rightarrow> 'q \<Rightarrow> 'q"
    and top :: "'q \<Rightarrow> 'a"
    and pop :: "'q \<Rightarrow> 'q"
    and bag :: "'q \<Rightarrow> 'a multiset"
    and ok :: "'q \<Rightarrow> bool"
    and key :: "'a \<Rightarrow> 'k :: linorder"
  assumes ok_empty: "ok empty"
    and bag_empty: "bag q = {#} \<longleftrightarrow> q = empty"
    and ok_push: "ok q \<Longrightarrow> ok (push x q)"
    and bag_push: "bag (push x q) = add_mset x (bag q)"
    and top_in: "q \<noteq> empty \<Longrightarrow> top q \<in># bag q"
    and top_least: "ok q \<Longrightarrow> x \<in># bag q \<Longrightarrow> key (top q) \<le> key x"
    and ok_pop: "ok q \<Longrightarrow> ok (pop q)"
    and bag_pop: "q \<noteq> empty \<Longrightarrow> bag (pop q) = bag q - {#top q#}"
begin

lemma push_not_empty: "push x q \<noteq> empty"
  using bag_push [of x q] bag_empty [of "push x q"] by auto

lemma bag_top: "q \<noteq> empty \<Longrightarrow> bag q = add_mset (top q) (bag (pop q))"
  using bag_pop top_in by simp

text \<open>When the new element does not come out on top, the old top stays there.\<close>

lemma top_push_other:
  assumes "ok q" and inj: "inj_on key (set_mset (bag (push x q)))" and "top (push x q) \<noteq> x"
  shows "q \<noteq> empty" and "top (push x q) = top q"
proof -
  have t: "top (push x q) \<in># bag (push x q)" by (rule top_in [OF push_not_empty])
  then have tq: "top (push x q) \<in># bag q" using assms(3) by (simp add: bag_push)
  then show ne: "q \<noteq> empty" using bag_empty [of q] by auto
  have "key (top q) \<le> key (top (push x q))" by (rule top_least [OF assms(1) tq])
  moreover have "top q \<in># bag (push x q)" using top_in [OF ne] by (simp add: bag_push)
  then have "key (top (push x q)) \<le> key (top q)" by (rule top_least [OF ok_push [OF assms(1)]])
  ultimately have "key (top (push x q)) = key (top q)" by simp
  with inj t \<open>top q \<in># bag (push x q)\<close> show "top (push x q) = top q" by (auto dest: inj_onD)
qed

lemma top_push_le:
  assumes "ok q" and "x \<in># bag q"
  shows "key (top (push y q)) \<le> key x"
  using top_least [OF ok_push [OF assms(1)], of x y] assms(2) by (simp add: bag_push)

lemma top_pop_le:
  assumes "ok q" and "q \<noteq> empty" and "pop q \<noteq> empty"
  shows "key (top q) \<le> key (top (pop q))"
  using top_least [OF assms(1), of "top (pop q)"] top_in [OF assms(3)] bag_top [OF assms(2)] by simp

end

section \<open>The queue of works\<close>

lemma mset_pq_push [simp]: "mset (pq_push w q) = add_mset w (mset q)"
  by (induction q) simp_all

lemma pq_ok_push: "pq_ok q \<Longrightarrow> pq_ok (pq_push w q)"
proof (induction q)
  case (Cons v q)
  have s: "set (pq_push w q) = insert w (set q)"
    by (metis mset_pq_push set_mset_add_mset_insert set_mset_mset)
  show ?case
    using Cons by (auto simp: pq_ok_def work_less_def s simp flip: not_less intro: order.strict_implies_order dest: order.strict_trans2)
qed (simp add: pq_ok_def)

interpretation pq: priority_queue "[]" pq_push pq_top pq_pop mset pq_ok work_key
proof unfold_locales
  show "pq_ok ([] :: 'f work list)" by (simp add: pq_ok_def)
  show "mset q = {#} \<longleftrightarrow> q = []" for q :: "'f work list" by simp
  show "pq_ok (pq_push x q)" if "pq_ok q" for q and x :: "'f work" by (rule pq_ok_push [OF that])
  show "mset (pq_push x q) = add_mset x (mset q)" for q and x :: "'f work" by simp
  show "pq_top q \<in># mset q" if "q \<noteq> []" for q :: "'f work list" using that by (simp add: pq_top_def)
  show "work_key (pq_top q) \<le> work_key x" if "pq_ok q" "x \<in># mset q" for q and x :: "'f work"
    using that by (cases q) (auto simp: pq_ok_def pq_top_def)
  show "pq_ok (pq_pop q)" if "pq_ok q" for q :: "'f work list"
    using that by (cases q) (simp_all add: pq_ok_def pq_pop_def)
  show "mset (pq_pop q) = mset q - {#pq_top q#}" if "q \<noteq> []" for q :: "'f work list"
    using that by (cases q) (simp_all add: pq_top_def pq_pop_def)
qed

lemma work_key_eq: "work_key v = work_key w \<longleftrightarrow> w_t v = w_t w \<and> w_idx v = w_idx w"
  by (simp add: work_key_def)

end
