(* ===== verification/Thread_Pool.thy ===== *)
theory Thread_Pool
  imports Work_Queue
begin

text \<open>
  The thread pool: \<open>src/src/thread_pool.h\<close> and \<open>src/src/thread_pool.cc\<close>.

  Everything \<open>Schedule\<close> and the workers do with the fields of the pool happens under
  \<open>mutex_\<close>, so a step of the model is what a thread does between locking the mutex and releasing it, by
  \<open>unlock\<close> or by waiting on a condition variable; notifications are made without the mutex and
  are steps of their own.  Where a worker is between two steps is its program counter \<open>pc\<close>.  The
  clock is part of the state and only moves forward.  \<open>k_log\<close>, newest entry first, is not part of the code: it
  records the works scheduled and started.
\<close>

section \<open>The fields and the critical sections\<close>

datatype condvar = Cv | SleeperCv

datatype 'f pool_event = Scheduled "'f work" | Started time "'f work"

record 'f pool =
  last_idx :: int
  exiting :: bool
  have_sleeper :: bool
  works :: "'f work list"
  k_log :: "'f pool_event list"

text \<open>
  A worker is about to lock the mutex at the beginning of the loop in \<open>Next\<close>; waits on \<open>cv_\<close>;
  waits on \<open>sleeper_cv_\<close> until a time; has been woken there and is about to lock the mutex
  again; has left the critical section with a function and is about to notify \<open>cv_\<close>; runs a function; has
  left \<open>Loop\<close>.
\<close>

datatype 'f pc =
    Ready
  | CvWait
  | SleepWait time
  | SleepWoken
  | Popped "'f option"
  | Running 'f
  | Exited

text \<open>The critical section of \<open>Schedule\<close>; the result is \<open>wake\<close>.\<close>

definition Schedule_locked ::
  "time \<Rightarrow> 'f option \<Rightarrow> ('f, 'a) pool_scheme \<Rightarrow> condvar option \<times> ('f, 'a) pool_scheme" where
  "Schedule_locked t f p =
     (let idx = last_idx p + 1;
          w = \<lparr>w_t = t, w_idx = idx, w_f = f\<rparr>;
          p = p\<lparr>last_idx := idx, works := pq_push w (works p), k_log := Scheduled w # k_log p\<rparr>
      in (if w_idx (pq_top (works p)) = last_idx p
          then Some (if have_sleeper p then SleeperCv else Cv) else None,
          p))"

text \<open>What \<open>Loop\<close> does with the result of \<open>Next\<close>.\<close>

definition after_Next :: "'f option \<Rightarrow> 'f pc" where
  "after_Next f = (case f of None \<Rightarrow> Exited | Some f \<Rightarrow> Running f)"

text \<open>One round of the loop in \<open>Next\<close>, from its beginning up to where the mutex is released.\<close>

definition Next_round :: "time \<Rightarrow> ('f, 'a) pool_scheme \<Rightarrow> 'f pc \<times> ('f, 'a) pool_scheme" where
  "Next_round now p =
     (if exiting p then (after_Next None, p)
      else if works p = [] then (CvWait, p)
      else
        let top = pq_top (works p) in
        if w_t top \<le> now then
          let p = p\<lparr>works := pq_pop (works p), k_log := Started now top # k_log p\<rparr>;
              notify = (works p \<noteq> [] \<and> \<not> have_sleeper p)
          in (if notify then Popped (w_f top) else after_Next (w_f top), p)
        else if have_sleeper p then (CvWait, p)
        else (SleepWait (w_t top), p\<lparr>have_sleeper := True\<rparr>))"

text \<open>The same for the thread that has waited on \<open>sleeper_cv_\<close>.\<close>

definition Sleeper_round :: "time \<Rightarrow> ('f, 'a) pool_scheme \<Rightarrow> ('f pc \<times> ('f, 'a) pool_scheme) option" where
  "Sleeper_round now p = do {
     CHECK (have_sleeper p);
     Some (Next_round now (p\<lparr>have_sleeper := False\<rparr>))
   }"

section \<open>Threads\<close>

text \<open>
  \<open>notices\<close> are the notifications that callers of \<open>Schedule\<close> and the destructor have decided on but
  not yet made.
\<close>

datatype notice = Notify_one condvar | Notify_all condvar

record 'f tpool = "'f pool" +
  threads :: "'f pc list"
  notices :: "notice list"
  clock :: time

definition waiting :: "condvar \<Rightarrow> 'f pc \<Rightarrow> bool" where
  "waiting c p = (case p of CvWait \<Rightarrow> c = Cv | SleepWait d \<Rightarrow> c = SleeperCv | _ \<Rightarrow> False)"

definition woken :: "condvar \<Rightarrow> 'f pc" where
  "woken c = (case c of Cv \<Rightarrow> Ready | SleeperCv \<Rightarrow> SleepWoken)"

text \<open>A notification wakes one of the waiting threads, any one, or all of them.\<close>

inductive notify :: "notice \<Rightarrow> 'f pc list \<Rightarrow> 'f pc list \<Rightarrow> bool" where
  one: "waiting c p \<Longrightarrow> notify (Notify_one c) (as @ p # bs) (as @ woken c # bs)"
| none: "\<forall>p \<in> set ts. \<not> waiting c p \<Longrightarrow> notify (Notify_one c) ts ts"
| all: "notify (Notify_all c) ts (map (\<lambda>p. if waiting c p then woken c else p) ts)"

inductive_cases notify_oneE: "notify (Notify_one c) ts ts'"
inductive_cases notify_allE: "notify (Notify_all c) ts ts'"

text \<open>
  The steps the pool makes by itself: a pending notification is made, a worker locks the
  mutex and runs up to its release, a worker notifies \<open>cv_\<close> on its way out of \<open>Next\<close>, the
  deadline of a timed wait passes.
\<close>

inductive tp_run :: "'f tpool \<Rightarrow> 'f tpool \<Rightarrow> bool" where
  deliver: "notices s = ms @ n # ns \<Longrightarrow> notify n (threads s) ts \<Longrightarrow>
    tp_run s (s\<lparr>threads := ts, notices := ms @ ns\<rparr>)"
| round: "threads s = as @ Ready # bs \<Longrightarrow> Next_round (clock s) s = (p, s') \<Longrightarrow>
    tp_run s (s'\<lparr>threads := as @ p # bs\<rparr>)"
| sleeper: "threads s = as @ SleepWoken # bs \<Longrightarrow> Sleeper_round (clock s) s = Some (p, s') \<Longrightarrow>
    tp_run s (s'\<lparr>threads := as @ p # bs\<rparr>)"
| signal: "threads s = as @ Popped f # bs \<Longrightarrow> notify (Notify_one Cv) (as @ after_Next f # bs) ts \<Longrightarrow>
    tp_run s (s\<lparr>threads := ts\<rparr>)"
| timeout: "threads s = as @ SleepWait d # bs \<Longrightarrow> d \<le> clock s \<Longrightarrow>
    tp_run s (s\<lparr>threads := as @ SleepWoken # bs\<rparr>)"

text \<open>
  The steps made to it: any thread calls \<open>Schedule\<close>, a function returns, a wait ends
  spuriously, time passes, the destructor sets \<open>exit_\<close> and is about to notify everybody.
\<close>

definition notices_of :: "condvar option \<Rightarrow> notice list" where
  "notices_of wake = (case wake of None \<Rightarrow> [] | Some c \<Rightarrow> [Notify_one c])"

definition Schedule :: "time \<Rightarrow> 'f option \<Rightarrow> 'f tpool \<Rightarrow> 'f tpool" where
  "Schedule t f s =
     (let (wake, s) = Schedule_locked t f s in s\<lparr>notices := notices s @ notices_of wake\<rparr>)"

definition ThreadPool_dtor :: "'f tpool \<Rightarrow> 'f tpool" where
  "ThreadPool_dtor s = s\<lparr>exiting := True, notices := notices s @ [Notify_all Cv, Notify_one SleeperCv]\<rparr>"

text \<open>The last line of the destructor: it returns when every thread has left \<open>Loop\<close>.\<close>

definition joined :: "'f tpool \<Rightarrow> bool" where
  "joined s \<longleftrightarrow> (\<forall>p \<in> set (threads s). p = Exited)"

inductive tp_env :: "'f tpool \<Rightarrow> 'f tpool \<Rightarrow> bool" where
  schedule: "tp_env s (Schedule t f s)"
| finish: "threads s = as @ Running f # bs \<Longrightarrow> tp_env s (s\<lparr>threads := as @ Ready # bs\<rparr>)"
| spurious: "threads s = as @ p # bs \<Longrightarrow> waiting c p \<Longrightarrow> tp_env s (s\<lparr>threads := as @ woken c # bs\<rparr>)"
| tick: "clock s \<le> t \<Longrightarrow> tp_env s (s\<lparr>clock := t\<rparr>)"
| destroy: "\<not> exiting s \<Longrightarrow> tp_env s (ThreadPool_dtor s)"

definition ThreadPool_ctor :: "nat \<Rightarrow> time \<Rightarrow> 'f tpool" where
  "ThreadPool_ctor num_threads now =
     \<lparr>last_idx = 0, exiting = False, have_sleeper = False, works = [], k_log = [],
      threads = replicate num_threads Ready, notices = [], clock = now\<rparr>"

definition tp_reach :: "nat \<Rightarrow> 'f tpool \<Rightarrow> bool" where
  "tp_reach n s \<longleftrightarrow> (\<exists>now. (\<lambda>s s'. tp_run s s' \<or> tp_env s s')\<^sup>*\<^sup>* (ThreadPool_ctor n now) s)"

section \<open>The invariant\<close>

text \<open>The works scheduled and not started, from the log.\<close>

primrec unstarted :: "'f pool_event list \<Rightarrow> 'f work multiset" where
  "unstarted [] = {#}"
| "unstarted (e # l) = (case e of Scheduled w \<Rightarrow> add_mset w (unstarted l) | Started t w \<Rightarrow> unstarted l - {#w#})"

text \<open>Every work was started when it was due, and before every other one waiting with a greater key.\<close>

primrec log_ok :: "'f pool_event list \<Rightarrow> bool" where
  "log_ok [] \<longleftrightarrow> True"
| "log_ok (e # l) \<longleftrightarrow> log_ok l \<and>
     (case e of
        Scheduled w \<Rightarrow> True
      | Started t w \<Rightarrow> w \<in># unstarted l \<and> w_t w \<le> t \<and> (\<forall>v \<in># unstarted l. work_key w \<le> work_key v))"

definition queue_ok :: "('f, 'a) pool_scheme \<Rightarrow> bool" where
  "queue_ok p \<longleftrightarrow> pq_ok (works p) \<and> mset (works p) = unstarted (k_log p) \<and> log_ok (k_log p) \<and>
     distinct (map w_idx (works p)) \<and> (\<forall>w \<in> set (works p). w_idx w \<le> last_idx p)"

definition sleeping :: "'f pc \<Rightarrow> bool" where
  "sleeping p = (case p of SleepWait d \<Rightarrow> True | SleepWoken \<Rightarrow> True | _ \<Rightarrow> False)"

definition awake :: "'f pc \<Rightarrow> bool" where
  "awake p = (case p of Ready \<Rightarrow> True | Popped f \<Rightarrow> True | _ \<Rightarrow> False)"

text \<open>At most one thread is the sleeper.\<close>

definition sleeper_ok :: "'f tpool \<Rightarrow> bool" where
  "sleeper_ok s \<longleftrightarrow> length (filter sleeping (threads s)) = (if have_sleeper s then 1 else 0)"

text \<open>
  Somebody will look at the queue: the sleeper in time for the work on top; without a sleeper
  some thread that is awake or about to be woken, if there is one waiting at all.
\<close>

definition alert :: "'f pc list \<Rightarrow> notice list \<Rightarrow> bool \<Rightarrow> time \<Rightarrow> bool" where
  "alert ts ns sleeper t \<longleftrightarrow>
     (if sleeper
      then SleepWoken \<in> set ts \<or> (\<exists>d. SleepWait d \<in> set ts \<and> (d \<le> t \<or> Notify_one SleeperCv \<in> set ns))
      else (\<exists>p \<in> set ts. awake p) \<or> Notify_one Cv \<in> set ns \<or> CvWait \<notin> set ts)"

definition alert_ok :: "'f tpool \<Rightarrow> bool" where
  "alert_ok s \<longleftrightarrow> (works s \<noteq> [] \<and> \<not> exiting s \<longrightarrow>
     alert (threads s) (notices s) (have_sleeper s) (w_t (pq_top (works s))))"

text \<open>Once the destructor has set \<open>exit_\<close>, every waiting thread is going to be notified.\<close>

definition exit_ok :: "'f tpool \<Rightarrow> bool" where
  "exit_ok s \<longleftrightarrow> (exiting s \<longrightarrow>
     (CvWait \<in> set (threads s) \<longrightarrow> Notify_all Cv \<in> set (notices s)) \<and>
     (\<forall>d. SleepWait d \<in> set (threads s) \<longrightarrow> Notify_one SleeperCv \<in> set (notices s)))"

definition tp_inv :: "'f tpool \<Rightarrow> bool" where
  "tp_inv s \<longleftrightarrow> queue_ok s \<and> sleeper_ok s \<and> alert_ok s \<and> exit_ok s"

lemma pc_simps [simp]:
  "waiting c Ready = False" "waiting c CvWait = (c = Cv)" "waiting c (SleepWait d) = (c = SleeperCv)"
  "waiting c SleepWoken = False" "waiting c (Popped f) = False" "waiting c (Running g) = False"
  "waiting c Exited = False" "woken Cv = Ready" "woken SleeperCv = SleepWoken"
  "sleeping Ready = False" "sleeping CvWait = False" "sleeping (SleepWait d)" "sleeping SleepWoken"
  "sleeping (Popped f) = False" "sleeping (Running g) = False" "sleeping Exited = False"
  "awake Ready" "awake CvWait = False" "awake (SleepWait d) = False" "awake SleepWoken = False"
  "awake (Popped f)" "awake (Running g) = False" "awake Exited = False"
  by (simp_all add: waiting_def woken_def sleeping_def awake_def)

lemma after_Next_simps [simp]: "waiting c (after_Next f) = False" "sleeping (after_Next f) = False"
  "after_Next f \<noteq> CvWait" "after_Next f \<noteq> SleepWait d" "after_Next f \<noteq> SleepWoken"
  "CvWait \<noteq> after_Next f" "SleepWait d \<noteq> after_Next f" "SleepWoken \<noteq> after_Next f"
  by (simp_all add: after_Next_def split: option.splits)

end
