(* ===== verification/Thread_Pool_Safety.thy ===== *)
theory Thread_Pool_Safety
  imports Thread_Pool
begin

text \<open>
  The invariant of the thread pool is preserved by every step: the queue agrees with the log, there is
  at most one sleeper, and whenever there is work somebody is going to look at it.
\<close>

section \<open>The queue\<close>

lemma queue_ok_Schedule:
  assumes "queue_ok s"
  shows "queue_ok (snd (Schedule_locked t f s))"
proof -
  have "w_idx w < last_idx s + 1" if "w \<in> set (works s)" for w
    using that assms by (auto simp: queue_ok_def)
  moreover have "mset (map w_idx (pq_push w q)) = add_mset (w_idx w) (mset (map w_idx q))"
    for w :: "'a work" and q by simp
  then have "distinct (map w_idx (pq_push w q)) \<longleftrightarrow> w_idx w \<notin> w_idx ` set q \<and> distinct (map w_idx q)"
    for w :: "'a work" and q
    by (metis distinct.simps(2) list.simps(9) list.set_map mset.simps(2) mset_eq_imp_distinct_iff)
  moreover have "set (pq_push w q) = insert w (set q)" for w :: "'a work" and q
    by (metis mset_pq_push set_mset_add_mset_insert set_mset_mset)
  ultimately show ?thesis
    using assms pq.ok_push by (fastforce simp: queue_ok_def Schedule_locked_def Let_def)
qed

lemma queue_ok_inj:
  assumes "distinct (map w_idx q)"
  shows "inj_on work_key (set q)"
  using assms by (auto simp: inj_on_def work_key_eq distinct_map)

lemma queue_ok_pop:
  assumes "queue_ok s" and "works s \<noteq> []" and "w_t (pq_top (works s)) \<le> now"
  shows "queue_ok (s\<lparr>works := pq_pop (works s), k_log := Started now (pq_top (works s)) # k_log s\<rparr>)"
proof -
  from assms(2) obtain w q where w: "works s = w # q" by (cases "works s") auto
  have m: "unstarted (k_log s) = add_mset w (mset q)" using assms(1) w by (simp add: queue_ok_def)
  have ok: "pq_ok (w # q)" using assms(1) w by (simp add: queue_ok_def)
  have l: "\<forall>v \<in># add_mset w (mset q). work_key w \<le> work_key v"
    using pq.top_least [of "w # q"] ok by (simp add: pq_top_def)
  then show ?thesis
    using assms w m pq.ok_pop [OF ok]
    by (auto simp: queue_ok_def pq_top_def pq_pop_def)
qed

section \<open>A worker's round\<close>

definition others_ok :: "'f pc list \<Rightarrow> 'f tpool \<Rightarrow> bool" where
  "others_ok ts s \<longleftrightarrow> queue_ok s \<and>
     length (filter sleeping ts) = (if have_sleeper s then 1 else 0) \<and>
     (works s \<noteq> [] \<and> \<not> exiting s \<and> have_sleeper s \<longrightarrow>
        alert ts (notices s) True (w_t (pq_top (works s)))) \<and>
     (exiting s \<longrightarrow> (CvWait \<in> set ts \<longrightarrow> Notify_all Cv \<in> set (notices s)) \<and>
        (\<forall>d. SleepWait d \<in> set ts \<longrightarrow> Notify_one SleeperCv \<in> set (notices s)))"

lemma Next_round_inv:
  assumes "others_ok (as @ bs) s" and "Next_round now s = (p, s')"
  shows "tp_inv (s'\<lparr>threads := as @ p # bs\<rparr>)"
proof -
  note i = assms(1) [unfolded others_ok_def]
  consider "exiting s" | "\<not> exiting s" "works s = []"
    | "\<not> exiting s" "works s \<noteq> []" "w_t (pq_top (works s)) \<le> now"
    | "\<not> exiting s" "works s \<noteq> []" "\<not> w_t (pq_top (works s)) \<le> now" by blast
  then show ?thesis
  proof cases
    case 1
    with assms(2) i show ?thesis
      by (auto simp: Next_round_def tp_inv_def sleeper_ok_def alert_ok_def exit_ok_def queue_ok_def)
  next
    case 2
    with assms(2) i show ?thesis
      by (auto simp: Next_round_def tp_inv_def sleeper_ok_def alert_ok_def exit_ok_def queue_ok_def)
  next
    case 3
    let ?top = "pq_top (works s)"
    let ?s = "s\<lparr>works := pq_pop (works s), k_log := Started now ?top # k_log s\<rparr>"
    let ?notify = "pq_pop (works s) \<noteq> [] \<and> \<not> have_sleeper s"
    have p: "p = (if ?notify then Popped (w_f ?top) else after_Next (w_f ?top))" and s': "s' = ?s"
      using assms(2) 3 by (auto simp: Next_round_def Let_def)
    have q: "queue_ok ?s" using i 3 by (intro queue_ok_pop) auto
    have "alert_ok (s'\<lparr>threads := as @ p # bs\<rparr>)"
    proof (cases "have_sleeper s")
      case True
      then have a: "alert (as @ bs) (notices s) True (w_t ?top)" using i 3 by simp
      have "w_t ?top \<le> w_t (pq_top (pq_pop (works s)))" if "pq_pop (works s) \<noteq> []"
        using pq.top_pop_le [of "works s"] i 3 that by (auto simp: queue_ok_def work_key_def less_eq_prod_def)
      with a True show ?thesis by (auto simp: s' alert_ok_def alert_def)
    next
      case False
      then show ?thesis by (auto simp: s' p alert_ok_def alert_def)
    qed
    moreover have "sleeping p = False" using p by auto
    ultimately show ?thesis using q i 3
      by (auto simp: s' tp_inv_def sleeper_ok_def exit_ok_def queue_ok_def)
  next
    case 4
    with assms(2) i show ?thesis
      by (cases "have_sleeper s")
        (auto simp: Next_round_def Let_def tp_inv_def sleeper_ok_def alert_ok_def alert_def exit_ok_def queue_ok_def)
  qed
qed

lemma round_inv:
  assumes "tp_inv s" and "threads s = as @ Ready # bs" and "Next_round (clock s) s = (p, s')"
  shows "tp_inv (s'\<lparr>threads := as @ p # bs\<rparr>)"
proof (rule Next_round_inv [OF _ assms(3)])
  show "others_ok (as @ bs) s"
    using assms(1,2) by (auto simp: others_ok_def tp_inv_def sleeper_ok_def alert_ok_def alert_def exit_ok_def)
qed

lemma sleeper_holds:
  assumes "tp_inv s" and "threads s = as @ p # bs" and "sleeping p"
  shows "have_sleeper s" and "filter sleeping (as @ bs) = []"
  using assms by (auto simp: tp_inv_def sleeper_ok_def split: if_splits)

lemma sleeper_inv:
  assumes "tp_inv s" and "threads s = as @ SleepWoken # bs" and "Sleeper_round (clock s) s = Some (p, s')"
  shows "tp_inv (s'\<lparr>threads := as @ p # bs\<rparr>)"
proof (rule Next_round_inv)
  note h = sleeper_holds [OF assms(1,2)]
  show "Next_round (clock s) (s\<lparr>have_sleeper := False\<rparr>) = (p, s')"
    using assms(3) h by (simp add: Sleeper_round_def)
  show "others_ok (as @ bs) (s\<lparr>have_sleeper := False\<rparr>)"
    using assms(1,2) h(2) by (auto simp: others_ok_def tp_inv_def exit_ok_def queue_ok_def filter_empty_conv)
qed

section \<open>Notifications\<close>

lemma waiting_iff: "waiting c p \<longleftrightarrow> (c = Cv \<and> p = CvWait) \<or> (c = SleeperCv \<and> (\<exists>d. p = SleepWait d))"
  by (auto simp: waiting_def split: pc.splits)

lemma notify_sleepers:
  assumes "notify n ts ts'"
  shows "length (filter sleeping ts') = length (filter sleeping ts)"
  using assms
proof cases
  case (one c p as bs)
  then show ?thesis by (cases c) (auto simp: waiting_iff)
next
  case (all c)
  have "length (filter sleeping (map (\<lambda>p. if waiting c p then woken c else p) ts)) = length (filter sleeping ts)"
    by (cases c; induction ts) (auto simp: waiting_iff)
  with all show ?thesis by simp
qed simp

text \<open>After a notification of \<open>cv_\<close> somebody is awake or nobody waits.\<close>

lemma notify_Cv:
  assumes "notify (Notify_one Cv) ts ts'"
  shows "(\<exists>p \<in> set ts'. awake p) \<or> CvWait \<notin> set ts'"
    and "SleepWoken \<in> set ts' \<longleftrightarrow> SleepWoken \<in> set ts" and "SleepWait d \<in> set ts' \<longleftrightarrow> SleepWait d \<in> set ts"
    and "CvWait \<in> set ts' \<Longrightarrow> CvWait \<in> set ts"
  using assms by (auto elim!: notify_oneE simp: waiting_iff)

lemma notify_SleeperCv:
  assumes "notify (Notify_one SleeperCv) ts ts'" and "length (filter sleeping ts) \<le> 1"
  shows "SleepWait d \<notin> set ts'" and "p \<noteq> SleepWoken \<Longrightarrow> \<forall>d. p \<noteq> SleepWait d \<Longrightarrow> p \<in> set ts' \<longleftrightarrow> p \<in> set ts"
    and "SleepWait d \<in> set ts \<Longrightarrow> SleepWoken \<in> set ts'" and "SleepWoken \<in> set ts \<Longrightarrow> SleepWoken \<in> set ts'"
  using assms by (fastforce elim!: notify_oneE simp: waiting_iff filter_empty_conv)+

lemma notify_all:
  assumes "notify (Notify_all c) ts ts'"
  shows "\<not> waiting c p \<Longrightarrow> p \<noteq> woken c \<Longrightarrow> p \<in> set ts' \<longleftrightarrow> p \<in> set ts" 
    and "waiting c p \<Longrightarrow> p \<notin> set ts'" and "waiting c p \<Longrightarrow> p \<in> set ts \<Longrightarrow> woken c \<in> set ts'"
    and "woken c \<in> set ts \<Longrightarrow> woken c \<in> set ts'"
  using assms by (cases c; force elim!: notify_allE simp: waiting_iff)+

lemma alert_deliver:
  assumes "alert ts (ms @ n # ns) sl t" and "notify n ts ts'" and "length (filter sleeping ts) \<le> 1"
  shows "alert ts' (ms @ ns) sl t"
proof (cases n)
  case (Notify_one c)
  show ?thesis
  proof (cases c)
    case Cv
    from notify_Cv [OF assms(2) [unfolded Notify_one Cv]] assms(1) show ?thesis
      by (auto simp: alert_def Notify_one Cv)
  next
    case SleeperCv
    note n = assms(2) [unfolded Notify_one SleeperCv]
    show ?thesis
    proof (cases sl)
      case True
      with notify_SleeperCv [OF n assms(3)] assms(1) show ?thesis
        by (auto simp: alert_def)
    next
      case False
      have "\<forall>p. awake p \<longrightarrow> p \<in> set ts \<longrightarrow> p \<in> set ts'" "CvWait \<in> set ts' \<longleftrightarrow> CvWait \<in> set ts"
        using notify_SleeperCv(2) [OF n assms(3)] by (auto simp: awake_def split: pc.splits)
      with False assms(1) show ?thesis by (auto simp: alert_def Notify_one SleeperCv)
    qed
  qed
next
  case (Notify_all c)
  note n = notify_all [OF assms(2) [unfolded Notify_all]]
  show ?thesis
  proof (cases c)
    case Cv
    have "SleepWait d \<in> set ts' \<longleftrightarrow> SleepWait d \<in> set ts" "SleepWoken \<in> set ts' \<longleftrightarrow> SleepWoken \<in> set ts" for d
      using n(1) Cv by simp_all
    moreover have "CvWait \<notin> set ts'" using n(2) Cv by simp
    ultimately show ?thesis using assms(1) by (auto simp: alert_def Notify_all)
  next
    case SleeperCv
    have aw: "(\<exists>p \<in> set ts. awake p) \<Longrightarrow> (\<exists>p \<in> set ts'. awake p)"
    proof (elim bexE)
      fix p assume p: "p \<in> set ts" "awake p"
      then have "\<not> waiting c p" "p \<noteq> woken c" by (auto simp: SleeperCv waiting_iff)
      with n(1) p show "\<exists>p \<in> set ts'. awake p" by blast
    qed
    have cv: "CvWait \<in> set ts' \<longleftrightarrow> CvWait \<in> set ts" using n(1) [of CvWait] SleeperCv by simp
    have sl: "SleepWait d \<in> set ts \<Longrightarrow> SleepWoken \<in> set ts'" "SleepWoken \<in> set ts \<Longrightarrow> SleepWoken \<in> set ts'" for d
      using n(3) [of "SleepWait d"] n(4) SleeperCv by simp_all
    show ?thesis
    proof (cases sl)
      case True
      with assms(1) sl show ?thesis by (auto simp: alert_def)
    next
      case False
      with assms(1) aw cv show ?thesis by (simp add: alert_def Notify_all) blast
    qed
  qed
qed

lemma exit_deliver:
  assumes "CvWait \<in> set ts \<longrightarrow> Notify_all Cv \<in> set (ms @ n # ns)"
    and "\<forall>d. SleepWait d \<in> set ts \<longrightarrow> Notify_one SleeperCv \<in> set (ms @ n # ns)"
    and "notify n ts ts'" and "length (filter sleeping ts) \<le> 1"
  shows "CvWait \<in> set ts' \<longrightarrow> Notify_all Cv \<in> set (ms @ ns)"
    and "\<forall>d. SleepWait d \<in> set ts' \<longrightarrow> Notify_one SleeperCv \<in> set (ms @ ns)"
proof -
  have w: "p \<in> set ts' \<Longrightarrow> p \<in> set ts" if "p = CvWait \<or> p = SleepWait d" for p d
    using assms(3) that by cases (auto simp: waiting_iff woken_def split: if_splits condvar.splits)
  show "CvWait \<in> set ts' \<longrightarrow> Notify_all Cv \<in> set (ms @ ns)"
    using w [of CvWait] assms(1,3) notify_all(2) [of Cv ts ts' CvWait] by auto
  show "\<forall>d. SleepWait d \<in> set ts' \<longrightarrow> Notify_one SleeperCv \<in> set (ms @ ns)"
    using w [of "SleepWait _"] assms(2,3,4) notify_SleeperCv(1) [of ts ts'] by auto
qed

section \<open>Steps\<close>

lemma deliver_inv:
  assumes "tp_inv s" and "notices s = ms @ n # ns" and "notify n (threads s) ts"
  shows "tp_inv (s\<lparr>threads := ts, notices := ms @ ns\<rparr>)"
proof -
  have one: "length (filter sleeping (threads s)) \<le> 1" using assms(1) by (simp add: tp_inv_def sleeper_ok_def)
  let ?s = "s\<lparr>threads := ts, notices := ms @ ns\<rparr>"
  have "exit_ok ?s"
    using assms(1,2) exit_deliver [OF _ _ assms(3) one, of ms ns] unfolding tp_inv_def exit_ok_def by simp blast
  then show ?thesis
    using assms(1,2) notify_sleepers [OF assms(3)] alert_deliver [OF _ assms(3) one]
    by (simp add: tp_inv_def sleeper_ok_def alert_ok_def queue_ok_def)
qed

lemma tp_inv_threads:
  assumes "tp_inv s" and "length (filter sleeping ts) = length (filter sleeping (threads s))"
    and "\<And>h t. alert (threads s) (notices s) h t \<Longrightarrow> alert ts (notices s) h t"
    and "CvWait \<in> set ts \<Longrightarrow> CvWait \<in> set (threads s)"
    and "\<And>d. SleepWait d \<in> set ts \<Longrightarrow> SleepWait d \<in> set (threads s)"
  shows "tp_inv (s\<lparr>threads := ts\<rparr>)"
proof -
  have "alert_ok (s\<lparr>threads := ts\<rparr>)" using assms(1,3) by (simp add: tp_inv_def alert_ok_def)
  moreover have "exit_ok (s\<lparr>threads := ts\<rparr>)" using assms(1,4,5) by (auto simp: tp_inv_def exit_ok_def)
  ultimately show ?thesis using assms(1,2) by (simp add: tp_inv_def sleeper_ok_def queue_ok_def)
qed

lemma signal_inv:
  assumes "tp_inv s" and "threads s = as @ Popped f # bs" and "notify (Notify_one Cv) (as @ after_Next f # bs) ts"
  shows "tp_inv (s\<lparr>threads := ts\<rparr>)"
proof (rule tp_inv_threads [OF assms(1)])
  note n = notify_Cv [OF assms(3)]
  show "alert ts (notices s) h t" if "alert (threads s) (notices s) h t" for h t
    using that assms(2) n by (auto simp: alert_def)
  show "length (filter sleeping ts) = length (filter sleeping (threads s))"
    using notify_sleepers [OF assms(3)] assms(2) by simp
qed (use notify_Cv(3,4) [OF assms(3)] assms(2) in auto)

lemma wake_inv:
  assumes "tp_inv s" and "threads s = as @ p # bs" and "waiting c p"
  shows "tp_inv (s\<lparr>threads := as @ woken c # bs\<rparr>)"
proof (rule tp_inv_threads [OF assms(1)])
  show "alert (as @ woken c # bs) (notices s) h t" if "alert (threads s) (notices s) h t" for h t
    using that assms(2,3) by (cases c; cases h) (auto simp: alert_def waiting_iff)
  show "length (filter sleeping (as @ woken c # bs)) = length (filter sleeping (threads s))"
    using assms(2,3) by (cases c) (auto simp: waiting_iff)
qed (use assms(2) in \<open>cases c; auto\<close>)+

lemma tp_run_inv: "tp_run s s' \<Longrightarrow> tp_inv s \<Longrightarrow> tp_inv s'"
proof (induction rule: tp_run.induct)
  case (timeout s as d bs)
  then show ?case using wake_inv [of s as "SleepWait d" bs SleeperCv] by simp
qed (simp_all add: deliver_inv round_inv sleeper_inv signal_inv)

lemma Schedule_inv:
  assumes "tp_inv s"
  shows "tp_inv (Schedule t f s)"
proof -
  let ?w = "\<lparr>w_t = t, w_idx = last_idx s + 1, w_f = f\<rparr>" and ?q = "works s"
  have ok: "pq_ok ?q" and dis: "distinct (map w_idx ?q)" and le: "\<forall>w \<in> set ?q. w_idx w \<le> last_idx s"
    using assms by (simp_all add: tp_inv_def queue_ok_def)
  have q: "queue_ok (Schedule t f s)"
    using queue_ok_Schedule [of s t f] assms
    by (simp add: tp_inv_def Schedule_def split_def Let_def queue_ok_def)
  have set_push: "set (pq_push ?w ?q) = insert ?w (set ?q)"
    by (metis mset_pq_push set_mset_add_mset_insert set_mset_mset)
  have "alert_ok (Schedule t f s)"
  proof (cases "pq_top (pq_push ?w ?q) = ?w")
    case True
    have "\<exists>p \<in> set (threads s). sleeping p" if "have_sleeper s"
      using assms that filter_empty_conv [of sleeping "threads s"] by (auto simp: tp_inv_def sleeper_ok_def)
    then have "have_sleeper s \<Longrightarrow> SleepWoken \<in> set (threads s) \<or> (\<exists>d. SleepWait d \<in> set (threads s))"
      by (fastforce simp: sleeping_def split: pc.splits)
    with True show ?thesis
      by (auto simp: alert_ok_def alert_def Schedule_def Schedule_locked_def Let_def notices_of_def)
  next
    case False
    have "distinct (map w_idx (pq_push ?w ?q))" "queue_ok (snd (Schedule_locked t f s))"
      using queue_ok_Schedule [of s t f] assms
      by (simp_all add: tp_inv_def queue_ok_def Schedule_locked_def Let_def)
    then have inj: "inj_on work_key (set_mset (mset (pq_push ?w ?q)))"
      using queue_ok_inj [of "pq_push ?w ?q"] by (simp only: set_mset_mset)
    note top = pq.top_push_other [OF ok inj False]
    have "pq_top ?q \<in> set ?q" using pq.top_in [OF top(1)] by simp
    then have "w_idx (pq_top ?q) \<noteq> last_idx s + 1" using le by fastforce
    with assms top show ?thesis
      by (auto simp: tp_inv_def alert_ok_def Schedule_def Schedule_locked_def Let_def notices_of_def)
  qed
  with q assms show ?thesis
    by (auto simp: tp_inv_def sleeper_ok_def exit_ok_def Schedule_def Schedule_locked_def Let_def)
qed

end
