(* ===== verification/Thread_Pool_Correct.thy ===== *)
theory Thread_Pool_Correct
  imports Thread_Pool_Safety
begin

text \<open>
  What the thread pool guarantees in every state it can reach from its constructor, under every
  interleaving of its threads with callers, spurious wake-ups and the clock.
\<close>

section \<open>Reachable states\<close>

lemma ThreadPool_ctor_inv: "tp_inv (ThreadPool_ctor n now)"
  by (simp add: ThreadPool_ctor_def tp_inv_def queue_ok_def sleeper_ok_def alert_ok_def exit_ok_def pq_ok_def)

lemma tp_env_inv: "tp_env s s' \<Longrightarrow> tp_inv s \<Longrightarrow> tp_inv s'"
proof (induction rule: tp_env.induct)
  case (schedule s t f)
  then show ?case by (rule Schedule_inv)
next
  case (finish s as f bs)
  show ?case
  proof (rule tp_inv_threads [OF finish.prems])
    show "alert (as @ Ready # bs) (notices s) h t" if "alert (threads s) (notices s) h t" for h t
      using that finish.hyps by (cases h) (auto simp: alert_def)
  qed (use finish.hyps in auto)
next
  case (spurious s as p bs c)
  show ?case by (rule wake_inv [OF spurious.prems spurious.hyps])
next
  case (tick s t)
  then show ?case by (simp add: tp_inv_def queue_ok_def sleeper_ok_def alert_ok_def exit_ok_def)
next
  case (destroy s)
  then show ?case
    by (simp add: ThreadPool_dtor_def tp_inv_def queue_ok_def sleeper_ok_def alert_ok_def exit_ok_def)
qed

lemma tp_reach_ctor: "tp_reach n (ThreadPool_ctor n now)"
  by (auto simp: tp_reach_def)

lemma tp_reach_step:
  assumes "tp_reach n s" and "tp_run s s' \<or> tp_env s s'"
  shows "tp_reach n s'"
proof -
  from assms(1) obtain now where
    "(\<lambda>s s'. tp_run s s' \<or> tp_env s s')\<^sup>*\<^sup>* (ThreadPool_ctor n now) s" by (auto simp: tp_reach_def)
  from rtranclp.rtrancl_into_rtrancl [OF this assms(2)] show ?thesis by (auto simp: tp_reach_def)
qed

lemmas tp_reach_run = tp_reach_step [OF _ disjI1]
lemmas tp_reach_env = tp_reach_step [OF _ disjI2]

lemma tp_reach_induct [consumes 1, case_names ctor run env]:
  assumes "tp_reach n s" and "\<And>now. P (ThreadPool_ctor n now)"
    and "\<And>s s'. tp_reach n s \<Longrightarrow> P s \<Longrightarrow> tp_run s s' \<Longrightarrow> P s'"
    and "\<And>s s'. tp_reach n s \<Longrightarrow> P s \<Longrightarrow> tp_env s s' \<Longrightarrow> P s'"
  shows "P s"
proof -
  from assms(1) obtain now where
    r: "(\<lambda>s s'. tp_run s s' \<or> tp_env s s')\<^sup>*\<^sup>* (ThreadPool_ctor n now) s" by (auto simp: tp_reach_def)
  then have "tp_reach n s \<and> P s"
    by (induction rule: rtranclp_induct) (auto intro: assms tp_reach_ctor tp_reach_step)
  then show ?thesis ..
qed

lemma tp_reach_inv: "tp_reach n s \<Longrightarrow> tp_inv s"
  by (induction rule: tp_reach_induct) (auto intro: ThreadPool_ctor_inv tp_run_inv tp_env_inv)

section \<open>What is scheduled once is started at most once\<close>

primrec scheduled :: "'f pool_event list \<Rightarrow> 'f work list" where
  "scheduled [] = []"
| "scheduled (e # l) = (case e of Scheduled w \<Rightarrow> w # scheduled l | Started t w \<Rightarrow> scheduled l)"

primrec started :: "'f pool_event list \<Rightarrow> 'f work multiset" where
  "started [] = {#}"
| "started (e # l) = (case e of Scheduled w \<Rightarrow> started l | Started t w \<Rightarrow> add_mset w (started l))"

lemma scheduled_split: "log_ok l \<Longrightarrow> mset (scheduled l) = started l + unstarted l"
  by (induction l) (auto split: pool_event.splits)

lemma scheduled_append: "scheduled (l @ l') = scheduled l @ scheduled l'"
  by (induction l) (auto split: pool_event.splits)

lemma log_ok_append: "log_ok (l @ l') \<Longrightarrow> log_ok l'"
  by (induction l) auto

lemma started_in: "Started t w \<in> set l \<Longrightarrow> w \<in># started l"
  by (induction l) (auto split: pool_event.splits)

definition idx_ok :: "'f tpool \<Rightarrow> bool" where
  "idx_ok s \<longleftrightarrow> distinct (map w_idx (scheduled (k_log s))) \<and>
     (\<forall>w \<in> set (scheduled (k_log s)). w_idx w \<le> last_idx s)"

lemma Next_round_frame:
  assumes "Next_round now s = (p, s')"
  shows "scheduled (k_log s') = scheduled (k_log s)" and "last_idx s' = last_idx s"
    and "exiting s' = exiting s" and "exiting s \<Longrightarrow> k_log s' = k_log s" and "notices s' = notices s"
    and "clock s' = clock s" and "threads s' = threads s"
  using assms by (auto simp: Next_round_def Let_def split: if_splits)

lemma Sleeper_round_frame:
  assumes "Sleeper_round now s = Some (p, s')"
  shows "scheduled (k_log s') = scheduled (k_log s)" and "last_idx s' = last_idx s"
    and "exiting s' = exiting s" and "exiting s \<Longrightarrow> k_log s' = k_log s" and "notices s' = notices s"
    and "clock s' = clock s" and "threads s' = threads s"
  using assms Next_round_frame [of now "s\<lparr>have_sleeper := False\<rparr>" p s']
  by (auto simp: Sleeper_round_def split: if_splits)

lemma tp_run_frame:
  assumes "tp_run s s'"
  shows "scheduled (k_log s') = scheduled (k_log s)" and "last_idx s' = last_idx s"
    and "exiting s' = exiting s" and "exiting s \<Longrightarrow> k_log s' = k_log s" and "clock s' = clock s"
  using assms by (cases; auto dest: Next_round_frame Sleeper_round_frame)+

lemma idx_ok_Schedule: "idx_ok s \<Longrightarrow> idx_ok (Schedule t f s)"
  by (fastforce simp: idx_ok_def Schedule_def Schedule_locked_def Let_def)

lemma tp_reach_idx: "tp_reach n s \<Longrightarrow> idx_ok s"
proof (induction rule: tp_reach_induct)
  case (ctor now)
  show ?case by (simp add: idx_ok_def ThreadPool_ctor_def)
next
  case (run s s')
  with tp_run_frame [OF run(2)] show ?case by (simp add: idx_ok_def)
next
  case (env s s')
  from env(2,3) show ?case by cases (simp_all add: idx_ok_Schedule, simp_all add: idx_ok_def ThreadPool_dtor_def)
qed

section \<open>The pool comes to rest\<close>

definition pc_weight :: "time \<Rightarrow> 'f pc \<Rightarrow> nat" where
  "pc_weight now p = (case p of
     Ready \<Rightarrow> 1 | SleepWait d \<Rightarrow> (if d \<le> now then 3 else 0) | SleepWoken \<Rightarrow> 2 | Popped f \<Rightarrow> 2 | _ \<Rightarrow> 0)"

definition notice_weight :: "nat \<Rightarrow> notice \<Rightarrow> nat" where
  "notice_weight n m = (case m of Notify_one c \<Rightarrow> 3 | Notify_all c \<Rightarrow> 2 * n + 1)"

definition tp_measure :: "'f tpool \<Rightarrow> nat" where
  "tp_measure s = (\<Sum>p\<leftarrow>threads s. pc_weight (clock s) p) +
     (\<Sum>m\<leftarrow>notices s. notice_weight (length (threads s)) m) + 3 * length (works s)"

lemma weight_simps [simp]:
  "pc_weight now Ready = 1" "pc_weight now CvWait = 0" "pc_weight now SleepWoken = 2"
  "pc_weight now (SleepWait d) = (if d \<le> now then 3 else 0)" "pc_weight now (Popped f) = 2"
  "pc_weight now (after_Next f) = 0"
  by (simp_all add: pc_weight_def after_Next_def split: option.splits)

lemma notify_weight:
  assumes "notify m ts ts'"
  shows "length ts' = length ts"
    and "(\<Sum>p\<leftarrow>ts'. pc_weight now p) < (\<Sum>p\<leftarrow>ts. pc_weight now p) + notice_weight (length ts) m"
proof -
  show "length ts' = length ts" using assms by cases simp_all
  from assms show "(\<Sum>p\<leftarrow>ts'. pc_weight now p) < (\<Sum>p\<leftarrow>ts. pc_weight now p) + notice_weight (length ts) m"
  proof cases
    case (one c p as bs)
    then show ?thesis by (cases c) (simp_all add: notice_weight_def)
  next
    case (all c)
    have "(\<Sum>p\<leftarrow>map (\<lambda>p. if waiting c p then woken c else p) ts. pc_weight now p)
        \<le> (\<Sum>p\<leftarrow>ts. pc_weight now p) + 2 * length ts"
      by (cases c; induction ts) simp_all
    with all show ?thesis by (simp add: notice_weight_def)
  qed (simp add: notice_weight_def)
qed

lemma notify_Cv_weight:
  assumes "notify (Notify_one Cv) ts ts'"
  shows "(\<Sum>p\<leftarrow>ts'. pc_weight now p) \<le> (\<Sum>p\<leftarrow>ts. pc_weight now p) + 1"
  using assms by (auto elim!: notify_oneE simp: waiting_iff)

lemma Next_round_weight:
  assumes "Next_round now s = (p, s')"
  shows "pc_weight now p + 3 * length (works s') \<le> 3 * length (works s)"
proof (cases "works s")
  case (Cons w q)
  with assms show ?thesis by (auto simp: Next_round_def Let_def pq_pop_def split: if_splits)
qed (use assms in \<open>auto simp: Next_round_def Let_def split: if_splits\<close>)

lemma tp_run_measure:
  assumes "tp_run s s'"
  shows "tp_measure s' < tp_measure s"
  using assms
proof cases
  case (deliver ms m ns ts)
  with notify_weight(1) [OF deliver(3)] notify_weight(2) [OF deliver(3), of "clock s"] show ?thesis by (simp add: tp_measure_def)
next
  case (round as bs p s1)
  with Next_round_weight [OF round(3)] Next_round_frame [OF round(3)] show ?thesis by (simp add: tp_measure_def)
next
  case (sleeper as bs p s1)
  then have "Next_round (clock s) (s\<lparr>have_sleeper := False\<rparr>) = (p, s1)"
    by (simp add: Sleeper_round_def split: if_splits)
  from Next_round_weight [OF this] Next_round_frame [OF this] sleeper show ?thesis by (simp add: tp_measure_def)
next
  case (signal as f bs ts)
  with notify_Cv_weight [OF signal(3), of "clock s"] notify_weight(1) [OF signal(3)]
  show ?thesis by (simp add: tp_measure_def)
next
  case (timeout as d bs)
  then show ?thesis by (simp add: tp_measure_def)
qed

section \<open>At rest\<close>

definition busy :: "'f pc \<Rightarrow> bool" where
  "busy p = (case p of Running f \<Rightarrow> True | Exited \<Rightarrow> True | _ \<Rightarrow> False)"

definition at_rest :: "'f tpool \<Rightarrow> bool" where
  "at_rest s \<longleftrightarrow> notices s = [] \<and>
     (\<forall>p \<in> set (threads s). busy p \<or> p = CvWait \<or> (\<exists>d. p = SleepWait d \<and> clock s < d))"

lemma notify_exists: "\<exists>ts'. notify m ts ts'"
proof (cases m)
  case (Notify_one c)
  show ?thesis
  proof (cases "\<exists>p \<in> set ts. waiting c p")
    case True
    then obtain p as bs where "waiting c p" "ts = as @ p # bs" by (meson split_list)
    then show ?thesis using Notify_one notify.one by blast
  qed (use Notify_one notify.none in blast)
next
  case (Notify_all c)
  then show ?thesis using notify.all by blast
qed

lemma stuck_at_rest:
  assumes "tp_inv s" and "\<nexists>s'. tp_run s s'"
  shows "at_rest s"
proof -
  have "notices s = []"
  proof (cases "notices s")
    case (Cons m ns)
    from notify_exists obtain ts where "notify m (threads s) ts" by blast
    with Cons assms(2) tp_run.deliver [of s "[]" m ns ts] show ?thesis by auto
  qed simp
  moreover have "busy p \<or> p = CvWait \<or> (\<exists>d. p = SleepWait d \<and> clock s < d)" if "p \<in> set (threads s)" for p
  proof -
    from that obtain as bs where ts: "threads s = as @ p # bs" by (meson split_list)
    show ?thesis
    proof (cases p)
      case Ready
      with ts assms(2) tp_run.round [of s as bs] show ?thesis by (metis prod.exhaust)
    next
      case SleepWoken
      with ts sleeper_holds [OF assms(1), of as p bs] have "have_sleeper s" by simp
      then obtain q s' where "Sleeper_round (clock s) s = Some (q, s')"
        by (cases "Next_round (clock s) (s\<lparr>have_sleeper := False\<rparr>)") (simp add: Sleeper_round_def)
      with ts assms(2) SleepWoken tp_run.sleeper [of s as bs q s'] show ?thesis by blast
    next
      case (Popped f)
      from notify_exists obtain ts' where "notify (Notify_one Cv) (as @ after_Next f # bs) ts'" by blast
      with ts assms(2) Popped tp_run.signal [of s as f bs ts'] show ?thesis by blast
    next
      case (SleepWait d)
      with ts assms(2) tp_run.timeout [of s as d bs] show ?thesis by force
    qed (simp_all add: busy_def)
  qed
  ultimately show ?thesis by (simp add: at_rest_def)
qed

lemma comes_to_rest:
  assumes "tp_reach n s"
  shows "\<exists>s'. tp_run\<^sup>*\<^sup>* s s' \<and> tp_reach n s' \<and> (\<nexists>s''. tp_run s' s'')"
  using assms
proof (induction "tp_measure s" arbitrary: s rule: less_induct)
  case less
  show ?case
  proof (cases "\<exists>s'. tp_run s s'")
    case True
    then obtain s' where s': "tp_run s s'" by blast
    from less.hyps [OF tp_run_measure [OF s'] tp_reach_run [OF less.prems s']] s'
    show ?thesis by (meson converse_rtranclp_into_rtranclp)
  next
    case False
    with less.prems show ?thesis by blast
  qed
qed

lemma at_rest_due:
  assumes "tp_inv s" and "at_rest s" and "\<not> exiting s" and "works s \<noteq> []" and "w_t (pq_top (works s)) \<le> clock s"
  shows "\<forall>p \<in> set (threads s). busy p"
proof -
  from assms have "alert (threads s) [] (have_sleeper s) (w_t (pq_top (works s)))"
    by (simp add: tp_inv_def alert_ok_def at_rest_def)
  moreover have "SleepWoken \<notin> set (threads s)" "\<forall>p \<in> set (threads s). \<not> awake p"
    "\<forall>d. SleepWait d \<in> set (threads s) \<longrightarrow> \<not> d \<le> w_t (pq_top (works s))"
    using assms(2,5) by (fastforce simp: at_rest_def busy_def awake_def split: pc.splits)+
  ultimately have "\<not> have_sleeper s" and cv: "CvWait \<notin> set (threads s)"
    by (auto simp: alert_def split: if_splits)
  with assms(1) have "\<forall>p \<in> set (threads s). \<not> sleeping p"
    by (auto simp: tp_inv_def sleeper_ok_def filter_empty_conv)
  with assms(2) cv show ?thesis by (fastforce simp: at_rest_def)
qed

lemma at_rest_exiting:
  assumes "tp_inv s" and "at_rest s" and "exiting s"
  shows "\<forall>p \<in> set (threads s). busy p"
  using assms by (auto simp: tp_inv_def exit_ok_def at_rest_def)

section \<open>What the pool promises its users\<close>

text \<open>
  Seen from outside, the pool is the bag of the works not yet started and the time: works are
  added with a new index, time passes, and one of the works that come first may be started
  once it is due.
\<close>

type_synonym 'f pool_view = "'f work multiset \<times> time"

inductive pool_spec :: "'f pool_view \<Rightarrow> 'f pool_view \<Rightarrow> bool" where
  add: "\<forall>v \<in># q. w_idx v < w_idx w \<Longrightarrow> pool_spec (q, now) (add_mset w q, now)"
| start: "w \<in># q \<Longrightarrow> w_t w \<le> now \<Longrightarrow> \<forall>v \<in># q. work_key w \<le> work_key v \<Longrightarrow> pool_spec (q, now) (q - {#w#}, now)"
| time: "now \<le> t \<Longrightarrow> pool_spec (q, now) (q, t)"

definition view :: "'f tpool \<Rightarrow> 'f pool_view" where
  "view s = (mset (works s), clock s)"

lemma Next_round_works:
  "works (snd (Next_round now s)) = works s \<or>
   works s \<noteq> [] \<and> w_t (pq_top (works s)) \<le> now \<and> works (snd (Next_round now s)) = pq_pop (works s)"
  by (simp add: Next_round_def Let_def)

lemma Next_round_view:
  assumes "queue_ok s" and "Next_round (clock s) s = (p, s')"
  shows "view s' = view s \<or> pool_spec (view s) (view s')"
proof -
  consider "works s' = works s" "clock s' = clock s"
    | "works s \<noteq> []" "w_t (pq_top (works s)) \<le> clock s" "works s' = pq_pop (works s)" "clock s' = clock s"
    using Next_round_works [of "clock s" s] Next_round_frame(6) [OF assms(2)] unfolding assms(2) snd_conv by blast
  then show ?thesis
  proof cases
    case 2
    have "pool_spec (mset (works s), clock s) (mset (works s) - {#pq_top (works s)#}, clock s)"
    proof (rule pool_spec.start)
      show "\<forall>v \<in># mset (works s). work_key (pq_top (works s)) \<le> work_key v"
        using pq.top_least [of "works s"] assms(1) by (auto simp only: queue_ok_def)
    qed (use 2 pq.top_in [of "works s"] in simp_all)
    with 2 show ?thesis by (simp add: view_def pq.bag_pop)
  qed (simp add: view_def)
qed

lemma tp_run_view:
  assumes "tp_inv s" and "tp_run s s'"
  shows "view s' = view s \<or> pool_spec (view s) (view s')"
  using assms(2)
proof cases
  case (round as bs p s1)
  with Next_round_view [OF _ round(3)] assms(1) show ?thesis by (simp add: view_def tp_inv_def)
next
  case (sleeper as bs p s1)
  then have "Next_round (clock s) (s\<lparr>have_sleeper := False\<rparr>) = (p, s1)"
    by (simp add: Sleeper_round_def split: if_splits)
  with Next_round_view [of "s\<lparr>have_sleeper := False\<rparr>" p s1] sleeper assms(1) show ?thesis
    by (simp add: view_def tp_inv_def queue_ok_def)
qed (simp_all add: view_def)

lemma tp_env_view:
  assumes "tp_inv s" and "tp_env s s'"
  shows "view s' = view s \<or> pool_spec (view s) (view s')"
  using assms(2)
proof cases
  case (schedule t f)
  have "\<forall>v \<in># mset (works s). w_idx v < w_idx \<lparr>w_t = t, w_idx = last_idx s + 1, w_f = f\<rparr>"
    using assms(1) unfolding tp_inv_def queue_ok_def set_mset_mset by auto
  from pool_spec.add [OF this, of "clock s"] schedule show ?thesis
    by (simp add: view_def Schedule_def Schedule_locked_def Let_def)
qed (auto simp: view_def ThreadPool_dtor_def intro: pool_spec.time)

lemma busyE:
  assumes "busy p" obtains f where "p = Running f" | "p = Exited"
  using assms by (cases p) (auto simp: busy_def)

section \<open>Concrete runs\<close>

text \<open>
  One thread.  In the first run two works are due at once: the thread runs the first while the second
  waits.  In the second run the work is due later and the thread has just been woken from its
  timed wait.
\<close>

definition demo_busy :: "nat tpool" where
  "demo_busy = \<lparr>last_idx = 2, exiting = False, have_sleeper = False,
     works = [\<lparr>w_t = 0, w_idx = 2, w_f = Some 8\<rparr>],
     k_log = [Started 0 \<lparr>w_t = 0, w_idx = 1, w_f = Some 7\<rparr>, Scheduled \<lparr>w_t = 0, w_idx = 2, w_f = Some 8\<rparr>,
       Scheduled \<lparr>w_t = 0, w_idx = 1, w_f = Some 7\<rparr>],
     threads = [Running 7], notices = [], clock = 0\<rparr>"

definition demo_woken :: "nat tpool" where
  "demo_woken = \<lparr>last_idx = 1, exiting = False, have_sleeper = True,
     works = [\<lparr>w_t = 5, w_idx = 1, w_f = Some 7\<rparr>], k_log = [Scheduled \<lparr>w_t = 5, w_idx = 1, w_f = Some 7\<rparr>],
     threads = [SleepWoken], notices = [Notify_one Cv], clock = 0\<rparr>"

lemmas pool_run = Schedule_def Schedule_locked_def Next_round_def Let_def ThreadPool_ctor_def notices_of_def
  work_less_def work_key_def pq_top_def pq_pop_def

lemma demo_busy_reach: "tp_reach 1 demo_busy"
proof -
  let ?s0 = "Schedule 0 (Some 8) (Schedule 0 (Some 7) (ThreadPool_ctor 1 0)) :: nat tpool"
  have 0: "tp_reach 1 ?s0" by (rule tp_reach_env [OF tp_reach_env [OF tp_reach_ctor tp_env.schedule] tp_env.schedule])
  let ?s1 = "(snd (Next_round 0 ?s0))\<lparr>threads := [Popped (Some 7)]\<rparr>"
  have "tp_run ?s0 (snd (Next_round 0 ?s0)\<lparr>threads := [] @ Popped (Some 7) # []\<rparr>)"
    by (rule tp_run.round) (simp_all add: pool_run)
  from tp_reach_run [OF 0 this] have 1: "tp_reach 1 ?s1" by (simp only: append_Nil)
  let ?s2 = "?s1\<lparr>threads := [Running 7]\<rparr>"
  have "tp_run ?s1 ?s2"
    by (rule tp_run.signal [of _ "[]" "Some 7" "[]"]) (simp_all add: after_Next_def notify.none)
  with 1 have 2: "tp_reach 1 ?s2" by (rule tp_reach_run)
  have "tp_run ?s2 (?s2\<lparr>threads := [Running 7], notices := [] @ []\<rparr>)"
    by (rule tp_run.deliver [of _ "[]" "Notify_one Cv"]) (simp_all add: pool_run notify.none)
  with 2 have "tp_reach 1 (?s2\<lparr>threads := [Running 7], notices := [] @ []\<rparr>)" by (rule tp_reach_run)
  then show ?thesis by (simp add: demo_busy_def pool_run)
qed

lemma demo_woken_reach: "tp_reach 1 demo_woken"
proof -
  let ?s0 = "Schedule 5 (Some 7) (ThreadPool_ctor 1 0) :: nat tpool"
  have 0: "tp_reach 1 ?s0" by (rule tp_reach_env [OF tp_reach_ctor tp_env.schedule])
  let ?s1 = "(snd (Next_round 0 ?s0))\<lparr>threads := [SleepWait 5]\<rparr>"
  have "tp_run ?s0 (snd (Next_round 0 ?s0)\<lparr>threads := [] @ SleepWait 5 # []\<rparr>)"
    by (rule tp_run.round) (simp_all add: pool_run)
  from tp_reach_run [OF 0 this] have 1: "tp_reach 1 ?s1" by (simp only: append_Nil)
  have "tp_env ?s1 (?s1\<lparr>threads := [] @ woken SleeperCv # []\<rparr>)"
    by (rule tp_env.spurious [of _ "[]" "SleepWait 5"]) simp_all
  with 1 have "tp_reach 1 (?s1\<lparr>threads := [] @ woken SleeperCv # []\<rparr>)" by (rule tp_reach_env)
  then show ?thesis by (simp add: demo_woken_def pool_run)
qed

text \<open>The pool of the first run shut down.\<close>

definition demo_done :: "nat tpool" where
  "demo_done = demo_busy\<lparr>exiting := True, threads := [Exited]\<rparr>"

lemma demo_done_reach: "tp_reach 1 demo_done"
proof -
  let ?s0 = "ThreadPool_dtor demo_busy" and ?n = "Notify_one SleeperCv"
  have 0: "tp_reach 1 ?s0"
    by (rule tp_reach_env [OF demo_busy_reach]) (rule tp_env.destroy, simp add: demo_busy_def)
  have "tp_run ?s0 (?s0\<lparr>threads := map (\<lambda>p. if waiting Cv p then woken Cv else p) (threads ?s0), notices := [] @ [?n]\<rparr>)"
    by (rule tp_run.deliver [OF _ notify.all]) (simp add: ThreadPool_dtor_def demo_busy_def)
  from tp_reach_run [OF 0 this] have 1: "tp_reach 1 (?s0\<lparr>notices := [?n]\<rparr>)"
    by (simp add: ThreadPool_dtor_def demo_busy_def)
  have "tp_run (?s0\<lparr>notices := [?n]\<rparr>) (?s0\<lparr>notices := [?n], threads := threads (?s0\<lparr>notices := [?n]\<rparr>), notices := [] @ []\<rparr>)"
    by (rule tp_run.deliver [OF _ notify.none [of _ SleeperCv]]) (simp_all add: ThreadPool_dtor_def demo_busy_def)
  from tp_reach_run [OF 1 this] have 2: "tp_reach 1 (demo_busy\<lparr>exiting := True\<rparr>)"
    by (simp add: ThreadPool_dtor_def demo_busy_def)
  have "tp_env (demo_busy\<lparr>exiting := True\<rparr>) (demo_busy\<lparr>exiting := True, threads := [] @ Ready # []\<rparr>)"
    using tp_env.finish [of "demo_busy\<lparr>exiting := True\<rparr>" "[]" 7 "[]"] by (simp add: demo_busy_def)
  note 3 = tp_reach_env [OF 2 this]
  have "Next_round 0 (demo_busy\<lparr>exiting := True, threads := [] @ Ready # []\<rparr>) =
      (Exited, demo_busy\<lparr>exiting := True, threads := [] @ Ready # []\<rparr>)"
    by (simp add: Next_round_def after_Next_def)
  with tp_run.round [of "demo_busy\<lparr>exiting := True, threads := [] @ Ready # []\<rparr>" "[]" "[]"]
  have "tp_run (demo_busy\<lparr>exiting := True, threads := [] @ Ready # []\<rparr>) demo_done"
    by (simp add: demo_done_def demo_busy_def)
  from tp_reach_run [OF 3 this] show ?thesis .
qed

lemma demo_done_rest: "\<nexists>s'. tp_run demo_done s'"
proof
  assume "\<exists>s'. tp_run demo_done s'"
  then obtain s' where "tp_run demo_done s'" ..
  then show False
    by cases (auto simp: demo_done_def demo_busy_def Cons_eq_append_conv)
qed

section \<open>After the destructor has set exit\<close>

text \<open>The functions a thread holds, and the starts in a log.\<close>

primrec in_hand :: "'f pc \<Rightarrow> 'f multiset" where
  "in_hand Ready = {#}"
| "in_hand CvWait = {#}"
| "in_hand (SleepWait d) = {#}"
| "in_hand SleepWoken = {#}"
| "in_hand (Popped f) = (case f of None \<Rightarrow> {#} | Some f \<Rightarrow> {#f#})"
| "in_hand (Running f) = {#f#}"
| "in_hand Exited = {#}"

definition held :: "'f pc list \<Rightarrow> 'f multiset" where
  "held ts = sum_list (map in_hand ts)"

definition starts :: "'f pool_event list \<Rightarrow> 'f pool_event list" where
  "starts l = filter (\<lambda>e. case e of Started t w \<Rightarrow> True | Scheduled w \<Rightarrow> False) l"

lemma held_simps [simp]: "held [] = {#}" "held (p # ts) = in_hand p + held ts" "held (ts @ us) = held ts + held us"
  by (simp_all add: held_def)

lemma in_hand_woken [simp]: "in_hand (woken c) = {#}" "in_hand (after_Next f) = in_hand (Popped f)"
  by (cases c; simp) (cases f; simp add: after_Next_def)

lemma in_hand_waiting: "waiting c p \<Longrightarrow> in_hand p = {#}"
  by (cases p) simp_all

lemma notify_held:
  assumes "notify n ts ts'"
  shows "held ts' = held ts"
  using assms
proof cases
  case (all c)
  have "held (map (\<lambda>p. if waiting c p then woken c else p) ts) = held ts"
    by (induction ts) (simp_all add: in_hand_waiting)
  with all show ?thesis by simp
qed (simp_all add: in_hand_waiting)

lemma exiting_step:
  assumes "tp_run s s' \<or> tp_env s s'" and "exiting s"
  shows "exiting s' \<and> starts (k_log s') = starts (k_log s) \<and> held (threads s') \<subseteq># held (threads s)"
  using assms(1)
proof
  assume "tp_run s s'"
  then show ?thesis
  proof cases
    case (sleeper as bs p s1)
    then have "Next_round (clock s) (s\<lparr>have_sleeper := False\<rparr>) = (p, s1)" by (auto simp: Sleeper_round_def split: if_splits)
    with sleeper assms(2) show ?thesis by (auto simp: Next_round_def after_Next_def)
  next
    case (round as bs p s1)
    with assms(2) show ?thesis by (auto simp: Next_round_def after_Next_def)
  qed (use assms(2) in \<open>auto dest: notify_held\<close>)
next
  assume "tp_env s s'"
  then show ?thesis
  proof cases
    case (schedule t f)
    then show ?thesis using assms(2) by (auto simp: Schedule_def Schedule_locked_def Let_def starts_def)
  qed (use assms(2) in \<open>auto simp: ThreadPool_dtor_def in_hand_waiting\<close>)
qed

lemma exiting_run:
  assumes "(\<lambda>s s'. tp_run s s' \<or> tp_env s s')\<^sup>*\<^sup>* s s'" and "exiting s"
  shows "exiting s' \<and> starts (k_log s') = starts (k_log s) \<and> held (threads s') \<subseteq># held (threads s)"
  using assms(1)
proof (induction rule: rtranclp_induct)
  case base
  from assms(2) show ?case by simp
next
  case (step y z)
  with exiting_step [OF step.hyps(2)] show ?case by (auto intro: subset_mset.order_trans)
qed

section \<open>Properties\<close>

text \<open>
  C15: The pool promises its users what \<open>pool_spec\<close> says: every step of a worker, of a caller or of
  the clock is, seen from outside, no step at all, the addition of a work with a new index, the start of a
  due work that comes first, or the passing of time.
\<close>

theorem pool_refines_spec:
  assumes "tp_reach n s" and "tp_run s s' \<or> tp_env s s'"
  shows "view s' = view s \<or> pool_spec (view s) (view s')"
  using assms tp_run_view tp_env_view tp_reach_inv by blast

theorem pool_refines_spec_witness:
  "pool_spec (view (demo_busy\<lparr>notices := []\<rparr>)) (view (Schedule 3 None demo_busy))"
proof -
  have "view (Schedule 3 None demo_busy) = view demo_busy \<or> pool_spec (view demo_busy) (view (Schedule 3 None demo_busy))"
    by (rule pool_refines_spec [OF demo_busy_reach]) (simp add: tp_env.schedule)
  then show ?thesis by (simp add: view_def pool_run demo_busy_def)
qed

text \<open>
  C14: A function runs at or after its time, in the order of times and, for equal times, of
  the calls of \<open>Schedule\<close>, and at most once: whenever a work is started it is due and comes before every work that
  is waiting, works are scheduled once, and every work scheduled has been started or is still in the queue.
\<close>

theorem pool_starts_in_order:
  assumes "tp_reach n s" and "k_log s = l1 @ Started t w # l2"
  shows "w \<in># unstarted l2 \<and> w_t w \<le> t \<and> (\<forall>v \<in># unstarted l2. v \<noteq> w \<longrightarrow> work_key w < work_key v) \<and>
    distinct (scheduled (k_log s)) \<and> mset (scheduled (k_log s)) = started (k_log s) + mset (works s)"
proof -
  have i: "tp_inv s" "idx_ok s" using tp_reach_inv [OF assms(1)] tp_reach_idx [OF assms(1)] by simp_all
  have log: "log_ok (k_log s)" "mset (works s) = unstarted (k_log s)" using i(1) by (simp_all add: tp_inv_def queue_ok_def)
  then have l2: "log_ok (Started t w # l2)" unfolding assms(2) by (metis log_ok_append)
  have dis: "distinct (map w_idx (scheduled (k_log s)))" using i(2) by (simp add: idx_ok_def)
  then have d2: "inj_on w_idx (set (scheduled l2))"
    unfolding assms(2) by (simp add: scheduled_append distinct_map)
  have sub: "v \<in> set (scheduled l2)" if "v \<in># unstarted l2" for v
    using that l2 scheduled_split [of l2] by (metis log_ok.simps(2) set_mset_mset union_iff)
  have "work_key w < work_key v" if v: "v \<in># unstarted l2" "v \<noteq> w" for v
  proof -
    have "work_key w \<le> work_key v" "w \<in># unstarted l2" using l2 v(1) by auto
    moreover have "work_key w \<noteq> work_key v"
      using d2 sub v calculation(2) by (auto simp: work_key_eq dest: inj_onD)
    ultimately show ?thesis by simp
  qed
  with l2 log scheduled_split [OF log(1)] dis show ?thesis by (auto simp: distinct_map)
qed

theorem pool_starts_in_order_witness:
  "mset (scheduled (k_log demo_busy)) = started (k_log demo_busy) + mset (works demo_busy)"
  using pool_starts_in_order [OF demo_busy_reach, of "[]" 0 "\<lparr>w_t = 0, w_idx = 1, w_f = Some 7\<rparr>"]
  by (simp add: demo_busy_def)

text \<open>
  C13: No lost wake-ups.  From every reachable state the steps the pool makes by itself come to rest,
  and there, if a work is due and the pool is not shutting down, every thread is running a function: a due
  work never waits while a thread is idle.
\<close>

theorem pool_no_lost_wakeup:
  assumes "tp_reach n s"
  shows "\<exists>s'. tp_run\<^sup>*\<^sup>* s s' \<and> tp_reach n s' \<and> (\<nexists>s''. tp_run s' s'') \<and>
    (\<not> exiting s \<and> works s' \<noteq> [] \<and> w_t (pq_top (works s')) \<le> clock s \<longrightarrow>
       (\<forall>p \<in> set (threads s'). busy p))"
proof -
  from comes_to_rest [OF assms] obtain s' where
    s': "tp_run\<^sup>*\<^sup>* s s'" "tp_reach n s'" "\<nexists>s''. tp_run s' s''" by blast
  from s'(1) have "exiting s' = exiting s \<and> clock s' = clock s"
    by (induction rule: rtranclp_induct) (simp_all add: tp_run_frame)
  with s' stuck_at_rest at_rest_due tp_reach_inv show ?thesis by metis
qed

theorem pool_no_lost_wakeup_witness:
  "\<exists>s'. tp_run\<^sup>*\<^sup>* demo_woken s' \<and> (\<nexists>s''. tp_run s' s'')"
  using pool_no_lost_wakeup [OF demo_woken_reach] by blast

text \<open>
  C16: The steps the pool makes by itself always end: each of them makes a measure smaller, so a worker never
  spins and threads do not keep waking each other.
\<close>

theorem pool_does_not_spin:
  "wfP (\<lambda>s' s. tp_run s s')"
  by (rule wfp_if_convertible_to_nat [where f = tp_measure]) (rule tp_run_measure)

text \<open>
  C17: \<open>CHECK(have_sleeper_)\<close> never fails: at most one thread waits on \<open>sleeper_cv_\<close>, and when it
  wakes up, for whatever reason, \<open>have_sleeper_\<close> is still set.
\<close>

theorem pool_sleeper_check:
  assumes "tp_reach n s"
  shows "length (filter sleeping (threads s)) \<le> 1 \<and>
    (SleepWoken \<in> set (threads s) \<longrightarrow> (\<exists>p s'. Sleeper_round (clock s) s = Some (p, s')))"
proof -
  have i: "tp_inv s" by (rule tp_reach_inv [OF assms])
  have "\<exists>p s'. Sleeper_round (clock s) s = Some (p, s')" if "SleepWoken \<in> set (threads s)"
  proof -
    from that obtain as bs where "threads s = as @ SleepWoken # bs" by (meson split_list)
    from sleeper_holds(1) [OF i this] show ?thesis by (simp add: Sleeper_round_def)
  qed
  with i show ?thesis by (simp add: tp_inv_def sleeper_ok_def)
qed

theorem pool_sleeper_check_witness:
  "\<exists>p s'. Sleeper_round 0 demo_woken = Some (p, s')"
  using pool_sleeper_check [OF demo_woken_reach] by (simp add: demo_woken_def)

text \<open>
  C18: Shutting down.  From the moment the destructor has set \<open>exit_\<close>, whatever happens, no function is taken from the queue any
  more: the functions that threads hold, which they are running or have taken and are about to run, are
  among those that they held at that moment.  And when the pool has come to rest and the functions still running have returned, every thread has
  left \<open>Loop\<close>, so the destructor's \<open>join\<close>s return.
\<close>

theorem pool_shutdown:
  assumes "tp_reach n s" and "exiting s"
  shows "(\<forall>s'. (\<lambda>s s'. tp_run s s' \<or> tp_env s s')\<^sup>*\<^sup>* s s' \<longrightarrow>
      exiting s' \<and> starts (k_log s') = starts (k_log s) \<and> held (threads s') \<subseteq># held (threads s)) \<and>
    ((\<nexists>s'. tp_run s s') \<and> (\<forall>f. Running f \<notin> set (threads s)) \<longrightarrow> joined s)"
proof -
  have "joined s" if "\<nexists>s'. tp_run s s'" "\<forall>f. Running f \<notin> set (threads s)"
  proof -
    note i = tp_reach_inv [OF assms(1)]
    from at_rest_exiting [OF i stuck_at_rest [OF i that(1)] assms(2)] that(2)
    show ?thesis unfolding joined_def by (metis busyE)
  qed
  with exiting_run [OF _ assms(2)] show ?thesis by blast
qed

theorem pool_shutdown_witness:
  "joined demo_done"
  using pool_shutdown [OF demo_done_reach] demo_done_rest by (simp add: demo_done_def)

end
