(* ===== verification/Dns.thy ===== *)
theory Dns
  imports Addr
begin

text \<open>
  The DNS resolver and its cache: \<open>src/src/dns.h\<close> and \<open>src/src/dns.cc\<close>.

  \<open>getaddrinfo\<close> is a parameter \<open>gai\<close>: what it answers for a host and a port, an error or the
  addresses of the list it allocates.  The nodes of these lists live in \<open>ais\<close>; a
  \<open>shared_ptr\<close> to one is its address.  The model never frees them, as if a pointer were always left.
  The field \<open>origin\<close> is not part of the code: it records for every node the argument and the
  time of the call of \<open>ResolveSync\<close> it comes from.
\<close>

type_synonym gai = "string \<Rightarrow> string \<Rightarrow> int + sockaddr list"

record addrs =
  ais :: "addr \<rightharpoonup> addrinfo"
  ai_brk :: addr
  origin :: "addr \<rightharpoonup> string \<times> time"

section \<open>Lists of addresses\<close>

text \<open>\<open>Advance(p)\<close> gives the old pointer and the new one.\<close>

definition Advance :: "(addr \<rightharpoonup> addrinfo) \<Rightarrow> ptr \<Rightarrow> (ptr \<times> ptr) option" where
  "Advance m p = (case p of None \<Rightarrow> Some (None, None) | Some a \<Rightarrow> do { n \<leftarrow> m a; Some (p, ai_next n) })"

partial_function (option) describe_from :: "(addr \<rightharpoonup> addrinfo) \<Rightarrow> bool \<Rightarrow> ptr \<Rightarrow> string option" where
  "describe_from m first p =
     (case p of
        None \<Rightarrow> Some []
      | Some a \<Rightarrow> do {
          n \<leftarrow> m a;
          sa \<leftarrow> Cast_addrinfo n;
          rest \<leftarrow> describe_from m False (ai_next n);
          Some ((if first then [] else '', '') @ IpPort_print sa @ rest)
        })"

definition Describe :: "(addr \<rightharpoonup> addrinfo) \<Rightarrow> addr \<Rightarrow> string option" where
  "Describe m head = describe_from m True (Some head)"

text \<open>The last node of a list that ends in \<open>nullptr\<close>.\<close>

partial_function (option) find_tail :: "(addr \<rightharpoonup> addrinfo) \<Rightarrow> addr \<Rightarrow> addr option" where
  "find_tail m tail = do {
     n \<leftarrow> m tail;
     (case ai_next n of Some a \<Rightarrow> find_tail m a | None \<Rightarrow> Some tail)
   }"

text \<open>The list \<open>getaddrinfo\<close> allocates for the addresses \<open>sas\<close>.\<close>

definition gai_alloc :: "sockaddr list \<Rightarrow> string \<times> time \<Rightarrow> 'a addrs_scheme \<Rightarrow> addr \<times> 'a addrs_scheme" where
  "gai_alloc sas org s =
     (let k = ai_brk s; n = length sas in
      (k, s\<lparr>ais := (\<lambda>a. if k \<le> a \<and> a < k + n
                then Some \<lparr>ai_addr = Some (sas ! (a - k)), ai_next = (if a + 1 < k + n then Some (a + 1) else None)\<rparr>
                else ais s a),
            ai_brk := k + n,
            origin := (\<lambda>a. if k \<le> a \<and> a < k + n then Some org else origin s a)\<rparr>))"

text \<open>\<open>strchr\<close> gives a position.\<close>

definition strchr :: "string \<Rightarrow> char \<Rightarrow> nat option" where
  "strchr s c = (let k = length (takeWhile (\<lambda>x. x \<noteq> c) s) in if k < length s then Some k else None)"

definition ResolveSync :: "gai \<Rightarrow> time \<Rightarrow> string \<Rightarrow> 'a addrs_scheme \<Rightarrow> (ptr \<times> 'a addrs_scheme) option" where
  "ResolveSync gai now host_port s =
     (case strchr (c_str host_port) (CHR '':'') of
        None \<Rightarrow> Some (None, s)
      | Some p \<Rightarrow>
          let host = take p (c_str host_port); port = drop (p + 1) (c_str host_port) in
          (case gai host port of
             Inl ret \<Rightarrow> Some (None, s)
           | Inr sas \<Rightarrow> do {
               let (res, s) = gai_alloc sas (host_port, now) s;
               n \<leftarrow> ais s res;
               sa \<leftarrow> ai_addr n;
               CHECK (sa_family sa = AF_INET);
               descr \<leftarrow> Describe (ais s) res;
               tail \<leftarrow> find_tail (ais s) res;
               t \<leftarrow> ais s tail;
               Some (Some res, s\<lparr>ais := (ais s)(tail \<mapsto> t\<lparr>ai_next := Some res\<rparr>)\<rparr>)
             }))"

section \<open>The cache\<close>

text \<open>A callback is an identity and the argument \<open>host_port\<close> of the call of \<open>Resolve\<close> it was passed to.\<close>

type_synonym dns_cb = "nat \<times> string"

record cache_data =
  callbacks :: "dns_cb list"
  cd_addr :: ptr
  used_at :: time
  resolved_at :: time
  successfully_resolved_at :: time
  use_count :: int

definition new_CacheData :: cache_data where
  "new_CacheData = \<lparr>callbacks = [], cd_addr = None, used_at = 0, resolved_at = 0,
     successfully_resolved_at = 0, use_count = 0\<rparr>"

record dns_options =
  num_dns_resolution_threads :: nat
  dns_cache_ttl :: duration
  dns_cache_refresh_period :: duration
  dns_cache_refresh_duration :: duration

definition default_dns_options :: dns_options where
  "default_dns_options = \<lparr>num_dns_resolution_threads = 8, dns_cache_ttl = 300 * 1000000000,
     dns_cache_refresh_period = 75 * 1000000000, dns_cache_refresh_duration = 3600 * 1000000000\<rparr>"

text \<open>An iterator of the cache is the identity of an entry.\<close>

record dns_state = addrs +
  cache :: "string \<rightharpoonup> addr"
  entries :: "addr \<rightharpoonup> string \<times> cache_data"
  e_brk :: addr

definition Use :: "(addr \<rightharpoonup> addrinfo) \<Rightarrow> time \<Rightarrow> cache_data \<Rightarrow> cache_data option" where
  "Use m now c = do {
     (q, p) \<leftarrow> Advance m (cd_addr c);
     Some (c\<lparr>use_count := use_count c + 1, cd_addr := p, used_at := max (used_at c) now\<rparr>)
   }"

primrec use_times :: "(addr \<rightharpoonup> addrinfo) \<Rightarrow> time \<Rightarrow> nat \<Rightarrow> cache_data \<Rightarrow> cache_data option" where
  "use_times m now 0 c = Some c"
| "use_times m now (Suc n) c = do { c \<leftarrow> Use m now c; use_times m now n c }"

text \<open>
  The critical section of \<open>Resolve\<close>, and what the caller does after it: schedule the processing of
  the new entry, nothing, or call the callback.
\<close>

datatype dns_action = Schedule_entry time addr | Call dns_cb ptr

definition Resolve_locked ::
  "dns_options \<Rightarrow> time \<Rightarrow> string \<Rightarrow> dns_cb \<Rightarrow> 'a dns_state_scheme \<Rightarrow> (dns_action list \<times> 'a dns_state_scheme) option" where
  "Resolve_locked opt now host_port cb s =
     (case cache s host_port of
        None \<Rightarrow>
          let it = e_brk s; c = new_CacheData\<lparr>callbacks := [cb]\<rparr> in
          Some ([Schedule_entry now it],
            s\<lparr>cache := (cache s)(host_port \<mapsto> it), entries := (entries s)(it \<mapsto> (host_port, c)), e_brk := it + 1\<rparr>)
      | Some it \<Rightarrow> do {
          (k, c) \<leftarrow> entries s it;
          if callbacks c \<noteq> [] then
            Some ([], s\<lparr>entries := (entries s)(it \<mapsto> (k, c\<lparr>callbacks := callbacks c @ [cb]\<rparr>))\<rparr>)
          else do {
            let addr = (if successfully_resolved_at c + dns_cache_ttl opt > now then cd_addr c else None);
            c \<leftarrow> Use (ais s) now c;
            Some ([Call cb addr], s\<lparr>entries := (entries s)(it \<mapsto> (k, c))\<rparr>)
          }
        })"

section \<open>Processing an entry\<close>

text \<open>
  Where a call of \<open>ProcessCacheEntry\<close> is when it holds no lock: about to lock the mutex for the
  first time, in \<open>ResolveSync\<close>, about to lock the mutex after it, calling callbacks, about to schedule the next call.
\<close>

datatype dns_pc =
    Begin time
  | Resolving
  | Resolved time ptr
  | Calling "dns_cb list" ptr
  | Scheduling time

text \<open>\<open>for (int64_t i = 0; c.use_count; ++i)\<close>: the new \<open>c.addr\<close>.\<close>

partial_function (option) rotate_addr :: "(addr \<rightharpoonup> addrinfo) \<Rightarrow> ptr \<Rightarrow> int \<Rightarrow> int \<Rightarrow> ptr \<Rightarrow> (int \<times> ptr) option" where
  "rotate_addr m addr i uses p =
     (if uses = 0 then Some (i, p)
      else do {
        let uses = uses - 1;
        (q, p) \<leftarrow> Advance m p;
        rotate_addr m addr (i + 1) (if p = addr then uses mod (i + 1) else uses) p
      })"

definition PCE_next ::
  "dns_options \<Rightarrow> addr \<Rightarrow> 'a dns_state_scheme \<Rightarrow> (dns_pc option \<times> 'a dns_state_scheme) option" where
  "PCE_next opt it s = do {
     (k, c) \<leftarrow> entries s it;
     Some (Some (Scheduling (min (resolved_at c + dns_cache_refresh_period opt)
       (used_at c + dns_cache_refresh_duration opt))), s)
   }"

definition PCE_deliver ::
  "dns_options \<Rightarrow> time \<Rightarrow> addr \<Rightarrow> 'a dns_state_scheme \<Rightarrow> (dns_pc option \<times> 'a dns_state_scheme) option" where
  "PCE_deliver opt now it s = do {
     (k, c) \<leftarrow> entries s it;
     if callbacks c \<noteq> [] then do {
       let cbs = callbacks c;
       let addr = cd_addr c;
       c \<leftarrow> use_times (ais s) now (length cbs) (c\<lparr>callbacks := []\<rparr>);
       Some (Some (Calling cbs addr), s\<lparr>entries := (entries s)(it \<mapsto> (k, c))\<rparr>)
     }
     else PCE_next opt it s
   }"

definition PCE_begin ::
  "dns_options \<Rightarrow> time \<Rightarrow> addr \<Rightarrow> 'a dns_state_scheme \<Rightarrow> (dns_pc option \<times> 'a dns_state_scheme) option" where
  "PCE_begin opt now it s = do {
     (k, c) \<leftarrow> entries s it;
     if callbacks c = [] \<and> used_at c + dns_cache_refresh_duration opt \<le> now then
       Some (None, s\<lparr>entries := (entries s)(it := None), cache := (cache s)(k := None)\<rparr>)
     else if resolved_at c + dns_cache_refresh_period opt \<le> now then Some (Some Resolving, s)
     else PCE_deliver opt now it s
   }"

definition PCE_resolved ::
  "dns_options \<Rightarrow> time \<Rightarrow> ptr \<Rightarrow> addr \<Rightarrow> 'a dns_state_scheme \<Rightarrow> (dns_pc option \<times> 'a dns_state_scheme) option" where
  "PCE_resolved opt now addr it s = do {
     (k, c) \<leftarrow> entries s it;
     let c = c\<lparr>resolved_at := now\<rparr>;
     c \<leftarrow> (if addr \<noteq> None then do {
             (i, p) \<leftarrow> rotate_addr (ais s) addr 0 (use_count c) addr;
             Some (c\<lparr>cd_addr := p, successfully_resolved_at := now, use_count := 0\<rparr>)
           }
           else Some c);
     PCE_deliver opt now it (s\<lparr>entries := (entries s)(it \<mapsto> (k, c))\<rparr>)
   }"

section \<open>The resolver and its threads\<close>

text \<open>
  The calls of \<open>ProcessCacheEntry\<close> in the queue of the thread pool and on its threads, what
  callers of \<open>Resolve\<close> still have to do, the callbacks called so far with their argument, the number of calls of
  \<open>Resolve\<close> so far, and the time.
\<close>

record dns = dns_state +
  queued :: "(time \<times> addr) list"
  running :: "(addr \<times> dns_pc) list"
  actions :: "dns_action list"
  answers :: "(dns_cb \<times> ptr) list"
  requests :: "string list"
  dns_clock :: time

definition DnsResolver_ctor :: "time \<Rightarrow> dns" where
  "DnsResolver_ctor now = \<lparr>ais = Map.empty, ai_brk = 0, origin = Map.empty, cache = Map.empty, entries = Map.empty,
     e_brk = 0, queued = [], running = [], actions = [], answers = [], requests = [], dns_clock = now\<rparr>"

abbreviation n_cb :: "dns \<Rightarrow> nat" where
  "n_cb s \<equiv> length (requests s)"

text \<open>\<open>Resolve\<close>, where \<open>t\<close> is the time it has read before it locks the mutex.\<close>

definition Resolve :: "dns_options \<Rightarrow> time \<Rightarrow> string \<Rightarrow> dns \<Rightarrow> dns option" where
  "Resolve opt t host_port s = do {
     (acts, s) \<leftarrow> Resolve_locked opt t host_port (n_cb s, host_port) s;
     Some (s\<lparr>actions := actions s @ acts, requests := requests s @ [host_port]\<rparr>)
   }"

text \<open>What a call of \<open>ProcessCacheEntry\<close> does up to the next point where it holds no lock.\<close>

definition ProcessCacheEntry ::
  "dns_options \<Rightarrow> gai \<Rightarrow> addr \<Rightarrow> dns_pc \<Rightarrow> dns \<Rightarrow> (dns_pc option \<times> dns) option" where
  "ProcessCacheEntry opt gai it pc s =
     (case pc of
        Begin now \<Rightarrow> PCE_begin opt now it s
      | Resolving \<Rightarrow> do {
          (k, c) \<leftarrow> entries s it;
          (addr, s) \<leftarrow> ResolveSync gai (dns_clock s) k s;
          Some (Some (Resolved (dns_clock s) addr), s)
        }
      | Resolved now addr \<Rightarrow> PCE_resolved opt now addr it s
      | Calling cbs p \<Rightarrow>
          (case cbs of
             [] \<Rightarrow> PCE_next opt it s
           | f # fs \<Rightarrow> do {
               (q, p) \<leftarrow> Advance (ais s) p;
               Some (Some (Calling fs p), s\<lparr>answers := (f, q) # answers s\<rparr>)
             })
      | Scheduling t \<Rightarrow> Some (None, s\<lparr>queued := queued s @ [(t, it)]\<rparr>))"

text \<open>
  \<open>getaddrinfo\<close> with the hints of \<open>ResolveSync\<close> gives an error or at least one address, all of
  them of family \<open>AF_INET\<close>.
\<close>

definition gai_ok :: "gai \<Rightarrow> bool" where
  "gai_ok gai \<longleftrightarrow> (\<forall>host port sas. gai host port = Inr sas \<longrightarrow> sas \<noteq> [] \<and> (\<forall>sa \<in> set sas. sa_family sa = AF_INET))"

text \<open>
  The steps of the resolver: a thread calls \<open>Resolve\<close>, does what it has to do after the critical section, the
  thread pool runs a call that is due, such a call goes on, time passes.  Every step may see other
  answers of \<open>getaddrinfo\<close>.
\<close>

inductive dns_step :: "dns_options \<Rightarrow> dns \<Rightarrow> dns \<Rightarrow> bool" for opt :: dns_options where
  resolve: "t \<le> dns_clock s \<Longrightarrow> Resolve opt t host_port s = Some s' \<Longrightarrow> dns_step opt s s'"
| schedule: "actions s = as @ Schedule_entry t it # bs \<Longrightarrow>
    dns_step opt s (s\<lparr>actions := as @ bs, queued := queued s @ [(t, it)]\<rparr>)"
| call: "actions s = as @ Call cb p # bs \<Longrightarrow>
    dns_step opt s (s\<lparr>actions := as @ bs, answers := (cb, p) # answers s\<rparr>)"
| start: "queued s = as @ (t, it) # bs \<Longrightarrow> t \<le> dns_clock s \<Longrightarrow>
    dns_step opt s (s\<lparr>queued := as @ bs, running := running s @ [(it, Begin (dns_clock s))]\<rparr>)"
| task: "running s = as @ (it, pc) # bs \<Longrightarrow> gai_ok gai \<Longrightarrow> ProcessCacheEntry opt gai it pc s = Some (r, s') \<Longrightarrow>
    dns_step opt s (s'\<lparr>running := as @ (case r of None \<Rightarrow> [] | Some pc \<Rightarrow> [(it, pc)]) @ bs\<rparr>)"
| tick: "dns_clock s \<le> t \<Longrightarrow> dns_step opt s (s\<lparr>dns_clock := t\<rparr>)"

definition dns_reach :: "dns_options \<Rightarrow> dns \<Rightarrow> bool" where
  "dns_reach opt s \<longleftrightarrow> (\<exists>now. (dns_step opt)\<^sup>*\<^sup>* (DnsResolver_ctor now) s)"

end
