(* ===== verification/Dns_Ring.thy ===== *)
theory Dns_Ring
  imports Dns
begin

text \<open>
  Rings of addresses: what \<open>ResolveSync\<close> builds, \<open>Advance\<close> walks along and the loop in
  \<open>ProcessCacheEntry\<close> rotates.
\<close>

section \<open>Rings of addresses\<close>

definition inet_node :: "addrinfo option \<Rightarrow> ptr \<Rightarrow> bool" where
  "inet_node n nxt \<longleftrightarrow> (\<exists>sa. n = Some \<lparr>ai_addr = Some sa, ai_next = nxt\<rparr> \<and> sa_family sa = AF_INET)"

definition ring :: "(addr \<rightharpoonup> addrinfo) \<Rightarrow> addr list \<Rightarrow> bool" where
  "ring m xs \<longleftrightarrow> xs \<noteq> [] \<and> distinct xs \<and>
     (\<forall>i < length xs. inet_node (m (xs ! i)) (Some (xs ! (Suc i mod length xs))))"

lemma inet_nodeD:
  assumes "inet_node node nxt"
  shows "\<exists>n sa. node = Some n \<and> ai_next n = nxt \<and> ai_addr n = Some sa \<and> sa_family sa = AF_INET \<and> Cast_addrinfo n = Some sa"
  using assms by (auto simp: inet_node_def Cast_addrinfo_def Cast_sockaddr_def)

lemma Advance_None [simp]: "Advance m None = Some (None, None)"
  by (simp add: Advance_def)

lemma Advance_ring:
  assumes "ring m xs" and "i < length xs"
  shows "Advance m (Some (xs ! i)) = Some (Some (xs ! i), Some (xs ! (Suc i mod length xs)))"
  using assms by (auto simp: Advance_def ring_def inet_node_def)

lemma ring_frame:
  assumes "ring m xs" and "\<And>a. a \<in> set xs \<Longrightarrow> m' a = m a"
  shows "ring m' xs"
  using assms by (simp add: ring_def)

section \<open>The loop of ProcessCacheEntry\<close>

lemma rotate_addr_ring:
  assumes r: "ring m xs" and "0 \<le> i" and "0 \<le> uc"
  shows "\<exists>i'. rotate_addr m (Some (xs ! 0)) i uc (Some (xs ! (nat i mod length xs))) =
      Some (i', Some (xs ! (nat (i + uc) mod length xs))) \<and> i' \<le> i + uc \<and>
      (i < int (length xs) \<longrightarrow> i' < 2 * int (length xs))"
  using assms(2,3)
proof (induction "nat uc" arbitrary: i uc rule: less_induct)
  case less
  let ?n = "length xs"
  have n: "?n > 0" using r by (simp add: ring_def)
  show ?case
  proof (cases "uc = 0")
    case True
    with less.prems show ?thesis by (simp add: rotate_addr.simps)
  next
    case False
    let ?j = "Suc (nat i mod ?n) mod ?n"
    have j: "?j = nat (i + 1) mod ?n" using less.prems by (simp add: nat_add_distrib mod_Suc_eq)
    have adv: "Advance m (Some (xs ! (nat i mod ?n))) = Some (Some (xs ! (nat i mod ?n)), Some (xs ! ?j))"
      by (rule Advance_ring [OF r]) (use n in simp)
    have eq: "Some (xs ! ?j) = Some (xs ! 0) \<longleftrightarrow> ?j = 0"
      using r n by (simp add: ring_def nth_eq_iff_index_eq)
    let ?uc = "if ?j = 0 then (uc - 1) mod (i + 1) else uc - 1"
    have step: "rotate_addr m (Some (xs ! 0)) i uc (Some (xs ! (nat i mod ?n))) =
        rotate_addr m (Some (xs ! 0)) (i + 1) ?uc (Some (xs ! (nat (i + 1) mod ?n)))"
      using False adv eq j by (simp add: rotate_addr.simps [of m _ i])
    have "(uc - 1) mod (i + 1) \<le> uc - 1"
      by (rule zmod_le_nonneg_dividend) (use False less.prems in simp)
    moreover have "0 \<le> (uc - 1) mod (i + 1)" using less.prems by simp
    ultimately have uc: "0 \<le> ?uc" "?uc \<le> uc - 1" using False less.prems by (simp_all only: split: if_splits) simp_all
    then have "nat ?uc < nat uc" using False less.prems by linarith
    from less.hyps [OF this, of "i + 1"] less.prems(1) uc obtain i' where
      i': "rotate_addr m (Some (xs ! 0)) (i + 1) ?uc (Some (xs ! (nat (i + 1) mod ?n))) =
          Some (i', Some (xs ! (nat (i + 1 + ?uc) mod ?n)))"
        "i' \<le> i + 1 + ?uc" "i + 1 < int ?n \<longrightarrow> i' < 2 * int ?n" by auto
    have "nat (i + 1 + ?uc) mod ?n = nat (i + uc) mod ?n"
    proof (cases "?j = 0")
      case True
      then have d: "int ?n dvd i + 1"
        using j less.prems(1) by (metis add_increasing2 int_nat_eq mod_0_imp_dvd of_nat_dvd_iff zero_le_one)
      have "(i + 1 + ?uc) mod int ?n = (i + uc) mod int ?n"
      proof -
        have "?uc mod int ?n = (uc - 1) mod int ?n" using True d by (simp add: mod_mod_cancel)
        then have "((i + 1) + ?uc) mod int ?n = ((i + 1) + (uc - 1)) mod int ?n" by (rule mod_add_cong [OF refl])
        then show ?thesis by simp
      qed
      then have "int (nat (i + 1 + ?uc) mod ?n) = int (nat (i + uc) mod ?n)"
        using less.prems uc by (simp add: zmod_int)
      then show ?thesis by simp
    next
      case False
      then show ?thesis by simp
    qed
    moreover have "i' < 2 * int ?n" if "i < int ?n"
    proof (cases "i + 1 < int ?n")
      case True
      with i'(3) show ?thesis by simp
    next
      case False
      with that have i: "i + 1 = int ?n" by simp
      then have "?j = 0" using j by (simp only: nat_int mod_self)
      then have "?uc = (uc - 1) mod int ?n" using i by (simp only: refl if_True)
      then have "?uc < int ?n" using n by simp
      with i'(2) i show ?thesis by simp
    qed
    ultimately show ?thesis using step i' uc by auto
  qed
qed

section \<open>ResolveSync\<close>

lemma chain_tail:
  assumes "\<And>a. k \<le> a \<Longrightarrow> a < k + n \<Longrightarrow> inet_node (m a) (if a + 1 < k + n then Some (a + 1) else None)"
    and "k \<le> a" and "a < k + n"
  shows "find_tail m a = Some (k + n - 1)" and "\<exists>str. describe_from m first (Some a) = Some str"
proof -
  have "find_tail m a = Some (k + n - 1) \<and> (\<forall>first. \<exists>str. describe_from m first (Some a) = Some str)"
    using assms(2,3)
  proof (induction "k + n - 1 - a" arbitrary: a)
    case 0
    then have a: "a + 1 = k + n" by simp
    with inet_nodeD [OF assms(1) [OF 0(2,3)]] show ?case
      by (auto simp: find_tail.simps [of m a] describe_from.simps)
  next
    case (Suc d)
    then have a: "a + 1 < k + n" by simp
    with Suc have "find_tail m (a + 1) = Some (k + n - 1) \<and> (\<forall>first. \<exists>str. describe_from m first (Some (a + 1)) = Some str)"
      by (intro Suc.hyps(1)) auto
    moreover obtain n sa where "m a = Some n" "ai_next n = Some (a + 1)" "Cast_addrinfo n = Some sa"
      using a inet_nodeD [OF assms(1) [OF Suc(3,4)]] by auto
    ultimately show ?case
      by (auto simp: find_tail.simps [of m a] describe_from.simps [of m _ "Some a"] split: Option.bind_splits)
  qed
  then show "find_tail m a = Some (k + n - 1)" and "\<exists>str. describe_from m first (Some a) = Some str" by auto
qed

text \<open>Host and port of \<open>host:port\<close>.\<close>

definition split_host_port :: "string \<Rightarrow> (string \<times> string) option" where
  "split_host_port host_port =
     (case strchr (c_str host_port) (CHR '':'') of
        None \<Rightarrow> None
      | Some p \<Rightarrow> Some (take p (c_str host_port), drop (p + 1) (c_str host_port)))"

definition resolved_to :: "gai \<Rightarrow> string \<Rightarrow> sockaddr list option" where
  "resolved_to gai host_port =
     (case split_host_port host_port of
        None \<Rightarrow> None
      | Some (host, port) \<Rightarrow> (case gai host port of Inl e \<Rightarrow> None | Inr sas \<Rightarrow> Some sas))"

lemma ResolveSync_spec:
  assumes "gai_ok gai"
  shows "case resolved_to gai hp of
      None \<Rightarrow> ResolveSync gai now hp s = Some (None, s)
    | Some sas \<Rightarrow> \<exists>m. sas \<noteq> [] \<and> ResolveSync gai now hp s = Some (Some (ai_brk s),
          s\<lparr>ais := m, ai_brk := ai_brk s + length sas,
            origin := (\<lambda>a. if ai_brk s \<le> a \<and> a < ai_brk s + length sas then Some (hp, now) else origin s a)\<rparr>) \<and>
        ring m [ai_brk s..<ai_brk s + length sas] \<and> (\<forall>a. a < ai_brk s \<longrightarrow> m a = ais s a) \<and>
        (\<forall>i < length sas. \<exists>n. m (ai_brk s + i) = Some n \<and> ai_addr n = Some (sas ! i))"
proof (cases "resolved_to gai hp")
  case None
  then show ?thesis
    by (auto simp: resolved_to_def split_host_port_def ResolveSync_def Let_def split: option.splits sum.splits)
next
  case (Some sas)
  let ?k = "ai_brk s" and ?n = "length sas"
  from Some obtain p where p: "strchr (c_str hp) (CHR '':'') = Some p"
    "gai (take p (c_str hp)) (drop (p + 1) (c_str hp)) = Inr sas"
    by (auto simp: resolved_to_def split_host_port_def split: option.splits sum.splits)
  have ne: "sas \<noteq> []" and fam: "\<forall>i < ?n. sa_family (sas ! i) = AF_INET"
    using assms p(2) unfolding gai_ok_def by (blast, simp)
  let ?s = "snd (gai_alloc sas (hp, now) s)"
  have node: "inet_node (ais ?s a) (if a + 1 < ?k + ?n then Some (a + 1) else None)" if "?k \<le> a" "a < ?k + ?n" for a
    using that fam by (auto simp: inet_node_def gai_alloc_def Let_def)
  have k: "?k \<le> ?k" "?k < ?k + ?n" using ne by simp_all
  let ?t = "?k + ?n - 1"
  have t: "?k \<le> ?t" "?t < ?k + ?n" "\<not> ?t + 1 < ?k + ?n" using ne by (cases sas; simp)+
  note tail = chain_tail [of ?k ?n "ais ?s", OF node k]
  let ?tail = "\<lparr>ai_addr = Some (sas ! (?t - ?k)), ai_next = Some ?k\<rparr>"
  let ?m = "(ais ?s)(?t \<mapsto> ?tail)"
  from tail(2) [of True] obtain str where str: "describe_from (ais ?s) True (Some ?k) = Some str" by blast
  have at: "ais ?s ?t = Some \<lparr>ai_addr = Some (sas ! (?t - ?k)), ai_next = None\<rparr>"
    using t by (simp add: gai_alloc_def Let_def)
  from inet_nodeD [OF node [OF k]] obtain n sa where n: "ais ?s ?k = Some n" "ai_addr n = Some sa" "sa_family sa = AF_INET"
    by blast
  have run: "ResolveSync gai now hp s = Some (Some ?k, ?s\<lparr>ais := ?m\<rparr>)"
    using p n tail(1) str at by (simp add: ResolveSync_def Let_def split_def Describe_def gai_alloc_def)
  have ring: "ring ?m [?k..<?k + ?n]"
    unfolding ring_def
  proof (intro conjI allI impI)
    fix i assume i: "i < length [?k..<?k + ?n]"
    show "inet_node (?m ([?k..<?k + ?n] ! i)) (Some ([?k..<?k + ?n] ! (Suc i mod length [?k..<?k + ?n])))"
    proof (cases "Suc i = ?n")
      case True
      then have "?k + i = ?t" by simp
      with i True fam ne show ?thesis by (auto simp: inet_node_def)
    next
      case False
      with i have "?k + i \<noteq> ?t" "Suc i < ?n" by simp_all
      with node [of "?k + i"] i show ?thesis by (simp add: inet_node_def)
    qed
  qed (use ne in simp_all)
  have "\<exists>n. ?m (?k + i) = Some n \<and> ai_addr n = Some (sas ! i)" if "i < ?n" for i
    using that by (cases "Suc i = ?n"; cases sas) (auto simp: gai_alloc_def Let_def)
  moreover have "?m a = ais s a" if "a < ?k" for a using that t(1) by (simp add: gai_alloc_def Let_def)
  moreover have "?s\<lparr>ais := ?m\<rparr> = s\<lparr>ais := ?m, ai_brk := ?k + ?n,
      origin := (\<lambda>a. if ?k \<le> a \<and> a < ?k + ?n then Some (hp, now) else origin s a)\<rparr>"
    by (simp add: gai_alloc_def Let_def)
  ultimately show ?thesis using Some run ring ne by (auto intro: exI [of _ ?m])
qed

end
