(* ===== verification/Dns_Safety.thy ===== *)
theory Dns_Safety
  imports Dns_Ring "HOL-Library.Multiset"  "HOL-Library.Sublist"
begin

text \<open>
  The invariant of the resolver and its preservation: the map of the cache and its entries agree, every entry is
  served by exactly one call of \<open>ProcessCacheEntry\<close>, every callback is in exactly one place, and all
  pointers to addresses point into rings.
\<close>

section \<open>The invariant\<close>

text \<open>Node \<open>a\<close> belongs to a ring of addresses that was made for \<open>hp\<close> at time \<open>t\<close>.\<close>

definition on_ring :: "'a addrs_scheme \<Rightarrow> string \<Rightarrow> time \<Rightarrow> addr list \<Rightarrow> bool" where
  "on_ring s hp t xs \<longleftrightarrow> ring (ais s) xs \<and> (\<forall>x \<in> set xs. x < ai_brk s \<and> origin s x = Some (hp, t))"

definition ring_of :: "'a addrs_scheme \<Rightarrow> string \<Rightarrow> time \<Rightarrow> addr \<Rightarrow> bool" where
  "ring_of s hp t a \<longleftrightarrow> (\<exists>xs. on_ring s hp t xs \<and> a \<in> set xs)"

definition ptr_ok :: "'a addrs_scheme \<Rightarrow> string \<Rightarrow> ptr \<Rightarrow> bool" where
  "ptr_ok s hp p \<longleftrightarrow> (\<forall>a. p = Some a \<longrightarrow> (\<exists>t. ring_of s hp t a))"

definition data_ok :: "'a addrs_scheme \<Rightarrow> string \<Rightarrow> cache_data \<Rightarrow> bool" where
  "data_ok s hp c \<longleftrightarrow> use_count c \<ge> 0 \<and> (\<forall>cb \<in> set (callbacks c). snd cb = hp) \<and>
     (\<forall>a. cd_addr c = Some a \<longrightarrow> ring_of s hp (successfully_resolved_at c) a)"

fun pc_ok :: "'a addrs_scheme \<Rightarrow> string \<Rightarrow> dns_pc \<Rightarrow> bool" where
  "pc_ok s hp (Resolved now p) \<longleftrightarrow> (\<forall>a. p = Some a \<longrightarrow> (\<exists>xs. on_ring s hp now xs \<and> a = xs ! 0))"
| "pc_ok s hp (Calling cbs p) \<longleftrightarrow> (\<forall>cb \<in> set cbs. snd cb = hp) \<and> ptr_ok s hp p"
| "pc_ok s hp pc \<longleftrightarrow> True"

definition answer_ok :: "'a addrs_scheme \<Rightarrow> dns_cb \<times> ptr \<Rightarrow> bool" where
  "answer_ok s ans \<longleftrightarrow> ptr_ok s (snd (fst ans)) (snd ans)"

definition action_ok :: "'a addrs_scheme \<Rightarrow> dns_action \<Rightarrow> bool" where
  "action_ok s act = (case act of Schedule_entry t it \<Rightarrow> True | Call cb p \<Rightarrow> answer_ok s (cb, p))"

definition map_ok :: "'a dns_state_scheme \<Rightarrow> bool" where
  "map_ok s \<longleftrightarrow> dom (entries s) \<subseteq> {..<e_brk s} \<and>
     (\<forall>hp it. cache s hp = Some it \<longleftrightarrow> (\<exists>c. entries s it = Some (hp, c)))"

text \<open>The entries for which a call of \<open>ProcessCacheEntry\<close> is queued, running or about to be scheduled.\<close>

definition scheduled_entries :: "dns_action \<Rightarrow> addr list" where
  "scheduled_entries act = (case act of Schedule_entry t it \<Rightarrow> [it] | Call cb p \<Rightarrow> [])"

definition owners :: "dns \<Rightarrow> addr multiset" where
  "owners s = mset (map snd (queued s)) + mset (map fst (running s)) + mset (concat (map scheduled_entries (actions s)))"

text \<open>The callbacks that have not been called yet.\<close>

definition held :: "dns_pc \<Rightarrow> dns_cb list" where
  "held pc = (case pc of Calling cbs p \<Rightarrow> cbs | _ \<Rightarrow> [])"

definition called_by :: "dns_action \<Rightarrow> dns_cb list" where
  "called_by act = (case act of Schedule_entry t it \<Rightarrow> [] | Call cb p \<Rightarrow> [cb])"

definition entry_cbs :: "(addr \<rightharpoonup> string \<times> cache_data) \<Rightarrow> addr \<Rightarrow> dns_cb multiset" where
  "entry_cbs m it = (case m it of None \<Rightarrow> {#} | Some (k, c) \<Rightarrow> mset (callbacks c))"

definition uncalled :: "dns \<Rightarrow> dns_cb multiset" where
  "uncalled s = (\<Sum>it \<in> dom (entries s). entry_cbs (entries s) it) +
     mset (concat (map (\<lambda>(it, pc). held pc) (running s))) + mset (concat (map called_by (actions s)))"

definition cbs_ok :: "dns \<Rightarrow> bool" where
  "cbs_ok s \<longleftrightarrow> uncalled s + mset (map fst (answers s)) = mset (enumerate 0 (requests s))"

definition rings_ok :: "dns \<Rightarrow> bool" where
  "rings_ok s \<longleftrightarrow>
     (\<forall>it k c. entries s it = Some (k, c) \<longrightarrow> data_ok s k c \<and> (\<forall>pc. (it, pc) \<in> set (running s) \<longrightarrow> pc_ok s k pc)) \<and>
     (\<forall>act \<in> set (actions s). action_ok s act) \<and> (\<forall>ans \<in> set (answers s). answer_ok s ans)"

definition dinv :: "dns \<Rightarrow> bool" where
  "dinv s \<longleftrightarrow> map_ok s \<and> finite (dom (entries s)) \<and> owners s = mset_set (dom (entries s)) \<and> rings_ok s \<and> cbs_ok s"

lemma dinv_cbs:
  assumes "dinv s"
  shows "image_mset fst (uncalled s) + mset (map (fst \<circ> fst) (answers s)) = mset [0..<n_cb s]"
proof -
  have "image_mset fst (uncalled s + mset (map fst (answers s))) = mset (map fst (enumerate 0 (requests s)))"
    using assms by (simp add: dinv_def cbs_ok_def del: map_fst_enumerate)
  then show ?thesis by (simp add: multiset.map_comp flip: mset_map)
qed

lemma dinv_request:
  assumes "dinv s" and "(i, hp) \<in># uncalled s \<or> (i, hp) \<in> fst ` set (answers s)"
  shows "i < n_cb s \<and> requests s ! i = hp"
proof -
  have "(i, hp) \<in># uncalled s + mset (map fst (answers s))" using assms(2) by auto
  moreover have "uncalled s + mset (map fst (answers s)) = mset (enumerate 0 (requests s))"
    using assms(1) by (simp only: dinv_def cbs_ok_def)
  ultimately have "(i, hp) \<in> set (enumerate 0 (requests s))" by (metis set_mset_mset)
  then show ?thesis by (simp add: in_set_enumerate_eq)
qed

section \<open>Growing memory\<close>

definition mem_le :: "'a addrs_scheme \<Rightarrow> 'b addrs_scheme \<Rightarrow> bool" where
  "mem_le s s' \<longleftrightarrow> ai_brk s \<le> ai_brk s' \<and> (\<forall>a < ai_brk s. ais s' a = ais s a \<and> origin s' a = origin s a)"

lemma on_ring_mono: "mem_le s s' \<Longrightarrow> on_ring s hp t xs \<Longrightarrow> on_ring s' hp t xs"
  unfolding on_ring_def by (auto simp: mem_le_def elim!: ring_frame)

lemma ring_of_mono: "mem_le s s' \<Longrightarrow> ring_of s hp t a \<Longrightarrow> ring_of s' hp t a"
  by (auto simp: ring_of_def intro: on_ring_mono)

lemma ptr_ok_mono: "mem_le s s' \<Longrightarrow> ptr_ok s hp p \<Longrightarrow> ptr_ok s' hp p"
  unfolding ptr_ok_def by (blast intro: ring_of_mono)

lemma data_ok_mono: "mem_le s s' \<Longrightarrow> data_ok s hp c \<Longrightarrow> data_ok s' hp c"
  by (auto simp: data_ok_def intro: ring_of_mono)

lemma pc_ok_mono: "mem_le s s' \<Longrightarrow> pc_ok s hp pc \<Longrightarrow> pc_ok s' hp pc"
  by (cases pc) (auto intro: ptr_ok_mono, blast dest: on_ring_mono)

lemma answer_ok_mono: "mem_le s s' \<Longrightarrow> answer_ok s ans \<Longrightarrow> answer_ok s' ans"
  by (auto simp: answer_ok_def intro: ptr_ok_mono)

lemma action_ok_mono: "mem_le s s' \<Longrightarrow> action_ok s act \<Longrightarrow> action_ok s' act"
  by (auto simp: action_ok_def intro: answer_ok_mono split: dns_action.splits)

lemma mem_le_same: "ais s' = ais s \<Longrightarrow> ai_brk s' = ai_brk s \<Longrightarrow> origin s' = origin s \<Longrightarrow> mem_le s s'"
  by (simp add: mem_le_def)

section \<open>Using an entry\<close>

lemma Advance_ring_of:
  assumes "ring_of s hp t a"
  shows "\<exists>b. Advance (ais s) (Some a) = Some (Some a, Some b) \<and> ring_of s hp t b"
proof -
  from assms obtain xs where xs: "on_ring s hp t xs" "a \<in> set xs" by (auto simp: ring_of_def)
  then obtain i where i: "i < length xs" "a = xs ! i" by (auto simp: in_set_conv_nth)
  have "xs ! (Suc i mod length xs) \<in> set xs" using i(1) by (intro nth_mem mod_less_divisor) linarith
  with xs i Advance_ring [of "ais s" xs i] show ?thesis by (auto simp: on_ring_def ring_of_def)
qed

lemma Advance_ptr_ok:
  assumes "ptr_ok s hp p"
  shows "\<exists>p'. Advance (ais s) p = Some (p, p') \<and> ptr_ok s hp p'"
proof (cases p)
  case (Some a)
  with assms obtain t where "ring_of s hp t a" by (auto simp: ptr_ok_def)
  from Advance_ring_of [OF this] Some show ?thesis by (auto simp: ptr_ok_def)
qed (simp add: ptr_ok_def)

lemma Use_ok:
  assumes "data_ok s hp c"
  shows "\<exists>c'. Use (ais s) now c = Some c' \<and> data_ok s hp c' \<and> callbacks c' = callbacks c \<and>
    resolved_at c' = resolved_at c"
proof (cases "cd_addr c")
  case None
  with assms show ?thesis by (simp add: Use_def data_ok_def)
next
  case (Some a)
  with assms have "ring_of s hp (successfully_resolved_at c) a" by (simp add: data_ok_def)
  from Advance_ring_of [OF this] Some assms show ?thesis by (auto simp: Use_def data_ok_def)
qed

lemma use_times_ok:
  assumes "data_ok s hp c"
  shows "\<exists>c'. use_times (ais s) now n c = Some c' \<and> data_ok s hp c' \<and> callbacks c' = callbacks c \<and>
    resolved_at c' = resolved_at c"
  using assms
proof (induction n arbitrary: c)
  case (Suc n)
  from Use_ok [OF Suc.prems] obtain c1 where "Use (ais s) now c = Some c1" "data_ok s hp c1"
    "callbacks c1 = callbacks c" "resolved_at c1 = resolved_at c" by blast
  with Suc.IH [of c1] show ?case by simp
qed simp

section \<open>The critical sections\<close>

text \<open>What a critical section does to the callbacks of an entry: nothing is lost.\<close>

definition step_ok :: "addr \<Rightarrow> string \<Rightarrow> cache_data \<Rightarrow> 'a dns_state_scheme \<Rightarrow> dns_pc \<Rightarrow> 'a dns_state_scheme \<Rightarrow> bool" where
  "step_ok it k c s pc s' \<longleftrightarrow> (\<exists>c'. s' = s\<lparr>entries := (entries s)(it \<mapsto> (k, c'))\<rparr> \<and> data_ok s k c' \<and>
     pc_ok s k pc \<and> held pc @ callbacks c' = callbacks c)"

lemma entries_upd [simp]: "ring_of (s\<lparr>entries := e\<rparr>) = ring_of s" "on_ring (s\<lparr>entries := e\<rparr>) = on_ring s"
  "ptr_ok (s\<lparr>entries := e\<rparr>) = ptr_ok s" "data_ok (s\<lparr>entries := e\<rparr>) = data_ok s"
  by (simp_all add: fun_eq_iff ring_of_def on_ring_def ptr_ok_def data_ok_def)

lemma pc_ok_entries [simp]: "pc_ok (s\<lparr>entries := e\<rparr>) hp pc = pc_ok s hp pc"
  by (cases pc) simp_all

lemma PCE_next_ok:
  assumes "entries s it = Some (k, c)" and "data_ok s k c"
  shows "\<exists>t. PCE_next opt it s = Some (Some (Scheduling t), s)"
  using assms by (simp add: PCE_next_def)

lemma PCE_deliver_ok:
  assumes "entries s it = Some (k, c)" and "data_ok s k c"
  shows "\<exists>pc s'. PCE_deliver opt now it s = Some (Some pc, s') \<and> step_ok it k c s pc s'"
proof (cases "callbacks c = []")
  case True
  have "s = s\<lparr>entries := (entries s)(it \<mapsto> (k, c))\<rparr>" using assms(1) by (simp add: fun_upd_idem)
  with True assms show ?thesis by (auto simp: PCE_deliver_def PCE_next_def step_ok_def held_def intro!: exI [of _ c])
next
  case False
  have "data_ok s k (c\<lparr>callbacks := []\<rparr>)" using assms(2) by (simp add: data_ok_def)
  from use_times_ok [OF this, of now "length (callbacks c)"] obtain c' where
    c': "use_times (ais s) now (length (callbacks c)) (c\<lparr>callbacks := []\<rparr>) = Some c'" "data_ok s k c'" "callbacks c' = []"
    by auto
  have "ptr_ok s k (cd_addr c)" using assms(2) by (auto simp: data_ok_def ptr_ok_def)
  with c' False assms show ?thesis
    by (auto simp: PCE_deliver_def step_ok_def held_def data_ok_def intro!: exI [of _ c'])
qed

lemma PCE_resolved_ok:
  assumes "entries s it = Some (k, c)" and "data_ok s k c" and "pc_ok s k (Resolved now p)"
  shows "\<exists>pc s'. PCE_resolved opt now p it s = Some (Some pc, s') \<and> step_ok it k c s pc s'"
proof -
  let ?go = "\<lambda>c1. PCE_deliver opt now it (s\<lparr>entries := (entries s)(it \<mapsto> (k, c1))\<rparr>)"
  have go: "\<exists>pc s'. ?go c1 = Some (Some pc, s') \<and> step_ok it k c s pc s'"
    if "data_ok s k c1" "callbacks c1 = callbacks c" for c1
    using PCE_deliver_ok [of "s\<lparr>entries := (entries s)(it \<mapsto> (k, c1))\<rparr>" it k c1 opt now] that
    by (auto simp: step_ok_def)
  show ?thesis
  proof (cases p)
    case None
    have "data_ok s k (c\<lparr>resolved_at := now\<rparr>)" using assms(2) by (simp add: data_ok_def)
    from go [OF this] None assms(1) show ?thesis by (simp add: PCE_resolved_def)
  next
    case (Some a)
    with assms(3) obtain xs where xs: "on_ring s k now xs" "a = xs ! 0" by auto
    then have r: "ring (ais s) xs" and n: "length xs > 0" by (simp_all add: on_ring_def ring_def)
    have "0 \<le> use_count c" using assms(2) by (simp add: data_ok_def)
    from rotate_addr_ring [OF r order_refl this] obtain i where
      i: "rotate_addr (ais s) p 0 (use_count c) p = Some (i, Some (xs ! (nat (use_count c) mod length xs)))"
      using Some xs(2) by auto
    let ?c = "c\<lparr>resolved_at := now, cd_addr := Some (xs ! (nat (use_count c) mod length xs)),
      successfully_resolved_at := now, use_count := 0\<rparr>"
    have "ring_of s k now (xs ! (nat (use_count c) mod length xs))"
      using xs(1) n by (auto simp: ring_of_def)
    then have "data_ok s k ?c" using assms(2) by (simp add: data_ok_def)
    from go [OF this] Some i assms(1) show ?thesis by (simp add: PCE_resolved_def)
  qed
qed

section \<open>Callbacks of all entries\<close>

definition total :: "(addr \<rightharpoonup> string \<times> cache_data) \<Rightarrow> dns_cb multiset" where
  "total m = (\<Sum>it \<in> dom m. entry_cbs m it)"

lemma total_insert:
  assumes "finite (dom m)" and "m it = None"
  shows "total (m(it \<mapsto> (k, c))) = mset (callbacks c) + total m"
proof -
  have "(\<Sum>x \<in> dom m. entry_cbs (m(it \<mapsto> (k, c))) x) = (\<Sum>x \<in> dom m. entry_cbs m x)"
    using assms(2) by (intro sum.cong) (auto simp: entry_cbs_def)
  with assms show ?thesis by (simp add: total_def domIff) (simp add: entry_cbs_def)
qed

lemma total_remove:
  assumes "finite (dom m)" and "m it = Some (k, c)"
  shows "total m = mset (callbacks c) + total (m(it := None))"
proof -
  have "m = (m(it := None))(it \<mapsto> (k, c))" using assms(2) by (simp add: fun_upd_idem)
  then show ?thesis using total_insert [of "m(it := None)" it k c] assms(1) by simp
qed

lemma total_update:
  assumes "finite (dom m)" and "m it = Some (k, c)" and "mset (callbacks c) = M + mset (callbacks c')"
  shows "total m = M + total (m(it \<mapsto> (k, c')))"
proof -
  have "total (m(it \<mapsto> (k, c'))) = mset (callbacks c') + total (m(it := None))"
    using total_insert [of "m(it := None)" it k c'] assms(1) by simp
  with total_remove [OF assms(1,2)] assms(3) show ?thesis by (simp add: ac_simps)
qed

lemma uncalled_eq: "uncalled s = total (entries s) + mset (concat (map (\<lambda>(it, pc). held pc) (running s))) +
    mset (concat (map called_by (actions s)))"
  by (simp add: uncalled_def total_def)

section \<open>A running call owns its entry\<close>

lemma running_entry:
  assumes "dinv s" and "running s = as @ (it, pc) # bs"
  shows "\<exists>k c. entries s it = Some (k, c) \<and> data_ok s k c \<and> pc_ok s k pc"
proof -
  have "it \<in># owners s" using assms(2) by (simp add: owners_def)
  then have "it \<in> dom (entries s)" using assms(1) by (simp add: dinv_def)
  then obtain k c where "entries s it = Some (k, c)" by auto
  with assms show ?thesis by (auto simp: dinv_def rings_ok_def)
qed

lemma map_ok_update:
  assumes "map_ok s" and "entries s it = Some (k, c)"
  shows "map_ok (s\<lparr>entries := (entries s)(it \<mapsto> (k, c'))\<rparr>)"
  using assms by (auto simp: map_ok_def)

text \<open>All about rings depends on the memory only.\<close>

lemma mem_cong:
  fixes s' :: "'a addrs_scheme" and s :: "'b addrs_scheme"
  assumes "ais s' = ais s" and "ai_brk s' = ai_brk s" and "origin s' = origin s"
  shows "data_ok s' = data_ok s" and "pc_ok s' = pc_ok s" and "answer_ok s' = answer_ok s" and "action_ok s' = action_ok s"
proof -
  have 1: "on_ring s' = on_ring s" by (simp add: fun_eq_iff on_ring_def assms)
  then have 2: "ring_of s' = ring_of s" by (simp add: fun_eq_iff ring_of_def)
  then have 3: "ptr_ok s' = ptr_ok s" by (simp add: fun_eq_iff ptr_ok_def)
  show "data_ok s' = data_ok s" by (simp add: fun_eq_iff data_ok_def 2)
  have "pc_ok s' hp pc = pc_ok s hp pc" for hp pc by (cases pc) (simp_all add: 1 3)
  then show "pc_ok s' = pc_ok s" by blast
  show 4: "answer_ok s' = answer_ok s" by (simp add: fun_eq_iff answer_ok_def 3)
  show "action_ok s' = action_ok s" by (rule ext) (simp add: action_ok_def 4 split: dns_action.split)
qed

lemma rings_ok_cong:
  assumes "ais s' = ais s" and "ai_brk s' = ai_brk s" and "origin s' = origin s"
  shows "rings_ok s' \<longleftrightarrow>
     (\<forall>it k c. entries s' it = Some (k, c) \<longrightarrow> data_ok s k c \<and> (\<forall>pc. (it, pc) \<in> set (running s') \<longrightarrow> pc_ok s k pc)) \<and>
     (\<forall>act \<in> set (actions s'). action_ok s act) \<and> (\<forall>ans \<in> set (answers s'). answer_ok s ans)"
  unfolding rings_ok_def by (simp only: mem_cong [OF assms])

lemma update_inv:
  assumes inv: "dinv s" and r: "running s = as @ (it, pc) # bs" and e: "entries s it = Some (k, c)"
    and st: "step_ok it k c s pc' s'" and h: "held pc = []"
  shows "dinv (s'\<lparr>running := as @ [(it, pc')] @ bs\<rparr>)"
proof -
  from st obtain c' where s': "s' = s\<lparr>entries := (entries s)(it \<mapsto> (k, c'))\<rparr>" and c': "data_ok s k c'"
    "pc_ok s k pc'" "held pc' @ callbacks c' = callbacks c" by (auto simp: step_ok_def)
  have d: "dom (entries s') = dom (entries s)" using e s' by auto
  have m: "map_ok s" "rings_ok s" "cbs_ok s" "finite (dom (entries s))" "owners s = mset_set (dom (entries s))"
    using inv by (simp_all add: dinv_def)
  have "mset (callbacks c) = mset (held pc') + mset (callbacks c')" by (simp flip: c'(3))
  from total_update [OF m(4) e this] have t: "total (entries s) = mset (held pc') + total (entries s')" by (simp add: s')
  have "map_ok (s'\<lparr>running := as @ [(it, pc')] @ bs\<rparr>)" using map_ok_update [OF m(1) e, of c'] by (simp add: s' map_ok_def)
  moreover have "owners (s'\<lparr>running := as @ [(it, pc')] @ bs\<rparr>) = mset_set (dom (entries s'))"
    using m(5) d r s' by (simp add: owners_def)
  moreover have "uncalled (s'\<lparr>running := as @ [(it, pc')] @ bs\<rparr>) = uncalled s"
    using t r h by (simp add: uncalled_eq s' ac_simps)
  then have "cbs_ok (s'\<lparr>running := as @ [(it, pc')] @ bs\<rparr>)" using m(3) by (simp add: cbs_ok_def s')
  moreover have "rings_ok (s'\<lparr>running := as @ [(it, pc')] @ bs\<rparr>)"
    using m(2) e c' r by (subst rings_ok_cong [of _ s]) (auto simp: s' rings_ok_def)
  ultimately show ?thesis using m(4) d by (simp add: dinv_def)
qed

section \<open>The other steps of a call\<close>

lemma erase_inv:
  assumes inv: "dinv s" and r: "running s = as @ (it, pc) # bs" and e: "entries s it = Some (k, c)"
    and c: "callbacks c = []" and h: "held pc = []"
  shows "dinv (s\<lparr>entries := (entries s)(it := None), cache := (cache s)(k := None), running := as @ bs\<rparr>)" (is "dinv ?s")
proof -
  have m: "map_ok s" "rings_ok s" "cbs_ok s" "finite (dom (entries s))" "owners s = mset_set (dom (entries s))"
    using inv by (simp_all add: dinv_def)
  have ck: "cache s hp = Some i \<longleftrightarrow> (\<exists>c. entries s i = Some (hp, c))" for hp i using m(1) by (simp add: map_ok_def)
  then have kit: "cache s k = Some it" using e by blast
  have "((cache s)(k := None)) hp = Some i \<longleftrightarrow> (\<exists>c. ((entries s)(it := None)) i = Some (hp, c))" for hp i
  proof (cases "i = it")
    case True
    then show ?thesis using ck [of hp it] e by auto
  next
    case False
    then have "(\<exists>c. ((entries s)(it := None)) i = Some (hp, c)) \<longleftrightarrow> cache s hp = Some i" using ck by simp
    moreover have "hp = k \<Longrightarrow> cache s hp \<noteq> Some i" using False kit by simp
    ultimately show ?thesis by auto
  qed
  then have "map_ok ?s" using m(1) by (auto simp: map_ok_def)
  moreover have "owners ?s = mset_set (dom (entries ?s))"
  proof -
    have "owners s = add_mset it (owners ?s)" using r by (simp add: owners_def)
    moreover have "mset_set (dom (entries s)) = add_mset it (mset_set (dom (entries ?s)))"
      using e m(4) by (simp add: mset_set.remove [of _ it] domIff)
    ultimately show ?thesis using m(5) by simp
  qed
  moreover have "uncalled ?s = uncalled s"
    using total_remove [OF m(4) e] r h c by (simp add: uncalled_eq)
  then have "cbs_ok ?s" using m(3) by (simp add: cbs_ok_def)
  moreover have "rings_ok ?s" using m(2) r by (subst rings_ok_cong [of _ s]) (auto simp: rings_ok_def split: if_splits)
  ultimately show ?thesis using m(4) by (simp add: dinv_def)
qed

lemma requeue_inv:
  assumes inv: "dinv s" and r: "running s = as @ (it, Scheduling t) # bs"
  shows "dinv (s\<lparr>queued := queued s @ [(t, it)], running := as @ bs\<rparr>)" (is "dinv ?s")
proof -
  have m: "map_ok s" "rings_ok s" "cbs_ok s" "finite (dom (entries s))" "owners s = mset_set (dom (entries s))"
    using inv by (simp_all add: dinv_def)
  have "owners ?s = owners s" using r by (simp add: owners_def)
  moreover have "uncalled ?s = uncalled s" using r by (simp add: uncalled_eq held_def)
  then have "cbs_ok ?s" using m(3) by (simp add: cbs_ok_def)
  moreover have "rings_ok ?s" using m(2) r by (subst rings_ok_cong [of _ s]) (auto simp: rings_ok_def)
  ultimately show ?thesis using m by (simp add: dinv_def map_ok_def)
qed

lemma answer_inv:
  assumes inv: "dinv s" and r: "running s = as @ (it, Calling (f # fs) p) # bs" and e: "entries s it = Some (k, c)"
    and p: "pc_ok s k (Calling (f # fs) p)" "ptr_ok s k p'"
  shows "dinv (s\<lparr>answers := (f, p) # answers s, running := as @ [(it, Calling fs p')] @ bs\<rparr>)" (is "dinv ?s")
proof -
  have m: "map_ok s" "rings_ok s" "cbs_ok s" "finite (dom (entries s))" "owners s = mset_set (dom (entries s))"
    using inv by (simp_all add: dinv_def)
  have "owners ?s = owners s" using r by (simp add: owners_def)
  moreover have "uncalled s = add_mset f (uncalled ?s)" using r by (simp add: uncalled_eq held_def)
  then have "cbs_ok ?s" using m(3) by (simp add: cbs_ok_def)
  moreover have "answer_ok s (f, p)" using p(1) by (simp add: answer_ok_def)
  then have "rings_ok ?s" using m(2) r p e by (subst rings_ok_cong [of _ s]) (auto simp: rings_ok_def)
  ultimately show ?thesis using m by (simp add: dinv_def map_ok_def)
qed

lemma resolving_inv:
  assumes inv: "dinv s" and r: "running s = as @ (it, Resolving) # bs" and e: "entries s it = Some (k, c)"
    and le: "mem_le s (s\<lparr>ais := m, ai_brk := n, origin := org\<rparr>)"
    and p: "pc_ok (s\<lparr>ais := m, ai_brk := n, origin := org\<rparr>) k (Resolved t p)"
  shows "dinv (s\<lparr>ais := m, ai_brk := n, origin := org, running := as @ [(it, Resolved t p)] @ bs\<rparr>)" (is "dinv ?s")
proof -
  let ?s1 = "s\<lparr>ais := m, ai_brk := n, origin := org\<rparr>"
  have m: "map_ok s" "rings_ok s" "cbs_ok s" "finite (dom (entries s))" "owners s = mset_set (dom (entries s))"
    using inv by (simp_all add: dinv_def)
  have "owners ?s = owners s" using r by (simp add: owners_def)
  moreover have "uncalled ?s = uncalled s" using r by (simp add: uncalled_eq held_def)
  then have "cbs_ok ?s" using m(3) by (simp add: cbs_ok_def)
  moreover have "rings_ok ?s1"
    using m(2) unfolding rings_ok_def
    by (auto intro: data_ok_mono [OF le] pc_ok_mono [OF le] answer_ok_mono [OF le] action_ok_mono [OF le])
  then have "rings_ok ?s" using r p e by (subst rings_ok_cong [of _ ?s1]) (auto simp: rings_ok_def)
  ultimately show ?thesis using m by (simp add: dinv_def map_ok_def)
qed

lemma ResolveSync_resolved:
  assumes "gai_ok gai"
  shows "\<exists>p m n org. ResolveSync gai now k s = Some (p, s\<lparr>ais := m, ai_brk := n, origin := org\<rparr>) \<and>
    mem_le s (s\<lparr>ais := m, ai_brk := n, origin := org\<rparr>) \<and>
    pc_ok (s\<lparr>ais := m, ai_brk := n, origin := org\<rparr>) k (Resolved now p)"
proof (cases "resolved_to gai k")
  case None
  with ResolveSync_spec [OF assms, of now k s] have "ResolveSync gai now k s = Some (None, s)" by simp
  then show ?thesis
    by (intro exI [of _ None] exI [of _ "ais s"] exI [of _ "ai_brk s"] exI [of _ "origin s"]) (simp add: mem_le_def)
next
  case (Some sas)
  let ?org = "\<lambda>a. if ai_brk s \<le> a \<and> a < ai_brk s + length sas then Some (k, now) else origin s a"
  from ResolveSync_spec [OF assms, of now k s] Some obtain m where m: "sas \<noteq> []"
    "ResolveSync gai now k s = Some (Some (ai_brk s), s\<lparr>ais := m, ai_brk := ai_brk s + length sas, origin := ?org\<rparr>)"
    "ring m [ai_brk s..<ai_brk s + length sas]" "\<forall>a. a < ai_brk s \<longrightarrow> m a = ais s a" by auto
  let ?s = "s\<lparr>ais := m, ai_brk := ai_brk s + length sas, origin := ?org\<rparr>"
  have "mem_le s ?s" using m(4) by (simp add: mem_le_def)
  moreover have "on_ring ?s k now [ai_brk s..<ai_brk s + length sas]" using m(3) by (simp add: on_ring_def)
  moreover have "ai_brk s = [ai_brk s..<ai_brk s + length sas] ! 0" using m(1) by simp
  ultimately show ?thesis using m(2) by (fastforce simp del: upt_Suc)
qed

text \<open>Every running call can go on, and keeps the invariant.\<close>

lemma task_ok:
  assumes inv: "dinv s" and r: "running s = as @ (it, pc) # bs" and g: "gai_ok gai"
  shows "\<exists>q s'. ProcessCacheEntry opt gai it pc s = Some (q, s') \<and>
    dinv (s'\<lparr>running := as @ (case q of None \<Rightarrow> [] | Some pc \<Rightarrow> [(it, pc)]) @ bs\<rparr>)"
proof -
  from running_entry [OF inv r] obtain k c where e: "entries s it = Some (k, c)" and d: "data_ok s k c"
    and p: "pc_ok s k pc" by blast
  have upd: ?thesis if "ProcessCacheEntry opt gai it pc s = Some (Some pc', s')" "step_ok it k c s pc' s'"
    "held pc = []" for pc' s'
    using update_inv [OF inv r e that(2,3)] that(1) by simp
  have same: "step_ok it k c s pc' s" if "pc_ok s k pc'" "held pc' = []" for pc'
    using that d e by (auto simp: step_ok_def fun_upd_idem intro!: exI [of _ c])
  show ?thesis
  proof (cases pc)
    case (Begin now)
    consider "callbacks c = []" "used_at c + dns_cache_refresh_duration opt \<le> now"
      | "\<not> (callbacks c = [] \<and> used_at c + dns_cache_refresh_duration opt \<le> now)"
        "resolved_at c + dns_cache_refresh_period opt \<le> now"
      | "\<not> (callbacks c = [] \<and> used_at c + dns_cache_refresh_duration opt \<le> now)"
        "\<not> resolved_at c + dns_cache_refresh_period opt \<le> now" by blast
    then show ?thesis
    proof cases
      case 1
      with erase_inv [OF inv r e] Begin e show ?thesis
        by (simp add: ProcessCacheEntry_def PCE_begin_def held_def)
    next
      case 2
      with Begin e show ?thesis
        by (intro upd [of Resolving s] same) (auto simp: ProcessCacheEntry_def PCE_begin_def held_def)
    next
      case 3
      from PCE_deliver_ok [OF e d] obtain pc' s' where "PCE_deliver opt now it s = Some (Some pc', s')" "step_ok it k c s pc' s'"
        by blast
      with 3 Begin e show ?thesis
        by (intro upd [of pc' s']) (auto simp: ProcessCacheEntry_def PCE_begin_def held_def)
    qed
  next
    case Resolving
    from ResolveSync_resolved [OF g, of "dns_clock s" k s] obtain q m n org where
      q: "ResolveSync gai (dns_clock s) k s = Some (q, s\<lparr>ais := m, ai_brk := n, origin := org\<rparr>)"
        "mem_le s (s\<lparr>ais := m, ai_brk := n, origin := org\<rparr>)"
        "pc_ok (s\<lparr>ais := m, ai_brk := n, origin := org\<rparr>) k (Resolved (dns_clock s) q)" by blast
    with resolving_inv [OF inv r [unfolded Resolving] e q(2,3)] Resolving e show ?thesis
      by (simp add: ProcessCacheEntry_def)
  next
    case (Resolved now a)
    from PCE_resolved_ok [OF e d p [unfolded Resolved]] obtain pc' s' where
      "PCE_resolved opt now a it s = Some (Some pc', s')" "step_ok it k c s pc' s'" by blast
    then show ?thesis using Resolved by (intro upd [of pc' s']) (auto simp: ProcessCacheEntry_def held_def)
  next
    case (Calling cbs a)
    show ?thesis
    proof (cases cbs)
      case Nil
      from PCE_next_ok [OF e d] obtain t where "PCE_next opt it s = Some (Some (Scheduling t), s)" by blast
      then show ?thesis using Calling Nil
        by (intro upd [of "Scheduling t" s] same) (auto simp: ProcessCacheEntry_def held_def)
    next
      case (Cons f fs)
      have "ptr_ok s k a" using p Calling by simp
      from Advance_ptr_ok [OF this] obtain a' where a': "Advance (ais s) a = Some (a, a')" "ptr_ok s k a'" by blast
      with answer_inv [OF inv r [unfolded Calling Cons] e p [unfolded Calling Cons] a'(2)] Calling Cons show ?thesis
        by (simp add: ProcessCacheEntry_def)
    qed
  next
    case (Scheduling t)
    with requeue_inv [OF inv r [unfolded Scheduling]] show ?thesis by (simp add: ProcessCacheEntry_def)
  qed
qed

section \<open>Calls of Resolve\<close>

lemma enumerate_snoc: "mset (enumerate 0 (xs @ [x])) = add_mset (length xs, x) (mset (enumerate 0 xs))"
  by (simp add: enumerate_append_eq)

lemma Resolve_new:
  assumes inv: "dinv s" and c: "cache s hp = None"
  shows "\<exists>s'. Resolve opt t hp s = Some s' \<and> dinv s'"
proof -
  let ?it = "e_brk s" and ?c = "new_CacheData\<lparr>callbacks := [(n_cb s, hp)]\<rparr>"
  let ?s = "s\<lparr>cache := (cache s)(hp \<mapsto> ?it), entries := (entries s)(?it \<mapsto> (hp, ?c)), e_brk := ?it + 1,
    actions := actions s @ [Schedule_entry t ?it], requests := requests s @ [hp]\<rparr>"
  have m: "map_ok s" "rings_ok s" "cbs_ok s" "finite (dom (entries s))" "owners s = mset_set (dom (entries s))"
    using inv by (simp_all add: dinv_def)
  have new: "entries s ?it = None" using m(1) by (auto simp: map_ok_def domIff)
  have ck: "cache s h = Some i \<longleftrightarrow> (\<exists>c. entries s i = Some (h, c))" for h i using m(1) by (simp add: map_ok_def)
  have "((cache s)(hp \<mapsto> ?it)) h = Some i \<longleftrightarrow> (\<exists>d. ((entries s)(?it \<mapsto> (hp, ?c))) i = Some (h, d))" for h i
  proof (cases "i = ?it")
    case True
    then show ?thesis using ck [of h ?it] new by auto
  next
    case False
    then show ?thesis using ck [of h i] c by auto
  qed
  then have "map_ok ?s" using m(1) by (auto simp: map_ok_def less_Suc_eq)
  moreover have "owners ?s = mset_set (dom (entries ?s))"
    using m(4,5) new by (simp add: owners_def scheduled_entries_def domIff)
  moreover have "uncalled ?s = add_mset (n_cb s, hp) (uncalled s)"
    using total_insert [OF m(4) new] by (simp add: uncalled_eq called_by_def)
  then have "cbs_ok ?s" using m(3) by (simp add: cbs_ok_def enumerate_snoc)
  moreover have "(?it, pc) \<notin> set (running s)" for pc
  proof
    assume "(?it, pc) \<in> set (running s)"
    then have "?it \<in># owners s" by (force simp: owners_def)
    with m(4,5) new show False by auto
  qed
  then have "rings_ok ?s"
    using m(2) by (subst rings_ok_cong [of _ s]) (auto simp: rings_ok_def action_ok_def data_ok_def new_CacheData_def)
  ultimately show ?thesis using m(4) c by (simp add: dinv_def Resolve_def Resolve_locked_def Let_def)
qed

lemma Resolve_update:
  assumes inv: "dinv s" and e: "entries s it = Some (hp, c)" and c': "data_ok s hp c'"
    and acts: "\<forall>act \<in> set acts. action_ok s act" "concat (map scheduled_entries acts) = []"
    and cbs: "mset (callbacks c') + mset (concat (map called_by acts)) = add_mset (n_cb s, hp) (mset (callbacks c))"
  shows "dinv (s\<lparr>entries := (entries s)(it \<mapsto> (hp, c')), actions := actions s @ acts, requests := requests s @ [hp]\<rparr>)" (is "dinv ?s")
proof -
  have m: "map_ok s" "rings_ok s" "cbs_ok s" "finite (dom (entries s))" "owners s = mset_set (dom (entries s))"
    using inv by (simp_all add: dinv_def)
  have d: "dom (entries ?s) = dom (entries s)" using e by auto
  have "map_ok ?s" using map_ok_update [OF m(1) e, of c'] by (simp add: map_ok_def)
  moreover have "owners ?s = mset_set (dom (entries ?s))" 
  proof -
    have n: "concat (map scheduled_entries (actions s @ acts)) = concat (map scheduled_entries (actions s))"
      by (simp only: map_append concat_append acts(2) append_Nil2)
    with m(5) d show ?thesis by (simp add: owners_def del: map_append concat_append)
  qed
  moreover have "uncalled ?s = add_mset (n_cb s, hp) (uncalled s)"
  proof -
    have "total (entries ?s) = mset (callbacks c') + total ((entries s)(it := None))"
      using total_insert [of "(entries s)(it := None)" it hp c'] m(4) by simp
    moreover have "total (entries s) = mset (callbacks c) + total ((entries s)(it := None))"
      by (rule total_remove [OF m(4) e])
    ultimately show ?thesis using cbs by (simp add: uncalled_eq ac_simps)
  qed
  then have "cbs_ok ?s" using m(3) by (simp add: cbs_ok_def enumerate_snoc)
  moreover have "rings_ok ?s" using m(2) e c' acts(1) by (subst rings_ok_cong [of _ s]) (auto simp: rings_ok_def)
  ultimately show ?thesis using m(4) d by (simp add: dinv_def)
qed

lemma Resolve_ok:
  assumes inv: "dinv s"
  shows "\<exists>s'. Resolve opt t hp s = Some s' \<and> dinv s'"
proof (cases "cache s hp")
  case None
  then show ?thesis by (rule Resolve_new [OF inv])
next
  case (Some it)
  with inv obtain c where e: "entries s it = Some (hp, c)" by (auto simp: dinv_def map_ok_def)
  have d: "data_ok s hp c" using inv e by (simp add: dinv_def rings_ok_def)
  show ?thesis
  proof (cases "callbacks c = []")
    case False
    have "data_ok s hp (c\<lparr>callbacks := callbacks c @ [(n_cb s, hp)]\<rparr>)" using d by (auto simp: data_ok_def)
    from Resolve_update [OF inv e this, of "[]"] Some e False show ?thesis
      by (simp add: Resolve_def Resolve_locked_def)
  next
    case True
    let ?p = "if successfully_resolved_at c + dns_cache_ttl opt > t then cd_addr c else None"
    from Use_ok [OF d, of t] obtain c' where c': "Use (ais s) t c = Some c'" "data_ok s hp c'" "callbacks c' = callbacks c"
      by blast
    have "action_ok s (Call (n_cb s, hp) ?p)"
      using d by (auto simp: action_ok_def answer_ok_def ptr_ok_def data_ok_def)
    with Resolve_update [OF inv e c'(2), of "[Call (n_cb s, hp) ?p]"] Some e True c' show ?thesis
      by (simp add: Resolve_def Resolve_locked_def called_by_def scheduled_entries_def)
  qed
qed

section \<open>Reachable states\<close>

lemma dns_step_inv:
  assumes "dns_step opt s s'" and inv: "dinv s"
  shows "dinv s'"
proof -
  have m: "map_ok s" "rings_ok s" "cbs_ok s" "finite (dom (entries s))" "owners s = mset_set (dom (entries s))"
    using inv by (simp_all add: dinv_def)
  from assms(1) show ?thesis
  proof cases
    case (resolve t hp)
    with Resolve_ok [OF inv, of opt t hp] show ?thesis by simp
  next
    case (schedule as t it bs)
    have "owners s' = owners s" "uncalled s' = uncalled s"
      using schedule by (simp_all add: owners_def uncalled_eq scheduled_entries_def called_by_def)
    moreover have "rings_ok s'" using schedule m(2) by (subst rings_ok_cong [of _ s]) (auto simp: rings_ok_def)
    ultimately show ?thesis using m schedule by (simp add: dinv_def map_ok_def cbs_ok_def)
  next
    case (call as cb p bs)
    have "owners s' = owners s" "uncalled s = add_mset cb (uncalled s')"
      using call by (simp_all add: owners_def uncalled_eq scheduled_entries_def called_by_def)
    moreover have "answer_ok s (cb, p)" using call m(2) by (auto simp: rings_ok_def action_ok_def)
    then have "rings_ok s'" using call m(2) by (subst rings_ok_cong [of _ s]) (auto simp: rings_ok_def)
    ultimately show ?thesis using m call by (simp add: dinv_def map_ok_def cbs_ok_def)
  next
    case (start as t it bs)
    have "owners s' = owners s" "uncalled s' = uncalled s"
      using start by (simp_all add: owners_def uncalled_eq held_def)
    moreover have "rings_ok s'" using start m(2) by (subst rings_ok_cong [of _ s]) (auto simp: rings_ok_def)
    ultimately show ?thesis using m start by (simp add: dinv_def map_ok_def cbs_ok_def)
  next
    case (task as it pc bs gai r s1)
    with task_ok [OF inv task(2,3), of opt] show ?thesis by auto
  next
    case (tick t)
    have "rings_ok s'" using tick m(2) by (subst rings_ok_cong [of _ s]) (auto simp: rings_ok_def)
    with tick m show ?thesis by (simp add: dinv_def map_ok_def cbs_ok_def owners_def uncalled_eq)
  qed
qed

lemma dns_reach_inv:
  assumes "dns_reach opt s"
  shows "dinv s"
proof -
  from assms obtain now where "(dns_step opt)\<^sup>*\<^sup>* (DnsResolver_ctor now) s" by (auto simp: dns_reach_def)
  then show ?thesis
  proof (induction rule: rtranclp_induct)
    case base
    show ?case
      by (simp add: dinv_def map_ok_def owners_def rings_ok_def cbs_ok_def uncalled_def DnsResolver_ctor_def)
  next
    case (step s s')
    then show ?case by (blast intro: dns_step_inv)
  qed
qed

section \<open>What steps leave alone\<close>

text \<open>Only \<open>ResolveSync\<close> allocates; nodes, answers and requests are never taken back.\<close>

definition grows :: "dns \<Rightarrow> dns \<Rightarrow> bool" where
  "grows s s' \<longleftrightarrow> mem_le s s' \<and> suffix (answers s) (answers s') \<and> prefix (requests s) (requests s')"

definition cache_only :: "'a dns_state_scheme \<Rightarrow> 'a dns_state_scheme \<Rightarrow> bool" where
  "cache_only s s' \<longleftrightarrow> ais s' = ais s \<and> ai_brk s' = ai_brk s \<and> origin s' = origin s \<and> dns_state.more s' = dns_state.more s"

lemma PCE_deliver_frame: "PCE_deliver opt now it s = Some (q, s') \<Longrightarrow> cache_only s s'"
  by (auto simp: PCE_deliver_def PCE_next_def cache_only_def Let_def split: if_splits bind_splits)

lemma PCE_frame:
  "PCE_begin opt now it s = Some (q, s') \<Longrightarrow> cache_only s s'"
  "PCE_resolved opt now p it s = Some (q, s') \<Longrightarrow> cache_only s s'"
  by (auto simp: PCE_begin_def PCE_resolved_def cache_only_def Let_def split: if_splits bind_splits dest!: PCE_deliver_frame)

lemma Resolve_frame:
  "Resolve opt t hp s = Some s' \<Longrightarrow> mem_le s s' \<and> answers s' = answers s \<and> requests s' = requests s @ [hp]"
  by (auto simp: Resolve_def Resolve_locked_def Let_def mem_le_def split: option.splits if_splits bind_splits)

lemma cache_only_grows:
  fixes s s' :: dns
  assumes "cache_only s s'"
  shows "mem_le s s'" and "answers s' = answers s" and "requests s' = requests s"
  using assms by (cases s; cases s'; simp add: cache_only_def mem_le_def)+

lemma dns_step_grows:
  assumes "dns_step opt s s'"
  shows "grows s s'"
  using assms
proof cases
  case (resolve t hp)
  from Resolve_frame [OF resolve(2)] show ?thesis by (simp add: grows_def)
next
  case (task as it pc bs gai r s1)
  have "mem_le s s1 \<and> suffix (answers s) (answers s1) \<and> requests s1 = requests s"
  proof (cases pc)
    case (Begin now)
    with task(4) have "cache_only s s1" by (auto simp: ProcessCacheEntry_def dest: PCE_frame)
    then show ?thesis using cache_only_grows by auto
  next
    case Resolving
    with task(4) obtain k p s2 where "ResolveSync gai (dns_clock s) k s = Some (p, s2)" "s1 = s2"
      by (auto simp: ProcessCacheEntry_def split: bind_splits)
    with ResolveSync_resolved [OF task(3), of "dns_clock s" k s] show ?thesis by auto
  next
    case (Resolved now p)
    with task(4) have "cache_only s s1" by (auto simp: ProcessCacheEntry_def dest: PCE_frame)
    then show ?thesis using cache_only_grows by auto
  next
    case (Calling cbs p)
    with task(4) show ?thesis
      by (cases cbs) (auto simp: ProcessCacheEntry_def PCE_next_def mem_le_def suffix_def split: bind_splits)
  next
    case (Scheduling t)
    with task(4) show ?thesis by (auto simp: ProcessCacheEntry_def mem_le_def)
  qed
  with task(1) show ?thesis by (simp add: grows_def mem_le_def)
qed (auto simp: grows_def mem_le_def suffix_def)

end
