(* ===== verification/Dns_Progress.thy ===== *)
theory Dns_Progress
  imports Dns_Safety
begin

text \<open>
  As long as a callback has not been called, the resolver has steps of its own that lead to the next
  call of a callback.
\<close>

section \<open>No callback is forgotten\<close>

definition progress :: "dns_options \<Rightarrow> dns \<Rightarrow> bool" where
  "progress opt s \<longleftrightarrow> (\<exists>s'. (dns_step opt)\<^sup>*\<^sup>* s s' \<and> n_cb s' = n_cb s \<and> length (answers s) < length (answers s'))"

lemma moreI:
  assumes "dns_step opt s s'" and "n_cb s' = n_cb s" and "length (answers s) < length (answers s')"
  shows "progress opt s"
  using assms by (auto simp: progress_def intro!: exI [of _ s'])

lemma more_step:
  assumes "dns_step opt s s'" and "n_cb s' = n_cb s" and "answers s' = answers s" and "progress opt s'"
  shows "progress opt s"
proof -
  from assms(4) obtain s'' where "(dns_step opt)\<^sup>*\<^sup>* s' s''" "n_cb s'' = n_cb s'" "length (answers s') < length (answers s'')"
    by (auto simp: progress_def)
  with assms(1-3) show ?thesis unfolding progress_def by (metis converse_rtranclp_into_rtranclp)
qed

definition no_gai :: gai where
  "no_gai host port = Inl 1"

lemma no_gai_ok: "gai_ok no_gai"
  by (simp add: gai_ok_def no_gai_def)

lemmas task_step = dns_step.task [OF _ no_gai_ok]

lemma more_Calling:
  assumes inv: "dinv s" and r: "running s = as @ (it, Calling (f # fs) p) # bs"
  shows "progress opt s"
proof -
  from running_entry [OF inv r] obtain k where "ptr_ok s k p" by auto
  from Advance_ptr_ok [OF this] obtain p' where "Advance (ais s) p = Some (p, p')" by blast
  then have "ProcessCacheEntry opt no_gai it (Calling (f # fs) p) s =
      Some (Some (Calling fs p'), s\<lparr>answers := (f, p) # answers s\<rparr>)" by (simp add: ProcessCacheEntry_def)
  from task_step [OF r this] show ?thesis by (rule moreI) simp_all
qed

lemma more_deliver:
  assumes inv: "dinv s" and r: "running s = as @ (it, pc) # bs" and c: "callbacks c \<noteq> []" and d: "data_ok s k c"
    and run: "ProcessCacheEntry opt no_gai it pc s =
      PCE_deliver opt now it (s\<lparr>entries := (entries s)(it \<mapsto> (k, c))\<rparr>)"
  shows "progress opt s"
proof -
  let ?s = "s\<lparr>entries := (entries s)(it \<mapsto> (k, c))\<rparr>"
  have "data_ok s k (c\<lparr>callbacks := []\<rparr>)" using d by (simp add: data_ok_def)
  from use_times_ok [OF this, of now "length (callbacks c)"] obtain c' where
    c': "use_times (ais s) now (length (callbacks c)) (c\<lparr>callbacks := []\<rparr>) = Some c'" by auto
  from c obtain f fs where f: "callbacks c = f # fs" by (cases "callbacks c") auto
  let ?s' = "?s\<lparr>entries := (entries s)(it \<mapsto> (k, c'))\<rparr>"
  have "ProcessCacheEntry opt no_gai it pc s = Some (Some (Calling (f # fs) (cd_addr c)), ?s')"
    using c' f by (simp add: run PCE_deliver_def)
  from task_step [OF r this] have st: "dns_step opt s (?s'\<lparr>running := as @ [(it, Calling (f # fs) (cd_addr c))] @ bs\<rparr>)"
    by simp
  from dns_step_inv [OF st inv] have "dinv (?s'\<lparr>running := as @ (it, Calling (f # fs) (cd_addr c)) # bs\<rparr>)" by simp
  then have "progress opt (?s'\<lparr>running := as @ (it, Calling (f # fs) (cd_addr c)) # bs\<rparr>)"
    by (rule more_Calling) simp
  with more_step [OF st] show ?thesis by simp
qed

lemma more_Resolved:
  assumes inv: "dinv s" and r: "running s = as @ (it, Resolved now None) # bs" and e: "entries s it = Some (k, c)"
    and c: "callbacks c \<noteq> []"
  shows "progress opt s"
proof (rule more_deliver [OF inv r])
  have "data_ok s k c" using inv e by (auto simp: dinv_def rings_ok_def)
  then show "data_ok s k (c\<lparr>resolved_at := now\<rparr>)" by (simp add: data_ok_def)
  show "ProcessCacheEntry opt no_gai it (Resolved now None) s =
      PCE_deliver opt now it (s\<lparr>entries := (entries s)(it \<mapsto> (k, c\<lparr>resolved_at := now\<rparr>))\<rparr>)"
    using e by (simp add: ProcessCacheEntry_def PCE_resolved_def)
qed (use c in simp)

lemma more_Resolved_Some:
  assumes inv: "dinv s" and r: "running s = as @ (it, Resolved now p) # bs" and e: "entries s it = Some (k, c)"
    and c: "callbacks c \<noteq> []"
  shows "progress opt s"
proof (cases p)
  case None
  then show ?thesis using more_Resolved [OF inv _ e c] r by simp
next
  case (Some a)
  have d: "data_ok s k c" and pc: "pc_ok s k (Resolved now p)"
    using running_entry [OF inv r] e by auto
  from pc Some obtain xs where xs: "on_ring s k now xs" "a = xs ! 0" by auto
  then have rg: "ring (ais s) xs" and n: "length xs > 0" by (simp_all add: on_ring_def ring_def)
  have "0 \<le> use_count c" using d by (simp add: data_ok_def)
  from rotate_addr_ring [OF rg order_refl this] obtain i where
    i: "rotate_addr (ais s) p 0 (use_count c) p = Some (i, Some (xs ! (nat (use_count c) mod length xs)))"
    using Some xs(2) by auto
  let ?c = "c\<lparr>resolved_at := now, cd_addr := Some (xs ! (nat (use_count c) mod length xs)),
    successfully_resolved_at := now, use_count := 0\<rparr>"
  show ?thesis
  proof (rule more_deliver [OF inv r])
    have "ring_of s k now (xs ! (nat (use_count c) mod length xs))" using xs(1) n by (auto simp: ring_of_def)
    then show "data_ok s k ?c" using d by (simp add: data_ok_def)
    show "ProcessCacheEntry opt no_gai it (Resolved now p) s =
        PCE_deliver opt now it (s\<lparr>entries := (entries s)(it \<mapsto> (k, ?c))\<rparr>)"
      using i Some e by (simp add: ProcessCacheEntry_def PCE_resolved_def)
  qed (use c in simp)
qed

lemma more_Resolving:
  assumes inv: "dinv s" and r: "running s = as @ (it, Resolving) # bs" and e: "entries s it = Some (k, c)"
    and c: "callbacks c \<noteq> []"
  shows "progress opt s"
proof -
  have "ResolveSync no_gai (dns_clock s) k s = Some (None, s)"
    by (auto simp: ResolveSync_def no_gai_def Let_def split: option.splits)
  then have "ProcessCacheEntry opt no_gai it Resolving s = Some (Some (Resolved (dns_clock s) None), s)"
    using e by (simp add: ProcessCacheEntry_def)
  from task_step [OF r this] have st: "dns_step opt s (s\<lparr>running := as @ (it, Resolved (dns_clock s) None) # bs\<rparr>)" by simp
  show ?thesis
    by (rule more_step [OF st])
      (simp, simp, rule more_Resolved [OF dns_step_inv [OF st inv] _ _ c], simp, simp add: e)
qed

lemma more_Begin:
  assumes inv: "dinv s" and r: "running s = as @ (it, Begin now) # bs" and e: "entries s it = Some (k, c)"
    and c: "callbacks c \<noteq> []"
  shows "progress opt s"
proof (cases "resolved_at c + dns_cache_refresh_period opt \<le> now")
  case True
  then have "ProcessCacheEntry opt no_gai it (Begin now) s = Some (Some Resolving, s)"
    using e c by (simp add: ProcessCacheEntry_def PCE_begin_def)
  from task_step [OF r this] have st: "dns_step opt s (s\<lparr>running := as @ (it, Resolving) # bs\<rparr>)" by simp
  show ?thesis
    by (rule more_step [OF st])
      (simp, simp, rule more_Resolving [OF dns_step_inv [OF st inv] _ _ c], simp, simp add: e)
next
  case False
  have d: "data_ok s k c" using inv e by (auto simp: dinv_def rings_ok_def)
  have "s\<lparr>entries := (entries s)(it \<mapsto> (k, c))\<rparr> = s" using e by (simp add: fun_upd_idem)
  with False e c show ?thesis
    by (intro more_deliver [OF inv r c d, of opt now]) (simp add: ProcessCacheEntry_def PCE_begin_def)
qed

lemma more_queued:
  assumes inv: "dinv s" and q: "(t, it) \<in> set (queued s)" and e: "entries s it = Some (k, c)" and c: "callbacks c \<noteq> []"
  shows "progress opt s"
proof -
  let ?s1 = "s\<lparr>dns_clock := max t (dns_clock s)\<rparr>"
  have st1: "dns_step opt s ?s1" by (rule dns_step.tick) simp
  from q obtain as bs where q: "queued s = as @ (t, it) # bs" by (meson split_list)
  let ?s2 = "?s1\<lparr>queued := as @ bs, running := running s @ [(it, Begin (max t (dns_clock s)))]\<rparr>"
  have st2: "dns_step opt ?s1 ?s2" using dns_step.start [of ?s1 as t it bs opt] q by simp
  have "progress opt ?s2"
    by (rule more_Begin [OF dns_step_inv [OF st2 dns_step_inv [OF st1 inv]] _ _ c, of "running s" it _ "[]" k])
      (simp_all add: e)
  with more_step [OF st1] more_step [OF st2] show ?thesis by simp
qed

lemma more_Scheduling:
  assumes inv: "dinv s" and r: "running s = as @ (it, Scheduling t) # bs" and e: "entries s it = Some (k, c)"
    and c: "callbacks c \<noteq> []"
  shows "progress opt s"
proof -
  have "ProcessCacheEntry opt no_gai it (Scheduling t) s = Some (None, s\<lparr>queued := queued s @ [(t, it)]\<rparr>)"
    by (simp add: ProcessCacheEntry_def)
  from task_step [OF r this] have st: "dns_step opt s (s\<lparr>queued := queued s @ [(t, it)], running := as @ bs\<rparr>)" by simp
  show ?thesis
    by (rule more_step [OF st]) (simp, simp, rule more_queued [OF dns_step_inv [OF st inv] _ _ c, of t it k], simp, simp add: e)
qed

lemma more_action:
  assumes inv: "dinv s" and q: "Schedule_entry t it \<in> set (actions s)" and e: "entries s it = Some (k, c)"
    and c: "callbacks c \<noteq> []"
  shows "progress opt s"
proof -
  from q obtain as bs where q: "actions s = as @ Schedule_entry t it # bs" by (meson split_list)
  note st = dns_step.schedule [OF q, of opt]
  show ?thesis
    by (rule more_step [OF st]) (simp, simp, rule more_queued [OF dns_step_inv [OF st inv] _ _ c, of t it k], simp, simp add: e)
qed

lemma more_entry:
  assumes inv: "dinv s" and e: "entries s it = Some (k, c)" and c: "callbacks c \<noteq> []"
  shows "progress opt s"
proof -
  have "it \<in># owners s" using inv e by (auto simp: dinv_def)
  then consider t where "(t, it) \<in> set (queued s)" | pc where "(it, pc) \<in> set (running s)"
    | t where "Schedule_entry t it \<in> set (actions s)"
    by (auto simp: owners_def scheduled_entries_def split: dns_action.splits)
  then show ?thesis
  proof cases
    case 1
    show ?thesis by (rule more_queued [OF inv 1 e c])
  next
    case 2
    then obtain as bs where r: "running s = as @ (it, pc) # bs" by (meson split_list)
    show ?thesis
    proof (cases pc)
      case (Calling cbs p)
      show ?thesis
      proof (cases cbs)
        case Nil
        have "PCE_next opt it s = Some (Some (Scheduling (min (resolved_at c + dns_cache_refresh_period opt)
            (used_at c + dns_cache_refresh_duration opt))), s)" using e by (simp add: PCE_next_def)
        then obtain t where "ProcessCacheEntry opt no_gai it pc s = Some (Some (Scheduling t), s)"
          using Calling Nil by (simp add: ProcessCacheEntry_def)
        from task_step [OF r this] have st: "dns_step opt s (s\<lparr>running := as @ (it, Scheduling t) # bs\<rparr>)" by simp
        show ?thesis
          by (rule more_step [OF st])
            (simp, simp, rule more_Scheduling [OF dns_step_inv [OF st inv] _ _ c], simp, simp add: e)
      next
        case (Cons f fs)
        with more_Calling [OF inv] r Calling show ?thesis by blast
      qed
    qed (use r more_Begin [OF inv _ e c] more_Resolving [OF inv _ e c] more_Resolved_Some [OF inv _ e c]
        more_Scheduling [OF inv _ e c] in blast)+
  next
    case 3
    show ?thesis by (rule more_action [OF inv 3 e c])
  qed
qed

lemma more_uncalled:
  assumes inv: "dinv s" and u: "uncalled s \<noteq> {#}"
  shows "progress opt s"
proof -
  consider "\<exists>it \<in> dom (entries s). entry_cbs (entries s) it \<noteq> {#}"
    | "\<exists>(it, pc) \<in> set (running s). held pc \<noteq> []" | "\<exists>act \<in> set (actions s). called_by act \<noteq> []"
  proof (rule ccontr)
    assume n: "\<not> thesis"
    with that have "(\<Sum>it \<in> dom (entries s). entry_cbs (entries s) it) = {#}"
      by (intro sum.neutral) blast
    moreover have "concat (map (\<lambda>(it, pc). held pc) (running s)) = []" using n that(2) by auto
    moreover have "concat (map called_by (actions s)) = []" using n that(3) by auto
    ultimately show False using u by (simp only: uncalled_def mset.simps) simp
  qed
  then show ?thesis
  proof cases
    case 1
    then obtain it k c where "entries s it = Some (k, c)" "callbacks c \<noteq> []"
      by (auto simp: entry_cbs_def)
    then show ?thesis by (rule more_entry [OF inv])
  next
    case 2
    then obtain it pc where r: "(it, pc) \<in> set (running s)" "held pc \<noteq> []" by blast
    then obtain f fs p where "pc = Calling (f # fs) p" by (auto simp: held_def neq_Nil_conv split: dns_pc.splits)
    with r more_Calling [OF inv] show ?thesis by (meson split_list)
  next
    case 3
    then obtain act where act: "act \<in> set (actions s)" "called_by act \<noteq> []" by blast
    then obtain cb p where "act = Call cb p" by (auto simp: called_by_def split: dns_action.splits)
    with act obtain as bs where "actions s = as @ Call cb p # bs" by (meson split_list)
    from dns_step.call [OF this] show ?thesis by (rule moreI) simp_all
  qed
qed

lemma answers_bound:
  assumes "dinv s"
  shows "size (uncalled s) + length (answers s) = n_cb s"
proof -
  have "size (image_mset fst (uncalled s) + mset (map (fst \<circ> fst) (answers s))) = size (mset [0..<n_cb s])"
    using dinv_cbs [OF assms] by simp
  then show ?thesis by simp
qed

lemma eventually_all_called:
  assumes "dinv s"
  shows "\<exists>s'. (dns_step opt)\<^sup>*\<^sup>* s s' \<and> n_cb s' = n_cb s \<and> uncalled s' = {#}"
  using assms
proof (induction "n_cb s - length (answers s)" arbitrary: s rule: less_induct)
  case less
  show ?case
  proof (cases "uncalled s = {#}")
    case False
    from more_uncalled [OF less.prems False, of opt] obtain s1 where
      s1: "(dns_step opt)\<^sup>*\<^sup>* s s1" "n_cb s1 = n_cb s" "length (answers s) < length (answers s1)" by (auto simp: progress_def)
    from s1(1) less.prems have inv: "dinv s1"
      by (induction rule: rtranclp_induct) (auto intro: dns_step_inv)
    have "length (answers s) < n_cb s"
      using answers_bound [OF less.prems] False by (metis add_cancel_left_left less_add_same_cancel2 nonempty_has_size)
    with s1 have "n_cb s1 - length (answers s1) < n_cb s - length (answers s)" by linarith
    from less.hyps [OF this inv] s1 show ?thesis by (metis rtranclp_trans)
  qed blast
qed

end
