(* ===== verification/Dns_Correct.thy ===== *)
theory Dns_Correct
  imports Dns_Progress
begin

text \<open>
  What the resolver guarantees in every state it can reach from its constructor, under every interleaving of its
  threads and every behaviour of \<open>getaddrinfo\<close>.
\<close>

section \<open>A concrete run\<close>

text \<open>
  One lookup of a host with one address, 100 seconds after the machine has booted, up to the call of
  its callback.
\<close>

definition demo_gai :: gai where
  "demo_gai host port = Inr [\<lparr>sa_family = AF_INET, sin_port = 80, sin_addr = 1\<rparr>]"

abbreviation boot100 :: time where "boot100 \<equiv> 100000000000"

definition demo_resolving :: dns where
  "demo_resolving = (DnsResolver_ctor boot100)\<lparr>cache := [''h:1'' \<mapsto> 0],
     entries := [0 \<mapsto> (''h:1'', new_CacheData\<lparr>callbacks := [(0, ''h:1'')]\<rparr>)], e_brk := 1, requests := [''h:1''],
     actions := [Schedule_entry boot100 0]\<rparr>"

definition demo_begin :: dns where
  "demo_begin = (DnsResolver_ctor boot100)\<lparr>cache := [''h:1'' \<mapsto> 0],
     entries := [0 \<mapsto> (''h:1'', new_CacheData\<lparr>callbacks := [(0, ''h:1'')]\<rparr>)], e_brk := 1, requests := [''h:1''],
     running := [(0, Begin boot100)]\<rparr>"

definition demo_cached :: cache_data where
  "demo_cached = \<lparr>callbacks = [], cd_addr = Some 0, used_at = boot100, resolved_at = boot100,
     successfully_resolved_at = boot100, use_count = 1\<rparr>"

definition demo_answered :: dns where
  "demo_answered = demo_begin\<lparr>
     ais := [0 \<mapsto> \<lparr>ai_addr = Some \<lparr>sa_family = AF_INET, sin_port = 80, sin_addr = 1\<rparr>, ai_next = Some 0\<rparr>],
     ai_brk := 1, origin := [0 \<mapsto> (''h:1'', boot100)], entries := [0 \<mapsto> (''h:1'', demo_cached)],
     answers := [((0, ''h:1''), Some 0)], running := [(0, Calling [] (Some 0))]\<rparr>"

lemma dns_reach_step: "dns_reach opt s \<Longrightarrow> dns_step opt s s' \<Longrightarrow> dns_reach opt s'"
  unfolding dns_reach_def by (blast intro: rtranclp.rtrancl_into_rtrancl)

lemma dns_reach_ctor: "dns_reach opt (DnsResolver_ctor now)"
  by (auto simp: dns_reach_def)

lemma gai_alloc_one:
  "gai_alloc [sa] org s = (ai_brk s, s\<lparr>ais := (ais s)(ai_brk s \<mapsto> \<lparr>ai_addr = Some sa, ai_next = None\<rparr>),
     ai_brk := ai_brk s + 1, origin := (origin s)(ai_brk s \<mapsto> org)\<rparr>)"
proof -
  have "(\<lambda>a. if ai_brk s \<le> a \<and> a < Suc (ai_brk s) then Some \<lparr>ai_addr = Some ([sa] ! (a - ai_brk s)),
      ai_next = (if a + 1 < ai_brk s + Suc 0 then Some (a + 1) else None)\<rparr> else ais s a) =
      (ais s)(ai_brk s \<mapsto> \<lparr>ai_addr = Some sa, ai_next = None\<rparr>)"
    and "(\<lambda>a. if ai_brk s \<le> a \<and> a < Suc (ai_brk s) then Some org else origin s a) = (origin s)(ai_brk s \<mapsto> org)"
    by (auto simp: fun_eq_iff)
  then show ?thesis by (simp add: gai_alloc_def Let_def)
qed

lemma dns_reach_steps:
  assumes "(dns_step opt)\<^sup>*\<^sup>* s s'" and "dns_reach opt s"
  shows "dns_reach opt s'"
  using assms by (induction rule: rtranclp_induct) (blast intro: dns_reach_step)+

lemma demo_resolving_run: "Resolve opt boot100 ''h:1'' (DnsResolver_ctor boot100) = Some demo_resolving"
  by (simp add: demo_resolving_def DnsResolver_ctor_def Resolve_def Resolve_locked_def Let_def)

lemma demo_begin_steps: "(dns_step default_dns_options)\<^sup>*\<^sup>* demo_resolving demo_begin"
proof -
  let ?o = default_dns_options and ?s1 = demo_resolving
  let ?s2 = "?s1\<lparr>actions := [], queued := [(boot100, 0)]\<rparr>"
  have "dns_step ?o ?s1 (?s1\<lparr>actions := [] @ [], queued := queued ?s1 @ [(boot100, 0)]\<rparr>)"
    by (rule dns_step.schedule) (simp add: demo_resolving_def)
  then have 1: "dns_step ?o ?s1 ?s2" by (simp add: demo_resolving_def DnsResolver_ctor_def)
  have "dns_step ?o ?s2 (?s2\<lparr>queued := [] @ [], running := running ?s2 @ [(0, Begin (dns_clock ?s2))]\<rparr>)"
    by (rule dns_step.start [of _ _ boot100]) (simp_all add: demo_resolving_def DnsResolver_ctor_def)
  then have "dns_step ?o ?s2 demo_begin" by (simp add: demo_resolving_def demo_begin_def DnsResolver_ctor_def)
  with 1 show ?thesis by (meson converse_rtranclp_into_rtranclp r_into_rtranclp)
qed

lemma demo_begin_reach: "dns_reach default_dns_options demo_begin"
proof -
  have "dns_step default_dns_options (DnsResolver_ctor boot100) demo_resolving"
    by (rule dns_step.resolve [OF _ demo_resolving_run]) (simp add: DnsResolver_ctor_def)
  from dns_reach_steps [OF demo_begin_steps dns_reach_step [OF dns_reach_ctor this]] show ?thesis .
qed

lemma demo_gai_ok: "gai_ok demo_gai"
  by (simp add: gai_ok_def demo_gai_def)

lemmas demo_task = dns_step.task [of _ "[]" 0 _ "[]", OF _ demo_gai_ok]

lemma demo_answered_steps: "(dns_step default_dns_options)\<^sup>*\<^sup>* demo_begin demo_answered"
proof -
  let ?o = default_dns_options
  let ?s1 = "demo_begin\<lparr>running := [(0, Resolving)]\<rparr>"
  have "dns_step ?o demo_begin (demo_begin\<lparr>running := [] @ [(0, Resolving)] @ []\<rparr>)"
    using demo_task [of demo_begin "Begin boot100" ?o "Some Resolving" demo_begin]
    by (simp add: demo_begin_def DnsResolver_ctor_def ProcessCacheEntry_def PCE_begin_def new_CacheData_def default_dns_options_def)
  then have 1: "dns_step ?o demo_begin ?s1" by simp
  let ?m = "?s1\<lparr>ais := [0 \<mapsto> \<lparr>ai_addr = Some \<lparr>sa_family = AF_INET, sin_port = 80, sin_addr = 1\<rparr>, ai_next = Some 0\<rparr>],
     ai_brk := 1, origin := [0 \<mapsto> (''h:1'', boot100)]\<rparr>"
  have "ProcessCacheEntry ?o demo_gai 0 Resolving ?s1 = Some (Some (Resolved boot100 (Some 0)), ?m)"
    by (simp add: demo_begin_def DnsResolver_ctor_def ProcessCacheEntry_def ResolveSync_def demo_gai_def c_str_def strchr_def
        gai_alloc_one Let_def Describe_def describe_from.simps find_tail.simps Cast_addrinfo_def Cast_sockaddr_def)
  from demo_task [of ?s1, OF _ this] have 2: "dns_step ?o ?s1 (?m\<lparr>running := [(0, Resolved boot100 (Some 0))]\<rparr>)" by simp
  let ?s2 = "?m\<lparr>running := [(0, Resolved boot100 (Some 0))]\<rparr>"
  let ?c = "?s2\<lparr>entries := [0 \<mapsto> (''h:1'', demo_cached)]\<rparr>"
  have "ProcessCacheEntry ?o demo_gai 0 (Resolved boot100 (Some 0)) ?s2 = Some (Some (Calling [(0, ''h:1'')] (Some 0)), ?c)"
    by (simp add: demo_begin_def DnsResolver_ctor_def ProcessCacheEntry_def PCE_resolved_def rotate_addr.simps
        PCE_deliver_def new_CacheData_def Use_def Advance_def demo_cached_def)
  from demo_task [of ?s2, OF _ this] have 3: "dns_step ?o ?s2 (?c\<lparr>running := [(0, Calling [(0, ''h:1'')] (Some 0))]\<rparr>)" by simp
  let ?s3 = "?c\<lparr>running := [(0, Calling [(0, ''h:1'')] (Some 0))]\<rparr>"
  have "ProcessCacheEntry ?o demo_gai 0 (Calling [(0, ''h:1'')] (Some 0)) ?s3 =
      Some (Some (Calling [] (Some 0)), ?s3\<lparr>answers := [((0, ''h:1''), Some 0)]\<rparr>)"
    by (simp add: demo_begin_def DnsResolver_ctor_def ProcessCacheEntry_def Advance_def)
  from demo_task [of ?s3, OF _ this] have "dns_step ?o ?s3
      (?s3\<lparr>answers := [((0, ''h:1''), Some 0)], running := [(0, Calling [] (Some 0))]\<rparr>)" by simp
  then have "dns_step ?o ?s3 demo_answered" by (simp add: demo_answered_def demo_begin_def DnsResolver_ctor_def)
  with 1 2 3 show ?thesis by (meson converse_rtranclp_into_rtranclp r_into_rtranclp)
qed

lemma demo_answered_reach: "dns_reach default_dns_options demo_answered"
  by (rule dns_reach_steps [OF demo_answered_steps demo_begin_reach])

section \<open>Properties\<close>

text \<open>
  The resolver calls every callback exactly once.  From every reachable state, whatever
  \<open>getaddrinfo\<close> answers, its own steps lead to a state in which each call of \<open>Resolve\<close> made so far has had its callback
  called once.
\<close>

theorem dns_every_callback_called:
  assumes "dns_reach opt s"
  shows "\<exists>s'. (dns_step opt)\<^sup>*\<^sup>* s s' \<and> n_cb s' = n_cb s \<and>
    (\<forall>i < n_cb s. count (mset (map (fst \<circ> fst) (answers s'))) i = 1)"
proof -
  from eventually_all_called [OF dns_reach_inv [OF assms]] obtain s' where
    s': "(dns_step opt)\<^sup>*\<^sup>* s s'" "n_cb s' = n_cb s" "uncalled s' = {#}" by blast
  then have "dns_reach opt s'" using assms unfolding dns_reach_def by (meson rtranclp_trans)
  then have "mset (map (fst \<circ> fst) (answers s')) = mset [0..<n_cb s]"
    using dinv_cbs [OF dns_reach_inv, of opt s'] s' by simp
  then have "count (mset (map (fst \<circ> fst) (answers s'))) i = 1" if "i < n_cb s" for i
    using that by (simp add: distinct_count_atmost_1 del: mset_map)
  with s' show ?thesis by blast
qed

theorem dns_every_callback_called_witness:
  "\<exists>s'. (dns_step default_dns_options)\<^sup>*\<^sup>* demo_begin s' \<and> count (mset (map (fst \<circ> fst) (answers s'))) 0 = 1"
  using dns_every_callback_called [OF demo_begin_reach] by (auto simp: demo_begin_def)

text \<open>
  C21: No callback is lost or called twice on the way, and every cache entry is served by exactly one
  call of \<open>ProcessCacheEntry\<close>, queued, running or about to be scheduled; no such call is left for an
  entry that has been erased.
\<close>

theorem dns_callbacks_accounted:
  assumes "dns_reach opt s"
  shows "(\<forall>i < n_cb s. count (image_mset fst (uncalled s)) i + count (mset (map (fst \<circ> fst) (answers s))) i = 1) \<and>
    (\<forall>it. count (owners s) it = (if it \<in> dom (entries s) then 1 else 0))"
proof -
  have inv: "dinv s" by (rule dns_reach_inv [OF assms])
  note cbs = dinv_cbs [OF inv]
  then have "count (image_mset fst (uncalled s)) i + count (mset (map (fst \<circ> fst) (answers s))) i =
      count (mset [0..<n_cb s]) i" for i
    using cbs by (metis count_union)
  moreover have "count (mset [0..<n_cb s]) i = 1" if "i < n_cb s" for i
    using that by (simp add: distinct_count_atmost_1)
  ultimately show ?thesis using inv by (simp add: dinv_def count_mset_set')
qed

theorem dns_callbacks_accounted_witness:
  "count (image_mset fst (uncalled demo_answered)) 0 + count (mset (map (fst \<circ> fst) (answers demo_answered))) 0 = 1"
  using dns_callbacks_accounted [OF demo_answered_reach] by (simp add: demo_answered_def demo_begin_def)

text \<open>
  C22: The resolver never aborts: in every reachable state \<open>Resolve\<close> and every running call of
  \<open>ProcessCacheEntry\<close> can go on, with no failed \<open>CHECK\<close>, no iterator of an erased entry, no
  null or dangling pointer to an address and no endless loop.
\<close>

theorem dns_never_aborts:
  assumes "dns_reach opt s"
  shows "(\<exists>s'. Resolve opt t hp s = Some s') \<and>
    (\<forall>(it, pc) \<in> set (running s). \<forall>gai. gai_ok gai \<longrightarrow> (\<exists>q s'. ProcessCacheEntry opt gai it pc s = Some (q, s')))"
proof -
  have inv: "dinv s" by (rule dns_reach_inv [OF assms])
  have "\<exists>q s'. ProcessCacheEntry opt gai it pc s = Some (q, s')" if "(it, pc) \<in> set (running s)" "gai_ok gai" for it pc gai
  proof -
    from that(1) obtain as bs where "running s = as @ (it, pc) # bs" by (meson split_list)
    from task_ok [OF inv this that(2)] show ?thesis by blast
  qed
  with Resolve_ok [OF inv] show ?thesis by blast
qed

theorem dns_never_aborts_witness:
  "\<exists>q s'. ProcessCacheEntry default_dns_options demo_gai 0 (Begin boot100) demo_begin = Some (q, s')"
  using dns_never_aborts [OF demo_begin_reach] demo_gai_ok by (simp add: demo_begin_def)

text \<open>
  C23: A callback gets an address of the host it asked for: it is called on behalf of the call of \<open>Resolve\<close> it was
  passed to, and an argument that is not null is a node of a ring made from the answer of
  \<open>getaddrinfo\<close> for the \<open>host_port\<close> of this call.
\<close>

theorem dns_answers_own_host:
  assumes "dns_reach opt s" and "((i, hp), p) \<in> set (answers s)"
  shows "i < n_cb s \<and> requests s ! i = hp \<and>
    (case p of
       None \<Rightarrow> True
     | Some a \<Rightarrow> \<exists>t xs. ring (ais s) xs \<and> a \<in> set xs \<and> (\<forall>x \<in> set xs. origin s x = Some (hp, t)))"
proof -
  have inv: "dinv s" by (rule dns_reach_inv [OF assms(1)])
  then have "answer_ok s ((i, hp), p)" using assms(2) by (auto simp: dinv_def rings_ok_def)
  with dinv_request [OF inv, of i hp] assms(2) show ?thesis
    by (force simp: answer_ok_def ptr_ok_def ring_of_def on_ring_def split: option.splits)
qed

theorem dns_answers_own_host_witness:
  "\<exists>t xs. ring (ais demo_answered) xs \<and> 0 \<in> set xs \<and> (\<forall>x \<in> set xs. origin demo_answered x = Some (''h:1'', t))"
  using dns_answers_own_host [OF demo_answered_reach, of 0 "''h:1''" "Some 0"] by (simp add: demo_answered_def)

text \<open>
  C24: Results that are too old are not used.  When \<open>Resolve\<close> answers from the cache, the address
  comes from a call of \<open>getaddrinfo\<close> for the same host and port less than \<open>dns_cache_ttl\<close> ago; it answers with
  null only if the cache has no such address.
\<close>

theorem dns_cached_answer_fresh:
  assumes "dns_reach opt s" and "Resolve opt t hp s = Some s'" and "actions s' = actions s @ [Call cb p]"
  shows "cb = (n_cb s, hp) \<and>
    (case p of
       Some a \<Rightarrow> \<exists>r. ring_of s hp r a \<and> t < r + dns_cache_ttl opt
     | None \<Rightarrow> \<exists>it c. cache s hp = Some it \<and> entries s it = Some (hp, c) \<and>
         (cd_addr c = None \<or> successfully_resolved_at c + dns_cache_ttl opt \<le> t))"
proof -
  have inv: "dinv s" by (rule dns_reach_inv [OF assms(1)])
  from assms(2,3) obtain it where it: "cache s hp = Some it"
    by (auto simp: Resolve_def Resolve_locked_def Let_def split: option.splits)
  with inv obtain c where e: "entries s it = Some (hp, c)" by (auto simp: dinv_def map_ok_def)
  have d: "data_ok s hp c" using inv e by (simp add: dinv_def rings_ok_def)
  have c: "callbacks c = []"
    using assms(2,3) it e by (auto simp: Resolve_def Resolve_locked_def split: if_splits)
  from Use_ok [OF d, of t] obtain c' where "Use (ais s) t c = Some c'" by blast
  with assms(2,3) it e c have "cb = (n_cb s, hp)"
    "p = (if successfully_resolved_at c + dns_cache_ttl opt > t then cd_addr c else None)"
    by (auto simp: Resolve_def Resolve_locked_def)
  with d it e show ?thesis by (auto simp: data_ok_def split: option.splits if_splits)
qed

theorem dns_cached_answer_fresh_witness:
  "\<exists>s' r. Resolve default_dns_options (boot100 + 5) ''h:1'' demo_answered = Some s' \<and>
    ring_of demo_answered ''h:1'' r 0 \<and> boot100 + 5 < r + dns_cache_ttl default_dns_options"
proof -
  obtain s' where s': "Resolve default_dns_options (boot100 + 5) ''h:1'' demo_answered = Some s'"
    "actions s' = actions demo_answered @ [Call (1, ''h:1'') (Some 0)]"
    by (simp add: Resolve_def Resolve_locked_def demo_answered_def demo_begin_def DnsResolver_ctor_def demo_cached_def
        Use_def Advance_def default_dns_options_def)
  from dns_cached_answer_fresh [OF demo_answered_reach s'] s'(1) show ?thesis by auto
qed

fun advance_times :: "(addr \<rightharpoonup> addrinfo) \<Rightarrow> nat \<Rightarrow> ptr \<Rightarrow> ptr option" where
  "advance_times m 0 p = Some p"
| "advance_times m (Suc n) p = do { (q, p) \<leftarrow> Advance m p; advance_times m n p }"

lemma advance_times_ring:
  assumes "ring m xs" and "i < length xs"
  shows "advance_times m n (Some (xs ! i)) = Some (Some (xs ! ((i + n) mod length xs)))"
  using assms(2)
proof (induction n arbitrary: i)
  case (Suc n)
  have "Suc i mod length xs < length xs" using Suc.prems by (intro mod_less_divisor) linarith
  from Suc.IH [OF this] Advance_ring [OF assms(1) Suc.prems] show ?case
    by (simp add: mod_add_left_eq)
qed simp

text \<open>
  C25: The loop that carries the round-robin position over to a new result is the same as advancing
  once per use: it ends at the node \<open>use_count\<close> steps after the first, that is at position \<open>use_count mod n\<close> of
  \<open>n\<close> addresses, but after fewer than \<open>2 n\<close> rounds.
\<close>

theorem rotation_equals_advancing:
  assumes "ring m xs" and "0 \<le> uses"
  shows "\<exists>i p. rotate_addr m (Some (xs ! 0)) 0 uses (Some (xs ! 0)) = Some (i, p) \<and>
    advance_times m (nat uses) (Some (xs ! 0)) = Some p \<and> p = Some (xs ! (nat uses mod length xs)) \<and>
    i < 2 * int (length xs)"
proof -
  have "0 < length xs" using assms(1) by (simp add: ring_def)
  with rotate_addr_ring [OF assms(1) order_refl assms(2)] advance_times_ring [OF assms(1), of 0 "nat uses"]
  show ?thesis by auto
qed

theorem rotation_equals_advancing_witness:
  "\<exists>i p. rotate_addr (ais demo_answered) (Some 0) 0 12345 (Some 0) = Some (i, p) \<and> i < 2"
proof -
  have "ring (ais demo_answered) [0]" by (simp add: ring_def inet_node_def demo_answered_def)
  from rotation_equals_advancing [OF this, of 12345] show ?thesis by auto
qed

text \<open>
  C26: \<open>ResolveSync\<close> gives null exactly when the argument has no colon or \<open>getaddrinfo\<close>
  reports an error, and otherwise the first of a ring of exactly the addresses \<open>getaddrinfo\<close> has
  given, in their order; the addresses there are before stay as they are.
\<close>

theorem ResolveSync_makes_ring:
  assumes "gai_ok gai"
  shows "case resolved_to gai hp of
      None \<Rightarrow> ResolveSync gai now hp s = Some (None, s)
    | Some sas \<Rightarrow> \<exists>s'. ResolveSync gai now hp s = Some (Some (ai_brk s), s') \<and>
        ring (ais s') [ai_brk s..<ai_brk s + length sas] \<and> (\<forall>a < ai_brk s. ais s' a = ais s a) \<and>
        (\<forall>i < length sas. \<exists>n. ais s' (ai_brk s + i) = Some n \<and> ai_addr n = Some (sas ! i))"
  using ResolveSync_spec [OF assms, of now hp s] by (fastforce split: option.splits)

theorem ResolveSync_makes_ring_witness:
  "\<exists>s'. ResolveSync demo_gai 7 ''h:1'' \<lparr>ais = Map.empty, ai_brk = 5, origin = Map.empty\<rparr> = Some (Some 5, s') \<and>
    ring (ais s') [5..<6]"
proof -
  have "resolved_to demo_gai ''h:1'' = Some [\<lparr>sa_family = AF_INET, sin_port = 80, sin_addr = 1\<rparr>]"
    by (simp add: resolved_to_def split_host_port_def c_str_def strchr_def demo_gai_def)
  with ResolveSync_makes_ring [OF demo_gai_ok, where hp = "''h:1''" and now = 7 and s = "\<lparr>ais = Map.empty, ai_brk = 5, origin = Map.empty\<rparr>"]
  show ?thesis by auto
qed

text \<open>
  C27: What the code does in the first \<open>dns_cache_refresh_period\<close> after the clock's epoch, the boot of the machine: the
  first lookup of a host is answered with null and without a call of \<open>getaddrinfo\<close>, as if the
  entry had been resolved at time 0.
\<close>

theorem dns_first_lookup_skipped:
  assumes "dns_reach opt s" and "cache s hp = None" and "now < dns_cache_refresh_period opt"
  shows "\<exists>s1 s2. Resolve opt t hp s = Some s1 \<and>
    ProcessCacheEntry opt gai (e_brk s) (Begin now) s1 = Some (Some (Calling [(n_cb s, hp)] None), s2)"
  using assms(2,3)
  by (simp add: Resolve_def Resolve_locked_def Let_def ProcessCacheEntry_def PCE_begin_def PCE_deliver_def new_CacheData_def
      Use_def)

theorem dns_first_lookup_skipped_witness:
  "\<exists>s1 s2. Resolve default_dns_options 5 ''h:1'' (DnsResolver_ctor 5) = Some s1 \<and>
    ProcessCacheEntry default_dns_options demo_gai 0 (Begin 6) s1 = Some (Some (Calling [(0, ''h:1'')] None), s2)"
  using dns_first_lookup_skipped [OF dns_reach_ctor, of 5 "''h:1''" 6 default_dns_options 5 demo_gai]
  by (simp add: DnsResolver_ctor_def default_dns_options_def)

text \<open>
  C34: The cache is well formed: keys and iterators agree, no use count is negative, callbacks wait in the
  entry of the host and port they asked for, and a cached address is on a ring of addresses of the entry's own key, resolved at
  the time the entry says.
\<close>

theorem dns_cache_well_formed:
  assumes "dns_reach opt s"
  shows "(\<forall>hp it. cache s hp = Some it \<longleftrightarrow> (\<exists>c. entries s it = Some (hp, c))) \<and> finite (dom (cache s)) \<and>
    (\<forall>it hp c. entries s it = Some (hp, c) \<longrightarrow> use_count c \<ge> 0 \<and> (\<forall>cb \<in> set (callbacks c). snd cb = hp) \<and>
      (\<forall>a. cd_addr c = Some a \<longrightarrow> (\<exists>xs. ring (ais s) xs \<and> a \<in> set xs \<and>
        (\<forall>x \<in> set xs. origin s x = Some (hp, successfully_resolved_at c)))))"
proof -
  have inv: "dinv s" by (rule dns_reach_inv [OF assms])
  then have m: "cache s hp = Some it \<longleftrightarrow> (\<exists>c. entries s it = Some (hp, c))" for hp it by (simp add: dinv_def map_ok_def)
  have fin: "finite (dom (entries s))" using inv by (simp add: dinv_def)
  have "dom (cache s) \<subseteq> (\<lambda>it. fst (the (entries s it))) ` dom (entries s)"
    using m by (force simp: dom_def image_def)
  then have "finite (dom (cache s))" by (rule finite_subset [OF _ finite_imageI [OF fin]])
  moreover have "data_ok s hp c" if "entries s it = Some (hp, c)" for it hp c
    using inv that by (simp add: dinv_def rings_ok_def)
  ultimately show ?thesis using m unfolding data_ok_def ring_of_def on_ring_def by blast
qed

theorem dns_cache_well_formed_witness:
  "\<exists>xs. ring (ais demo_answered) xs \<and> 0 \<in> set xs \<and> (\<forall>x \<in> set xs. origin demo_answered x = Some (''h:1'', boot100))"
proof -
  note wf = dns_cache_well_formed [OF demo_answered_reach, THEN conjunct2, THEN conjunct2, rule_format]
  have "entries demo_answered 0 = Some (''h:1'', demo_cached)" by (simp add: demo_answered_def)
  from wf [OF this, THEN conjunct2, THEN conjunct2, rule_format, of 0] show ?thesis by (simp add: demo_cached_def)
qed

end
