(* ===== verification/Dns_Rest.thy ===== *)
theory Dns_Rest
  imports Dns_Safety
begin

text \<open>
  The steps the resolver makes by itself come to rest, and there every callback has been called.
  Callbacks wait only during the first processing of an entry, which is due at once; and a call of
  \<open>ProcessCacheEntry\<close> that begins now is queued again for a time after now.
\<close>

section \<open>Where callbacks wait\<close>

definition waiting_cbs :: "'a dns_state_scheme \<Rightarrow> addr \<Rightarrow> nat" where
  "waiting_cbs s it = (case entries s it of None \<Rightarrow> 0 | Some (k, c) \<Rightarrow> length (callbacks c))"

definition early :: "dns_pc \<Rightarrow> bool" where
  "early pc = (case pc of Calling cbs p \<Rightarrow> False | Scheduling t \<Rightarrow> False | _ \<Rightarrow> True)"

definition prompt :: "dns \<Rightarrow> bool" where
  "prompt s \<longleftrightarrow> (\<forall>(t, it) \<in> set (queued s). waiting_cbs s it \<noteq> 0 \<longrightarrow> t \<le> dns_clock s) \<and>
     (\<forall>(it, pc) \<in> set (running s). waiting_cbs s it \<noteq> 0 \<longrightarrow> early pc) \<and>
     (\<forall>t it. Schedule_entry t it \<in> set (actions s) \<longrightarrow> t \<le> dns_clock s)"

lemma early_simps [simp]: "early (Begin t)" "early Resolving" "early (Resolved t p)" "\<not> early (Calling cbs p)"
  "\<not> early (Scheduling t)"
  by (simp_all add: early_def)

lemma waiting_cbs_cong: "entries s' = entries s \<Longrightarrow> waiting_cbs s' = waiting_cbs s"
  by (simp add: fun_eq_iff waiting_cbs_def)

lemma waiting_cbs_Some [simp]: "entries s it = Some (k, c) \<Longrightarrow> waiting_cbs s it = length (callbacks c)"
  by (simp add: waiting_cbs_def)

text \<open>The owner of an entry is the only one.\<close>

lemma sole_owner:
  assumes "dinv s" and "running s = as @ (it, pc) # bs"
  shows "(t, it) \<notin> set (queued s)" and "(it, q) \<notin> set (as @ bs)" and "Schedule_entry t it \<notin> set (actions s)"
proof -
  have "count (owners s) it \<le> 1" using assms(1) by (simp add: dinv_def count_mset_set')
  moreover have "owners s = add_mset it (mset (map snd (queued s)) + mset (map fst (as @ bs)) +
      mset (concat (map scheduled_entries (actions s))))" using assms(2) by (simp add: owners_def)
  ultimately have "count (mset (map snd (queued s)) + mset (map fst (as @ bs)) + mset (concat (map scheduled_entries (actions s)))) it = 0"
    by simp
  then have "it \<notin># mset (map snd (queued s)) + mset (map fst (as @ bs)) + mset (concat (map scheduled_entries (actions s)))"
    by (simp only: count_eq_zero_iff not_False_eq_True)
  then have n: "it \<notin> snd ` set (queued s)" "it \<notin> fst ` set (as @ bs)" "\<forall>act \<in> set (actions s). it \<notin> set (scheduled_entries act)"
    by (simp_all add: image_Un)
  show "(t, it) \<notin> set (queued s)" using n(1) by force
  show "(it, q) \<notin> set (as @ bs)" using n(2) by force
  show "Schedule_entry t it \<notin> set (actions s)" using n(3) by (auto simp: scheduled_entries_def)
qed

lemma owned_entry:
  assumes "dinv s"
  shows "(t, it) \<in> set (queued s) \<Longrightarrow> it \<in> dom (entries s)" and "(it, pc) \<in> set (running s) \<Longrightarrow> it \<in> dom (entries s)"
    and "Schedule_entry t it \<in> set (actions s) \<Longrightarrow> it \<in> dom (entries s)"
proof -
  have "it \<in># owners s \<Longrightarrow> it \<in> dom (entries s)" using assms by (simp add: dinv_def)
  moreover have "(t, it) \<in> set (queued s) \<Longrightarrow> it \<in># owners s" "(it, pc) \<in> set (running s) \<Longrightarrow> it \<in># owners s"
    "Schedule_entry t it \<in> set (actions s) \<Longrightarrow> it \<in># owners s"
    unfolding owners_def by (force, force, auto simp: scheduled_entries_def)
  ultimately show "(t, it) \<in> set (queued s) \<Longrightarrow> it \<in> dom (entries s)" "(it, pc) \<in> set (running s) \<Longrightarrow> it \<in> dom (entries s)"
    "Schedule_entry t it \<in> set (actions s) \<Longrightarrow> it \<in> dom (entries s)" by blast+
qed

section \<open>What a call does to its entry\<close>

lemma Use_fields:
  assumes "Use m now c = Some c'"
  shows "callbacks c' = callbacks c" and "resolved_at c' = resolved_at c" and "used_at c' = max (used_at c) now"
  using assms by (auto simp: Use_def split: bind_splits)

lemma use_times_fields:
  assumes "use_times m now n c = Some c'"
  shows "callbacks c' = callbacks c \<and> resolved_at c' = resolved_at c \<and> used_at c \<le> used_at c' \<and> (n \<noteq> 0 \<longrightarrow> now \<le> used_at c')"
  using assms
proof (induction n arbitrary: c)
  case (Suc n)
  then obtain c1 where c1: "Use m now c = Some c1" "use_times m now n c1 = Some c'" by (auto split: bind_splits)
  from Suc.IH [OF c1(2)] Use_fields [OF c1(1)] show ?case by auto
qed simp

text \<open>
  The weight of a call: how many steps it has left, and \<open>6\<close> for another round if the call may be
  queued for a time that has passed, which can only be when it read the clock before the last time it moved.
\<close>

fun fresh :: "dns_options \<Rightarrow> time \<Rightarrow> cache_data \<Rightarrow> dns_pc \<Rightarrow> bool" where
  "fresh opt now c (Begin t) \<longleftrightarrow> t = now"
| "fresh opt now c Resolving \<longleftrightarrow> callbacks c \<noteq> [] \<or> now < used_at c + dns_cache_refresh_duration opt"
| "fresh opt now c (Resolved t p) \<longleftrightarrow> t = now \<and> (callbacks c \<noteq> [] \<or> now < used_at c + dns_cache_refresh_duration opt)"
| "fresh opt now c (Calling cbs p) \<longleftrightarrow> now < resolved_at c + dns_cache_refresh_period opt \<and>
     now < used_at c + dns_cache_refresh_duration opt"
| "fresh opt now c (Scheduling t) \<longleftrightarrow> now < t"

fun steps_left :: "cache_data \<Rightarrow> dns_pc \<Rightarrow> nat" where
  "steps_left c (Begin t) = 5 + length (callbacks c)"
| "steps_left c Resolving = 4 + length (callbacks c)"
| "steps_left c (Resolved t p) = 3 + length (callbacks c)"
| "steps_left c (Calling cbs p) = 2 + length cbs"
| "steps_left c (Scheduling t) = 1"

definition call_weight :: "dns_options \<Rightarrow> time \<Rightarrow> cache_data \<Rightarrow> dns_pc \<Rightarrow> nat" where
  "call_weight opt now c pc = steps_left c pc + (if fresh opt now c pc then 0 else 6)"

text \<open>Keeping the entry in the cache makes sense: both periods are positive.\<close>

definition periods_ok :: "dns_options \<Rightarrow> bool" where
  "periods_ok opt \<longleftrightarrow> 0 < dns_cache_refresh_period opt \<and> 0 < dns_cache_refresh_duration opt"

lemma PCE_deliver_outcome:
  assumes "PCE_deliver opt t it s = Some (q, s')" and "entries s it = Some (k, c)"
  shows "\<exists>pc' c'. q = Some pc' \<and> s' = s\<lparr>entries := (entries s)(it \<mapsto> (k, c'))\<rparr> \<and> (callbacks c' = []) \<and>
    steps_left c' pc' < 3 + length (callbacks c) \<and>
    (periods_ok opt \<and> t = now \<and> now < resolved_at c + dns_cache_refresh_period opt \<and>
      (callbacks c \<noteq> [] \<or> now < used_at c + dns_cache_refresh_duration opt) \<longrightarrow> fresh opt now c' pc')"
proof (cases "callbacks c = []")
  case True
  with assms show ?thesis
    by (intro exI [of _ "the q"] exI [of _ c]) (auto simp: PCE_deliver_def PCE_next_def fun_upd_idem)
next
  case False
  with assms obtain c' where
    c': "use_times (ais s) t (length (callbacks c)) (c\<lparr>callbacks := []\<rparr>) = Some c'"
      "q = Some (Calling (callbacks c) (cd_addr c))" "s' = s\<lparr>entries := (entries s)(it \<mapsto> (k, c'))\<rparr>"
    by (auto simp: PCE_deliver_def Let_def split: bind_splits)
  with use_times_fields [OF c'(1)] False show ?thesis
    by (intro exI [of _ "the q"] exI [of _ c']) (auto simp: periods_ok_def)
qed

text \<open>A step of a call that does not end it.\<close>

definition goes_on ::
  "dns_options \<Rightarrow> addr \<Rightarrow> dns_pc \<Rightarrow> dns \<Rightarrow> dns_pc \<Rightarrow> dns \<Rightarrow> bool" where
  "goes_on opt it pc s pc' s' \<longleftrightarrow> (\<exists>k c c'. entries s it = Some (k, c) \<and>
     entries s' = (entries s)(it \<mapsto> (k, c')) \<and> (early pc' \<or> callbacks c' = []) \<and> (callbacks c = [] \<longrightarrow> callbacks c' = []) \<and>
     steps_left c' pc' < steps_left c pc \<and>
     (periods_ok opt \<longrightarrow> fresh opt (dns_clock s) c pc \<longrightarrow> fresh opt (dns_clock s) c' pc'))"

lemma goes_onI:
  assumes "entries s it = Some (k, c)" and "entries s' = (entries s)(it \<mapsto> (k, c'))"
    and "early pc' \<or> callbacks c' = []" and "callbacks c = [] \<Longrightarrow> callbacks c' = []" and "steps_left c' pc' < steps_left c pc"
    and "periods_ok opt \<Longrightarrow> fresh opt (dns_clock s) c pc \<Longrightarrow> fresh opt (dns_clock s) c' pc'"
  shows "goes_on opt it pc s pc' s'"
  using assms unfolding goes_on_def by blast

lemma PCE_begin_outcome:
  assumes "PCE_begin opt t it s = Some (q, s')" and "entries s it = Some (k, c)"
  shows "q = None \<and> callbacks c = [] \<and> s' = s\<lparr>entries := (entries s)(it := None), cache := (cache s)(k := None)\<rparr> \<or>
    (\<exists>pc'. q = Some pc' \<and> goes_on opt it (Begin t) s pc' s')"
proof -
  consider "callbacks c = []" "used_at c + dns_cache_refresh_duration opt \<le> t"
    | "\<not> (callbacks c = [] \<and> used_at c + dns_cache_refresh_duration opt \<le> t)"
      "resolved_at c + dns_cache_refresh_period opt \<le> t"
    | "\<not> (callbacks c = [] \<and> used_at c + dns_cache_refresh_duration opt \<le> t)"
      "\<not> resolved_at c + dns_cache_refresh_period opt \<le> t" by blast
  then show ?thesis
  proof cases
    case 1
    with assms show ?thesis by (simp add: PCE_begin_def)
  next
    case 2
    with assms have "q = Some Resolving" "s' = s" by (simp_all add: PCE_begin_def)
    moreover have "goes_on opt it (Begin t) s Resolving s"
      by (rule goes_onI [OF assms(2), of _ c]) (use 2 assms(2) in \<open>auto simp: fun_upd_idem\<close>)
    ultimately show ?thesis by blast
  next
    case 3
    with assms have "PCE_deliver opt t it s = Some (q, s')" by (auto simp: PCE_begin_def)
    from PCE_deliver_outcome [OF this assms(2), of "dns_clock s"] obtain pc' c' where
      *: "q = Some pc'" "s' = s\<lparr>entries := (entries s)(it \<mapsto> (k, c'))\<rparr>" "callbacks c' = []"
        "steps_left c' pc' < 3 + length (callbacks c)"
        "periods_ok opt \<Longrightarrow> t = dns_clock s \<Longrightarrow> dns_clock s < resolved_at c + dns_cache_refresh_period opt \<Longrightarrow>
          callbacks c \<noteq> [] \<or> dns_clock s < used_at c + dns_cache_refresh_duration opt \<Longrightarrow> fresh opt (dns_clock s) c' pc'"
      by blast
    have "goes_on opt it (Begin t) s pc' s'"
      by (rule goes_onI [OF assms(2), of _ c']) (use * 3 in auto)
    with *(1) show ?thesis by blast
  qed
qed

lemma PCE_resolved_outcome:
  assumes "PCE_resolved opt t p it s = Some (q, s')" and "entries s it = Some (k, c)"
  shows "\<exists>pc'. q = Some pc' \<and> goes_on opt it (Resolved t p) s pc' s'"
proof -
  obtain c1 where c1: "callbacks c1 = callbacks c" "resolved_at c1 = t" "used_at c1 = used_at c"
    "PCE_deliver opt t it (s\<lparr>entries := (entries s)(it \<mapsto> (k, c1))\<rparr>) = Some (q, s')"
  proof (cases p)
    case None
    with assms that [of "c\<lparr>resolved_at := t\<rparr>"] show ?thesis by (simp add: PCE_resolved_def)
  next
    case (Some a)
    with assms obtain i r where "rotate_addr (ais s) p 0 (use_count c) p = Some (i, r)"
      "PCE_deliver opt t it (s\<lparr>entries := (entries s)(it \<mapsto> (k, c\<lparr>resolved_at := t, cd_addr := r,
         successfully_resolved_at := t, use_count := 0\<rparr>))\<rparr>) = Some (q, s')"
      by (auto simp: PCE_resolved_def Let_def split: bind_splits)
    with that [of "c\<lparr>resolved_at := t, cd_addr := r, successfully_resolved_at := t, use_count := 0\<rparr>"]
    show ?thesis by simp
  qed
  from PCE_deliver_outcome [OF c1(4), of k c1 "dns_clock s"] obtain pc' c' where
    *: "q = Some pc'" "s' = s\<lparr>entries := (entries s)(it \<mapsto> (k, c'))\<rparr>" "callbacks c' = []"
      "steps_left c' pc' < 3 + length (callbacks c)"
      "periods_ok opt \<Longrightarrow> t = dns_clock s \<Longrightarrow> dns_clock s < resolved_at c1 + dns_cache_refresh_period opt \<Longrightarrow>
        callbacks c1 \<noteq> [] \<or> dns_clock s < used_at c1 + dns_cache_refresh_duration opt \<Longrightarrow> fresh opt (dns_clock s) c' pc'"
    using c1(1) by auto
  have "goes_on opt it (Resolved t p) s pc' s'"
    by (rule goes_onI [OF assms(2), of _ c']) (use * c1 in \<open>auto simp: periods_ok_def\<close>)
  with *(1) show ?thesis by blast
qed

text \<open>The other fields a step of a call leaves as they are.\<close>

definition others_kept :: "dns \<Rightarrow> dns \<Rightarrow> bool" where
  "others_kept s s' \<longleftrightarrow> queued s' = queued s \<and> running s' = running s \<and> actions s' = actions s \<and>
     requests s' = requests s \<and> dns_clock s' = dns_clock s"

lemma cache_only_kept: "cache_only s s' \<Longrightarrow> others_kept s s'"
  by (cases s; cases s'; simp add: cache_only_def others_kept_def)

lemma task_outcome:
  assumes run: "ProcessCacheEntry opt gai it pc s = Some (q, s')" and g: "gai_ok gai" and e: "entries s it = Some (k, c)"
    and pr: "early pc \<or> callbacks c = []"
  obtains (on) pc' where "q = Some pc'" "goes_on opt it pc s pc' s'" "others_kept s s'"
  | (erase) "q = None" "callbacks c = []" "entries s' = (entries s)(it := None)" "others_kept s s'" "0 < steps_left c pc"
  | (requeue) t where "pc = Scheduling t" "q = None" "s' = s\<lparr>queued := queued s @ [(t, it)]\<rparr>"
proof (cases pc)
  case (Begin t)
  with run have b: "PCE_begin opt t it s = Some (q, s')" by (simp add: ProcessCacheEntry_def)
  have "others_kept s s'" by (rule cache_only_kept [OF PCE_frame(1) [OF b]])
  with PCE_begin_outcome [OF b e] Begin on erase show ?thesis by auto
next
  case Resolving
  from ResolveSync_resolved [OF g, of "dns_clock s" k s] obtain p m n org where
    "ResolveSync gai (dns_clock s) k s = Some (p, s\<lparr>ais := m, ai_brk := n, origin := org\<rparr>)" by blast
  with run e Resolving have q: "q = Some (Resolved (dns_clock s) p)" "s' = s\<lparr>ais := m, ai_brk := n, origin := org\<rparr>"
    by (simp_all add: ProcessCacheEntry_def)
  have "goes_on opt it pc s (Resolved (dns_clock s) p) s'"
    by (rule goes_onI [OF e, of _ c]) (use q e Resolving in \<open>auto simp: fun_upd_idem\<close>)
  with q show ?thesis by (intro on) (simp_all add: others_kept_def)
next
  case (Resolved t p)
  with run have b: "PCE_resolved opt t p it s = Some (q, s')" by (simp add: ProcessCacheEntry_def)
  have "others_kept s s'" by (rule cache_only_kept [OF PCE_frame(2) [OF b]])
  with PCE_resolved_outcome [OF b e] Resolved on show ?thesis by auto
next
  case (Calling cbs p)
  with pr have c: "callbacks c = []" by simp
  show ?thesis
  proof (cases cbs)
    case Nil
    with run Calling e have q: "q = Some (Scheduling (min (resolved_at c + dns_cache_refresh_period opt)
       (used_at c + dns_cache_refresh_duration opt)))" "s' = s" by (auto simp: ProcessCacheEntry_def PCE_next_def)
    show ?thesis
      by (rule on [OF q(1)], rule goes_onI [OF e, of _ c])
        (use q(2) e c Calling Nil in \<open>auto simp: fun_upd_idem others_kept_def\<close>)
  next
    case (Cons f fs)
    with run Calling obtain p' q' where q: "q = Some (Calling fs p')" "s' = s\<lparr>answers := (f, q') # answers s\<rparr>"
      by (auto simp: ProcessCacheEntry_def split: bind_splits)
    show ?thesis
      by (rule on [OF q(1)], rule goes_onI [OF e, of _ c])
        (use q(2) e c Calling Cons in \<open>auto simp: fun_upd_idem others_kept_def\<close>)
  qed
next
  case (Scheduling t)
  with run show ?thesis by (intro requeue [of t]) (auto simp: ProcessCacheEntry_def)
qed

section \<open>Callbacks wait only for a call that is due\<close>

lemma prompt_mono:
  assumes pr: "prompt s" and w: "\<And>it. it \<in> dom (entries s) \<Longrightarrow> waiting_cbs s' it \<noteq> 0 \<Longrightarrow> waiting_cbs s it \<noteq> 0"
    and inv: "dinv s" and cl: "dns_clock s \<le> dns_clock s'"
    and q: "\<And>t it. (t, it) \<in> set (queued s') \<Longrightarrow> (t, it) \<in> set (queued s) \<or> (waiting_cbs s' it \<noteq> 0 \<longrightarrow> t \<le> dns_clock s')"
    and r: "\<And>it pc. (it, pc) \<in> set (running s') \<Longrightarrow> (it, pc) \<in> set (running s) \<or> (waiting_cbs s' it \<noteq> 0 \<longrightarrow> early pc)"
    and act: "\<And>t it. Schedule_entry t it \<in> set (actions s') \<Longrightarrow> Schedule_entry t it \<in> set (actions s) \<or> t \<le> dns_clock s'"
  shows "prompt s'"
proof -
  have "t \<le> dns_clock s'" if "(t, it) \<in> set (queued s')" "waiting_cbs s' it \<noteq> 0" for t it
  proof (cases "(t, it) \<in> set (queued s)")
    case True
    with w [OF owned_entry(1) [OF inv True]] that(2) pr have "t \<le> dns_clock s" by (auto simp: prompt_def)
    with cl show ?thesis by simp
  qed (use q [OF that(1)] that(2) in blast)
  moreover have "early pc" if "(it, pc) \<in> set (running s')" "waiting_cbs s' it \<noteq> 0" for it pc
  proof (cases "(it, pc) \<in> set (running s)")
    case True
    with w [OF owned_entry(2) [OF inv True]] that(2) pr show ?thesis by (auto simp: prompt_def)
  qed (use r [OF that(1)] that(2) in blast)
  moreover have "t \<le> dns_clock s'" if "Schedule_entry t it \<in> set (actions s')" for t it
    using act [OF that] pr cl unfolding prompt_def by (meson order_trans)
  ultimately show ?thesis by (auto simp: prompt_def)
qed

lemma prompt_Resolve:
  assumes r: "Resolve opt t hp s = Some s'" and "t \<le> dns_clock s" and inv: "dinv s" and pr: "prompt s"
  shows "prompt s'"
proof (cases "cache s hp")
  case None
  with r have s': "s' = s\<lparr>cache := (cache s)(hp \<mapsto> e_brk s), entries := (entries s)(e_brk s \<mapsto>
    (hp, new_CacheData\<lparr>callbacks := [(n_cb s, hp)]\<rparr>)), e_brk := e_brk s + 1, actions := actions s @ [Schedule_entry t (e_brk s)],
    requests := requests s @ [hp]\<rparr>" by (simp add: Resolve_def Resolve_locked_def Let_def)
  have new: "e_brk s \<notin> dom (entries s)" using inv by (auto simp: dinv_def map_ok_def)
  have "waiting_cbs s' it = waiting_cbs s it" if "it \<in> dom (entries s)" for it
    using that new by (auto simp: waiting_cbs_def s')
  with assms(2) show ?thesis
    by (intro prompt_mono [OF pr _ inv]) (auto simp: s')
next
  case (Some it)
  with inv obtain c where e: "entries s it = Some (hp, c)" by (auto simp: dinv_def map_ok_def)
  from r Some e obtain c' acts where s': "s' = s\<lparr>entries := (entries s)(it \<mapsto> (hp, c')), actions := actions s @ acts,
      requests := requests s @ [hp]\<rparr>" "callbacks c = [] \<Longrightarrow> callbacks c' = []" "\<forall>t i. Schedule_entry t i \<notin> set acts"
  proof (cases "callbacks c = []")
    case True
    with r Some e obtain c' p where "s' = s\<lparr>entries := (entries s)(it \<mapsto> (hp, c')), actions := actions s @ [Call (n_cb s, hp) p],
      requests := requests s @ [hp]\<rparr>" "Use (ais s) t c = Some c'"
      by (auto simp: Resolve_def Resolve_locked_def Let_def split: bind_splits)
    with Use_fields(1) that [where acts = "[Call (n_cb s, hp) p]" and c' = c'] True show ?thesis by simp
  next
    case False
    with r Some e that [where c' = "c\<lparr>callbacks := callbacks c @ [(n_cb s, hp)]\<rparr>" and acts = "[]"] show ?thesis
      by (simp add: Resolve_def Resolve_locked_def)
  qed
  have w: "waiting_cbs s' i \<noteq> 0 \<Longrightarrow> waiting_cbs s i \<noteq> 0" for i
    using s'(1,2) e by (auto simp: waiting_cbs_def split: if_splits)
  show ?thesis by (rule prompt_mono [OF pr w inv]) (use s'(1,3) in auto)
qed

lemma waiting_cbs_goes_on:
  assumes "goes_on opt it pc s pc' s'"
  shows "i \<noteq> it \<Longrightarrow> waiting_cbs s' i = waiting_cbs s i" and "waiting_cbs s' it \<noteq> 0 \<Longrightarrow> waiting_cbs s it \<noteq> 0 \<and> early pc'"
  using assms by (auto simp: goes_on_def waiting_cbs_def)

lemma prompt_task:
  assumes inv: "dinv s" and pr: "prompt s" and r: "running s = as @ (it, pc) # bs" and g: "gai_ok gai"
    and run: "ProcessCacheEntry opt gai it pc s = Some (q, s1)"
  shows "prompt (s1\<lparr>running := as @ (case q of None \<Rightarrow> [] | Some pc \<Rightarrow> [(it, pc)]) @ bs\<rparr>)" (is "prompt ?s")
proof -
  from running_entry [OF inv r] obtain k c where e: "entries s it = Some (k, c)" by blast
  have "early pc \<or> callbacks c = []" using pr r e by (auto simp: prompt_def)
  from run g e this show ?thesis
  proof (cases rule: task_outcome)
    case (on pc')
    have w: "waiting_cbs ?s i = waiting_cbs s1 i" for i by (simp add: waiting_cbs_def)
    have "waiting_cbs ?s i \<noteq> 0 \<Longrightarrow> waiting_cbs s i \<noteq> 0" for i
      using waiting_cbs_goes_on(1) [OF on(2), of i] waiting_cbs_goes_on(2) [OF on(2)] unfolding w by (cases "i = it") simp_all
    moreover have "waiting_cbs ?s it \<noteq> 0 \<longrightarrow> early pc'" using waiting_cbs_goes_on(2) [OF on(2)] unfolding w by blast
    ultimately show ?thesis
      by (intro prompt_mono [OF pr _ inv]) (use on(1,3) r in \<open>auto simp: others_kept_def\<close>)
  next
    case erase
    then have "waiting_cbs ?s i = waiting_cbs s i" for i by (simp add: waiting_cbs_def e)
    then show ?thesis by (intro prompt_mono [OF pr _ inv]) (use erase(1,4) r in \<open>auto simp: others_kept_def\<close>)
  next
    case (requeue t)
    have w: "waiting_cbs ?s i = waiting_cbs s i" for i by (simp add: waiting_cbs_def requeue(3))
    moreover have "waiting_cbs s it = 0" using pr r requeue(1) by (auto simp: prompt_def)
    ultimately show ?thesis by (intro prompt_mono [OF pr _ inv]) (use requeue(2,3) r in auto)
  qed
qed

lemma dns_step_prompt:
  assumes "dns_step opt s s'" and inv: "dinv s" and pr: "prompt s"
  shows "prompt s'"
  using assms(1)
proof cases
  case (resolve t hp)
  with prompt_Resolve inv pr show ?thesis by blast
next
  case (schedule as t it bs)
  then have "t \<le> dns_clock s" using pr by (auto simp: prompt_def)
  then show ?thesis by (intro prompt_mono [OF pr _ inv]) (use schedule in \<open>auto simp: waiting_cbs_def\<close>)
next
  case (call as cb p bs)
  then show ?thesis by (intro prompt_mono [OF pr _ inv]) (auto simp: waiting_cbs_def)
next
  case (start as t it bs)
  then show ?thesis by (intro prompt_mono [OF pr _ inv]) (auto simp: waiting_cbs_def)
next
  case (task as it pc bs gai r s1)
  with prompt_task [OF inv pr task(2,3,4)] show ?thesis by simp
next
  case (tick t)
  then show ?thesis by (intro prompt_mono [OF pr _ inv]) (auto simp: waiting_cbs_def)
qed

lemma dns_reach_induct [consumes 1, case_names ctor step]:
  assumes "dns_reach opt s" and "\<And>now. P (DnsResolver_ctor now)"
    and "\<And>s s'. dns_reach opt s \<Longrightarrow> P s \<Longrightarrow> dns_step opt s s' \<Longrightarrow> P s'"
  shows "P s"
proof -
  from assms(1) obtain now where "(dns_step opt)\<^sup>*\<^sup>* (DnsResolver_ctor now) s" by (auto simp: dns_reach_def)
  then have "dns_reach opt s \<and> P s"
  proof (induction rule: rtranclp_induct)
    case base
    show ?case using assms(2) by (auto simp: dns_reach_def)
  next
    case (step s s')
    with assms(3) show ?case by (auto simp: dns_reach_def intro: rtranclp.rtrancl_into_rtrancl)
  qed
  then show ?thesis ..
qed

lemma dns_reach_prompt: "dns_reach opt s \<Longrightarrow> prompt s"
proof (induction rule: dns_reach_induct)
  case (ctor now)
  show ?case by (simp add: prompt_def DnsResolver_ctor_def)
qed (blast intro: dns_step_prompt dns_reach_inv)

text \<open>Without a step left, nothing waits.\<close>

lemma rest_uncalled:
  assumes "dinv s" and "prompt s" and "running s = []" and "actions s = []" and "\<forall>(t, it) \<in> set (queued s). dns_clock s < t"
  shows "uncalled s = {#}"
proof -
  have "entry_cbs (entries s) it = {#}" if "it \<in> dom (entries s)" for it
  proof -
    from that assms(1) have "it \<in># owners s" by (simp add: dinv_def)
    then obtain t where "(t, it) \<in> set (queued s)" using assms(3,4) by (auto simp: owners_def)
    with assms(2,5) have "waiting_cbs s it = 0" by (fastforce simp: prompt_def)
    then show ?thesis by (auto simp: waiting_cbs_def entry_cbs_def split: option.splits)
  qed
  then show ?thesis using assms(3,4) by (simp add: uncalled_def)
qed

section \<open>The resolver does not go on for ever\<close>

fun queue_weight :: "dns \<Rightarrow> time \<times> addr \<Rightarrow> nat" where
  "queue_weight s (t, it) = (if t \<le> dns_clock s then 6 + waiting_cbs s it else 0)"

fun run_weight :: "dns_options \<Rightarrow> dns \<Rightarrow> addr \<times> dns_pc \<Rightarrow> nat" where
  "run_weight opt s (it, pc) =
     (case entries s it of None \<Rightarrow> 0 | Some (k, c) \<Rightarrow> call_weight opt (dns_clock s) c pc)"

fun action_weight :: "dns \<Rightarrow> dns_action \<Rightarrow> nat" where
  "action_weight s (Schedule_entry t it) = 7 + waiting_cbs s it"
| "action_weight s (Call cb p) = 1"

definition dns_weight :: "dns_options \<Rightarrow> dns \<Rightarrow> nat" where
  "dns_weight opt s = sum_list (map (queue_weight s) (queued s)) + sum_list (map (run_weight opt s) (running s)) +
     sum_list (map (action_weight s) (actions s))"

lemma weight_cong:
  assumes "dns_clock s' = dns_clock s" and "entries s' it = entries s it"
  shows "queue_weight s' (t, it) = queue_weight s (t, it)" and "run_weight opt s' (it, pc) = run_weight opt s (it, pc)"
    and "action_weight s' (Schedule_entry t it) = action_weight s (Schedule_entry t it)"
  using assms by (simp_all add: waiting_cbs_def split: option.split)

lemma weight_cong_fun:
  assumes "dns_clock s' = dns_clock s" and "entries s' = entries s"
  shows "queue_weight s' = queue_weight s" and "run_weight opt s' = run_weight opt s" and "action_weight s' = action_weight s"
proof -
  show "queue_weight s' = queue_weight s" "run_weight opt s' = run_weight opt s"
    by (rule ext, case_tac x, simp add: assms waiting_cbs_def split: option.split)+
  show "action_weight s' = action_weight s"
    by (rule ext, case_tac x) (simp_all add: assms waiting_cbs_def)
qed

lemma schedule_weight:
  assumes "actions s = as @ Schedule_entry t it # bs"
  shows "dns_weight opt (s\<lparr>actions := as @ bs, queued := queued s @ [(t, it)]\<rparr>) < dns_weight opt s" (is "dns_weight opt ?s < _")
proof -
  note w = weight_cong_fun [of ?s s, simplified]
  show ?thesis using assms by (simp add: dns_weight_def w)
qed

lemma call_weight_less:
  assumes "actions s = as @ Call cb p # bs"
  shows "dns_weight opt (s\<lparr>actions := as @ bs, answers := (cb, p) # answers s\<rparr>) < dns_weight opt s" (is "dns_weight opt ?s < _")
proof -
  note w = weight_cong_fun [of ?s s, simplified]
  show ?thesis using assms by (simp add: dns_weight_def w)
qed

lemma start_weight:
  assumes "dinv s" and "queued s = as @ (t, it) # bs" and "t \<le> dns_clock s"
  shows "dns_weight opt (s\<lparr>queued := as @ bs, running := running s @ [(it, Begin (dns_clock s))]\<rparr>) < dns_weight opt s"
    (is "dns_weight opt ?s < _")
proof -
  note w = weight_cong_fun [of ?s s, simplified]
  from owned_entry(1) [OF assms(1), of t it] assms(2) obtain k c where "entries s it = Some (k, c)" by auto
  then show ?thesis using assms by (simp add: dns_weight_def w call_weight_def)
qed

text \<open>The weight without the part of the call that makes a step.\<close>

lemma split_weight:
  assumes inv: "dinv s" and r: "running s = as @ (it, pc) # bs"
    and s': "queued s' = queued s @ qs" "running s' = as @ rs @ bs" "actions s' = actions s" "dns_clock s' = dns_clock s"
    and same: "\<And>i. i \<noteq> it \<Longrightarrow> entries s' i = entries s i"
    and less: "sum_list (map (queue_weight s') qs) + sum_list (map (run_weight opt s') rs) < run_weight opt s (it, pc)"
  shows "dns_weight opt s' < dns_weight opt s"
proof -
  have "map (queue_weight s') (queued s) = map (queue_weight s) (queued s)"
  proof (rule map_cong [OF refl])
    fix x assume "x \<in> set (queued s)"
    then obtain t i where x: "x = (t, i)" "i \<noteq> it" using sole_owner(1) [OF inv r] by (metis prod.exhaust)
    with weight_cong(1) [OF s'(4) same] show "queue_weight s' x = queue_weight s x" by blast
  qed
  moreover have "map (run_weight opt s') xs = map (run_weight opt s) xs" if "set xs \<subseteq> set (as @ bs)" for xs
  proof (rule map_cong [OF refl])
    fix x assume "x \<in> set xs"
    then have "x \<in> set (as @ bs)" using that by (rule subsetD [rotated])
    then obtain i p where x: "x = (i, p)" "i \<noteq> it" using sole_owner(2) [OF inv r] by (metis prod.exhaust)
    with weight_cong(2) [OF s'(4) same] show "run_weight opt s' x = run_weight opt s x" by blast
  qed
  from this [of as] this [of bs]
  have "map (run_weight opt s') as = map (run_weight opt s) as" "map (run_weight opt s') bs = map (run_weight opt s) bs"
    by auto
  moreover have "map (action_weight s') (actions s) = map (action_weight s) (actions s)"
  proof (rule map_cong [OF refl])
    fix x assume "x \<in> set (actions s)"
    with sole_owner(3) [OF inv r] have "\<And>t i. x = Schedule_entry t i \<Longrightarrow> i \<noteq> it" by blast
    with weight_cong(3) [OF s'(4) same] show "action_weight s' x = action_weight s x" by (cases x) (blast, simp)
  qed
  ultimately show ?thesis using less r by (simp add: dns_weight_def s' del: map_eq_conv run_weight.simps)
qed

lemma task_weight:
  assumes inv: "dinv s" and pr: "prompt s" and r: "running s = as @ (it, pc) # bs" and g: "gai_ok gai"
    and run: "ProcessCacheEntry opt gai it pc s = Some (q, s1)" and ok: "periods_ok opt"
  shows "dns_weight opt (s1\<lparr>running := as @ (case q of None \<Rightarrow> [] | Some pc \<Rightarrow> [(it, pc)]) @ bs\<rparr>) < dns_weight opt s"
    (is "dns_weight opt ?s < _")
proof -
  from running_entry [OF inv r] obtain k c where e: "entries s it = Some (k, c)" by blast
  have early: "early pc \<or> callbacks c = []" using pr r e by (auto simp: prompt_def)
  from run g e early show ?thesis
  proof (cases rule: task_outcome)
    case (on pc')
    from on(2) e obtain c' where c': "entries s1 = (entries s)(it \<mapsto> (k, c'))" "steps_left c' pc' < steps_left c pc"
      "fresh opt (dns_clock s) c pc \<Longrightarrow> fresh opt (dns_clock s) c' pc'" using ok by (auto simp: goes_on_def)
    from c'(2,3) have "call_weight opt (dns_clock s) c' pc' < call_weight opt (dns_clock s) c pc" by (auto simp: call_weight_def)
    with on c'(1) e show ?thesis
      by (intro split_weight [OF inv r, of _ "[]" "[(it, pc')]"]) (simp_all add: others_kept_def)
  next
    case erase
    with e show ?thesis
      by (intro split_weight [OF inv r, of _ "[]" "[]"]) (simp_all add: others_kept_def call_weight_def)
  next
    case (requeue t)
    with early e show ?thesis
      by (intro split_weight [OF inv r, of _ "[(t, it)]" "[]"]) (simp_all add: call_weight_def waiting_cbs_def)
  qed
qed

end
