(* ===== verification/Dns_Pool.thy ===== *)
theory Dns_Pool
  imports Dns_Rest Thread_Pool_Correct
begin

text \<open>
  The resolver on its thread pool: \<open>src/src/dns.cc\<close> together with \<open>src/src/thread_pool.cc\<close>.

  \<open>Dns\<close> treats the pool as a bag of calls of \<open>ProcessCacheEntry\<close>, any of which may be started when it is due.  Here the
  calls are works in the queue of the model of the pool, which its threads take and run; the function of a work is
  the entry that \<open>ProcessCacheEntry\<close> is called for.  The steps are shown to be steps of \<open>Dns\<close>, so everything proved there
  holds here too.
\<close>

section \<open>The resolver and its pool\<close>

text \<open>
  \<open>calls\<close> has, for every thread of the pool, where the call of \<open>ProcessCacheEntry\<close> is that it
  runs, if any.  The fields \<open>queued\<close> and \<open>running\<close> of \<open>core\<close> are not used.
\<close>

record resolver =
  core :: dns
  workers :: "addr tpool"
  calls :: "dns_pc option list"

definition Resolver_ctor :: "dns_options \<Rightarrow> time \<Rightarrow> resolver" where
  "Resolver_ctor opt now = \<lparr>core = DnsResolver_ctor now, workers = ThreadPool_ctor (num_dns_resolution_threads opt) now,
     calls = replicate (num_dns_resolution_threads opt) None\<rparr>"

text \<open>
  The steps it makes by itself: a thread that has called \<open>Resolve\<close> does what is left to do after
  the critical section; the pool makes a step; a thread of the pool begins a call, goes on with it, returns from it
  after erasing the entry, or schedules the next one and returns.
\<close>

inductive resolver_run :: "dns_options \<Rightarrow> resolver \<Rightarrow> resolver \<Rightarrow> bool" for opt :: dns_options where
  schedule: "actions (core s) = as @ Schedule_entry t it # bs \<Longrightarrow>
    resolver_run opt s (s\<lparr>core := (core s)\<lparr>actions := as @ bs\<rparr>, workers := Schedule t (Some it) (workers s)\<rparr>)"
| call: "actions (core s) = as @ Call cb p # bs \<Longrightarrow>
    resolver_run opt s (s\<lparr>core := (core s)\<lparr>actions := as @ bs, answers := (cb, p) # answers (core s)\<rparr>\<rparr>)"
| pool: "tp_run (workers s) p \<Longrightarrow> resolver_run opt s (s\<lparr>workers := p\<rparr>)"
| start: "threads (workers s) = as @ Running it # bs \<Longrightarrow> calls s = cs @ None # ds \<Longrightarrow> length cs = length as \<Longrightarrow>
    resolver_run opt s (s\<lparr>calls := cs @ Some (Begin (clock (workers s))) # ds\<rparr>)"
| go_on: "threads (workers s) = as @ Running it # bs \<Longrightarrow> calls s = cs @ Some pc # ds \<Longrightarrow> length cs = length as \<Longrightarrow>
    \<forall>t. pc \<noteq> Scheduling t \<Longrightarrow> gai_ok gai \<Longrightarrow> ProcessCacheEntry opt gai it pc (core s) = Some (Some pc', d) \<Longrightarrow>
    resolver_run opt s (s\<lparr>core := d, calls := cs @ Some pc' # ds\<rparr>)"
| erased: "threads (workers s) = as @ Running it # bs \<Longrightarrow> calls s = cs @ Some pc # ds \<Longrightarrow> length cs = length as \<Longrightarrow>
    \<forall>t. pc \<noteq> Scheduling t \<Longrightarrow> gai_ok gai \<Longrightarrow> ProcessCacheEntry opt gai it pc (core s) = Some (None, d) \<Longrightarrow>
    resolver_run opt s (s\<lparr>core := d, workers := (workers s)\<lparr>threads := as @ Ready # bs\<rparr>, calls := cs @ None # ds\<rparr>)"
| again: "threads (workers s) = as @ Running it # bs \<Longrightarrow> calls s = cs @ Some (Scheduling t) # ds \<Longrightarrow> length cs = length as \<Longrightarrow>
    resolver_run opt s (s\<lparr>workers := (Schedule t (Some it) (workers s))\<lparr>threads := as @ Ready # bs\<rparr>, calls := cs @ None # ds\<rparr>)"

text \<open>The steps made to it: any thread calls \<open>Resolve\<close>, a wait ends spuriously, time passes.\<close>

inductive resolver_env :: "dns_options \<Rightarrow> resolver \<Rightarrow> resolver \<Rightarrow> bool" for opt :: dns_options where
  resolve: "t \<le> clock (workers s) \<Longrightarrow> Resolve opt t host_port (core s) = Some d \<Longrightarrow> resolver_env opt s (s\<lparr>core := d\<rparr>)"
| spurious: "threads (workers s) = as @ p # bs \<Longrightarrow> waiting c p \<Longrightarrow>
    resolver_env opt s (s\<lparr>workers := (workers s)\<lparr>threads := as @ woken c # bs\<rparr>\<rparr>)"
| tick: "clock (workers s) \<le> t \<Longrightarrow>
    resolver_env opt s (s\<lparr>core := (core s)\<lparr>dns_clock := t\<rparr>, workers := (workers s)\<lparr>clock := t\<rparr>\<rparr>)"

definition resolver_reach :: "dns_options \<Rightarrow> resolver \<Rightarrow> bool" where
  "resolver_reach opt s \<longleftrightarrow>
     (\<exists>now. (\<lambda>s s'. resolver_run opt s s' \<or> resolver_env opt s s')\<^sup>*\<^sup>* (Resolver_ctor opt now) s)"

section \<open>The calls on the threads\<close>

text \<open>The call that runs on a thread; the call a thread has taken from the queue and not begun.\<close>

fun running_call :: "addr pc \<Rightarrow> dns_pc option \<Rightarrow> (addr \<times> dns_pc) list" where
  "running_call (Running it) (Some pc) = [(it, pc)]"
| "running_call p c = []"

fun taken_call :: "addr pc \<Rightarrow> dns_pc option \<Rightarrow> addr list" where
  "taken_call (Running it) None = [it]"
| "taken_call (Popped (Some it)) c = [it]"
| "taken_call p c = []"

definition running_calls :: "addr pc list \<Rightarrow> dns_pc option list \<Rightarrow> (addr \<times> dns_pc) list" where
  "running_calls ts cs = concat (map2 running_call ts cs)"

definition taken_calls :: "addr pc list \<Rightarrow> dns_pc option list \<Rightarrow> addr list" where
  "taken_calls ts cs = concat (map2 taken_call ts cs)"

definition call_ok :: "addr pc \<Rightarrow> dns_pc option \<Rightarrow> bool" where
  "call_ok p c \<longleftrightarrow> (c \<noteq> None \<longrightarrow> (\<exists>it. p = Running it)) \<and> p \<noteq> Exited \<and> p \<noteq> Popped None"

text \<open>A thread that has nothing to do with a call.\<close>

definition off_call :: "addr pc \<Rightarrow> bool" where
  "off_call p = (case p of Ready \<Rightarrow> True | CvWait \<Rightarrow> True | SleepWait d \<Rightarrow> True | SleepWoken \<Rightarrow> True | _ \<Rightarrow> False)"

lemma off_call_simps [simp]: "off_call Ready" "off_call CvWait" "off_call (SleepWait d)" "off_call SleepWoken" "\<not> off_call (Popped f)"
  "\<not> off_call (Running it)" "\<not> off_call Exited"
  by (simp_all add: off_call_def)

lemma off_call_thread [simp]: "off_call p \<Longrightarrow> running_call p c = []" "off_call p \<Longrightarrow> taken_call p c = []"
  "off_call p \<Longrightarrow> call_ok p c \<longleftrightarrow> c = None"
  by (cases p; cases c; simp add: call_ok_def)+

lemma waiting_off_call: "waiting c p \<Longrightarrow> off_call p" "off_call (woken c)"
  by (cases p; simp) (cases c; simp)

lemma thread_calls_append [simp]:
  "length ts = length cs \<Longrightarrow> running_calls (ts @ ts') (cs @ cs') = running_calls ts cs @ running_calls ts' cs'"
  "length ts = length cs \<Longrightarrow> taken_calls (ts @ ts') (cs @ cs') = taken_calls ts cs @ taken_calls ts' cs'"
  by (simp_all add: running_calls_def taken_calls_def)

lemma thread_calls_Cons [simp]: "running_calls (p # ts) (c # cs) = running_call p c @ running_calls ts cs"
  "taken_calls (p # ts) (c # cs) = taken_call p c @ taken_calls ts cs"
  by (simp_all add: running_calls_def taken_calls_def)

lemma off_calls: "\<forall>p \<in> set ts. off_call p \<Longrightarrow> running_calls ts cs = []" "\<forall>p \<in> set ts. off_call p \<Longrightarrow> taken_calls ts cs = []"
  by (auto simp: running_calls_def taken_calls_def dest: set_zip_leftD)

text \<open>Threads that stay without a call do not matter.\<close>

definition same_calls :: "addr pc list \<Rightarrow> addr pc list \<Rightarrow> bool" where
  "same_calls ts ts' \<longleftrightarrow> list_all2 (\<lambda>p p'. p = p' \<or> off_call p \<and> off_call p') ts ts'"

lemma same_callsD:
  assumes "same_calls ts ts'" and "list_all2 call_ok ts cs"
  shows "running_calls ts' cs = running_calls ts cs" and "taken_calls ts' cs = taken_calls ts cs" and "list_all2 call_ok ts' cs"
proof -
  have "running_calls ts' cs = running_calls ts cs \<and> taken_calls ts' cs = taken_calls ts cs \<and> list_all2 call_ok ts' cs"
    using assms unfolding same_calls_def
  proof (induction arbitrary: cs rule: list_all2_induct)
    case (Cons p ts p' ts')
    then obtain c ds where "cs = c # ds" by (cases cs) auto
    with Cons.IH [of ds] Cons.hyps Cons.prems show ?case by auto
  qed simp
  then show "running_calls ts' cs = running_calls ts cs" "taken_calls ts' cs = taken_calls ts cs" "list_all2 call_ok ts' cs"
    by simp_all
qed

lemma same_calls_refl [simp]: "same_calls ts ts"
  by (simp add: same_calls_def list.rel_refl)

lemma same_calls_one: "off_call p \<Longrightarrow> off_call p' \<Longrightarrow> same_calls (as @ p # bs) (as @ p' # bs)"
  by (simp add: same_calls_def list_all2_appendI list.rel_refl)

lemma notify_same: "notify n ts ts' \<Longrightarrow> same_calls ts ts'"
proof (induction rule: notify.induct)
  case (one c p as bs)
  then show ?case by (intro same_calls_one) (simp_all add: waiting_off_call)
next
  case (all c ts)
  show ?case unfolding same_calls_def list_all2_map2
    by (rule list.rel_refl_strong) (use waiting_off_call in auto)
qed simp

section \<open>The invariant of the two parts\<close>

definition funcs_ok :: "addr tpool \<Rightarrow> bool" where
  "funcs_ok p \<longleftrightarrow> \<not> exiting p \<and> (\<forall>w \<in> set (works p). w_f w \<noteq> None)"

definition pool_ok :: "addr tpool \<Rightarrow> dns_pc option list \<Rightarrow> bool" where
  "pool_ok p cs \<longleftrightarrow> tp_inv p \<and> funcs_ok p \<and> list_all2 call_ok (threads p) cs"

lemma pool_okD:
  assumes "pool_ok p cs"
  shows "tp_inv p" and "funcs_ok p" and "list_all2 call_ok (threads p) cs" and "length cs = length (threads p)"
  using assms by (auto simp: pool_ok_def dest: list_all2_lengthD)

definition due_call :: "addr work \<Rightarrow> time \<times> addr" where
  "due_call w = (w_t w, the (w_f w))"

text \<open>
  What a step of the pool does, seen from the calls: nothing, or a work that is due is taken from the queue.
\<close>

definition pool_effect :: "addr tpool \<Rightarrow> addr tpool \<Rightarrow> dns_pc option list \<Rightarrow> bool" where
  "pool_effect p p' cs \<longleftrightarrow> running_calls (threads p') cs = running_calls (threads p) cs \<and> clock p' = clock p \<and>
     (works p' = works p \<and> mset (taken_calls (threads p') cs) = mset (taken_calls (threads p) cs) \<or>
      (\<exists>w. mset (works p) = add_mset w (mset (works p')) \<and> w_t w \<le> clock p \<and>
         mset (taken_calls (threads p') cs) = add_mset (the (w_f w)) (mset (taken_calls (threads p) cs))))"

lemma pool_effect_same: "same_calls (threads p) (threads p') \<Longrightarrow> list_all2 call_ok (threads p) cs \<Longrightarrow> works p' = works p \<Longrightarrow>
    clock p' = clock p \<Longrightarrow> pool_effect p p' cs"
  by (simp add: pool_effect_def same_callsD)

lemma Next_round_calls:
  assumes "Next_round now p = (pc, p')" and "funcs_ok p" and "queue_ok p"
  shows "off_call pc \<and> works p' = works p \<or>
    (\<exists>w it. works p \<noteq> [] \<and> mset (works p) = add_mset w (mset (works p')) \<and> w_t w \<le> now \<and> w_f w = Some it \<and> (pc = Popped (Some it) \<or> pc = Running it))"
proof (cases "works p \<noteq> [] \<and> w_t (pq_top (works p)) \<le> now")
  case True
  then have t: "pq_top (works p) \<in> set (works p)" using pq.top_in [of "works p"] by simp
  then obtain it where it: "w_f (pq_top (works p)) = Some it" using assms(2) by (auto simp: funcs_ok_def)
  have "mset (works p) = add_mset (pq_top (works p)) (mset (pq_pop (works p)))" using pq.bag_top [of "works p"] True by simp
  moreover have "works p' = pq_pop (works p)" "pc = Popped (Some it) \<or> pc = Running it"
    using assms(1,2) True it by (auto simp: Next_round_def Let_def after_Next_def funcs_ok_def)
  ultimately show ?thesis using True it by metis
next
  case False
  with assms(1,2) show ?thesis by (auto simp: Next_round_def Let_def funcs_ok_def split: if_splits)
qed

lemma round_effect:
  assumes n: "Next_round (clock p) q = (pc, q')" and q: "works q = works p" "clock q = clock p" "exiting q = exiting p"
    and ts: "threads p = as @ r # bs" "off_call r" and ok: "pool_ok p cs" and qq: "queue_ok q"
  shows "pool_effect p (q'\<lparr>threads := as @ pc # bs\<rparr>) cs \<and> funcs_ok q' \<and> list_all2 call_ok (as @ pc # bs) cs"
proof -
  note d = pool_okD [OF ok]
  from d(3) obtain xs c ys where cs: "cs = xs @ c # ys" "length as = length xs" "list_all2 call_ok as xs" "call_ok r c" "list_all2 call_ok bs ys"
    unfolding ts by (auto simp: list_all2_append1 list_all2_Cons1)
  have c: "c = None" using cs(4) ts(2) by simp
  have f: "funcs_ok q" using d(2) q by (simp add: funcs_ok_def)
  have fr: "clock q' = clock p" "exiting q' = exiting p" using Next_round_frame(3,6) [OF n] q by simp_all
  from Next_round_calls [OF n f qq] consider (idle) "off_call pc" "works q' = works q"
    | (take_one) w it where "mset (works q) = add_mset w (mset (works q'))" "w_t w \<le> clock p" "w_f w = Some it"
      "pc = Popped (Some it) \<or> pc = Running it" by blast
  then show ?thesis
  proof cases
    case idle
    then show ?thesis using fr f q cs c ts by (simp add: pool_effect_def funcs_ok_def list_all2_appendI)
  next
    case w: (take_one w it)
    have "set (works q') \<subseteq> set (works q)" using w(1) by (metis set_mset_mset set_mset_add_mset_insert subset_insertI)
    then have "funcs_ok q'" using f fr q by (auto simp: funcs_ok_def)
    moreover have "pool_effect p (q'\<lparr>threads := as @ pc # bs\<rparr>) cs"
      unfolding pool_effect_def using w fr q cs(1,2) c ts by (auto intro!: exI [of _ w])
    moreover have "call_ok pc c" using w(4) c by (auto simp: call_ok_def)
    ultimately show ?thesis using cs by (simp add: list_all2_appendI)
  qed
qed

lemma tp_run_calls:
  assumes "tp_run p p'" and ok: "pool_ok p cs"
  shows "pool_ok p' cs \<and> pool_effect p p' cs"
proof -
  note d = pool_okD [OF ok]
  have inv: "tp_inv p'" by (rule tp_run_inv [OF assms(1) d(1)])
  have qk: "queue_ok p" using d(1) by (simp add: tp_inv_def)
  have same: "pool_ok p' cs \<and> pool_effect p p' cs" if "same_calls (threads p) (threads p')" "works p' = works p" "clock p' = clock p"
    "exiting p' = exiting p"
    using that inv d(2) pool_effect_same [OF that(1) d(3) that(2,3)] same_callsD(3) [OF that(1) d(3)]
    by (simp add: pool_ok_def funcs_ok_def)
  from assms(1) show ?thesis
  proof cases
    case (deliver ms n ns ts)
    with same notify_same [OF deliver(3)] show ?thesis by simp
  next
    case (round as bs pc p1)
    with round_effect [OF round(3) _ _ _ round(2) _ ok qk] inv show ?thesis by (simp add: pool_ok_def funcs_ok_def)
  next
    case (sleeper as bs pc p1)
    then have n: "Next_round (clock p) (p\<lparr>have_sleeper := False\<rparr>) = (pc, p1)" by (simp add: Sleeper_round_def split: if_splits)
    have "queue_ok (p\<lparr>have_sleeper := False\<rparr>)" using qk by (simp add: queue_ok_def)
    with round_effect [OF n _ _ _ sleeper(2) _ ok] sleeper(1) inv show ?thesis by (simp add: pool_ok_def funcs_ok_def)
  next
    case (signal as f bs ts)
    from d(3) obtain xs c ys where cs: "cs = xs @ c # ys" "length as = length xs" "list_all2 call_ok as xs" "call_ok (Popped f) c"
      "list_all2 call_ok bs ys" unfolding signal(2) by (auto simp: list_all2_append1 list_all2_Cons1)
    then obtain it where it: "f = Some it" "c = None" by (cases f) (auto simp: call_ok_def)
    let ?ts = "as @ Running it # bs"
    have l: "list_all2 call_ok ?ts cs" using cs it by (simp add: list_all2_appendI call_ok_def)
    have n: "same_calls ?ts ts" using notify_same [OF signal(3)] it by (simp add: after_Next_def)
    have "running_calls ?ts cs = running_calls (threads p) cs" "taken_calls ?ts cs = taken_calls (threads p) cs"
      using cs it signal(2) by simp_all
    with same_callsD [OF n l] inv d(2) signal(1) show ?thesis by (simp add: pool_effect_def pool_ok_def funcs_ok_def)
  next
    case (timeout as t bs)
    with same same_calls_one [of "SleepWait t" SleepWoken as bs] show ?thesis by simp
  qed
qed

section \<open>The steps are steps of the resolver on a bag of calls\<close>

abbreviation with_tasks :: "dns \<Rightarrow> (time \<times> addr) list \<Rightarrow> (addr \<times> dns_pc) list \<Rightarrow> dns" where
  "with_tasks d q r \<equiv> d\<lparr>queued := q, running := r\<rparr>"

lemma with_tasks_upd:
  "(with_tasks d q r)\<lparr>entries := e\<rparr> = with_tasks (d\<lparr>entries := e\<rparr>) q r"
  "(with_tasks d q r)\<lparr>cache := m\<rparr> = with_tasks (d\<lparr>cache := m\<rparr>) q r"
  "(with_tasks d q r)\<lparr>e_brk := n\<rparr> = with_tasks (d\<lparr>e_brk := n\<rparr>) q r"
  "(with_tasks d q r)\<lparr>ais := h\<rparr> = with_tasks (d\<lparr>ais := h\<rparr>) q r"
  "(with_tasks d q r)\<lparr>ai_brk := n\<rparr> = with_tasks (d\<lparr>ai_brk := n\<rparr>) q r"
  "(with_tasks d q r)\<lparr>origin := org\<rparr> = with_tasks (d\<lparr>origin := org\<rparr>) q r"
  "(with_tasks d q r)\<lparr>actions := acts\<rparr> = with_tasks (d\<lparr>actions := acts\<rparr>) q r"
  "(with_tasks d q r)\<lparr>answers := ans\<rparr> = with_tasks (d\<lparr>answers := ans\<rparr>) q r"
  "(with_tasks d q r)\<lparr>requests := rs\<rparr> = with_tasks (d\<lparr>requests := rs\<rparr>) q r"
  "(with_tasks d q r)\<lparr>dns_clock := t\<rparr> = with_tasks (d\<lparr>dns_clock := t\<rparr>) q r"
  by simp_all

lemma Resolve_with_tasks:
  assumes "Resolve opt t hp d = Some d'"
  shows "Resolve opt t hp (with_tasks d q r) = Some (with_tasks d' q r)"
  using assms by (auto simp: Resolve_def Resolve_locked_def Let_def with_tasks_upd split: option.splits if_splits bind_splits)

lemma PCE_deliver_with_tasks:
  assumes "PCE_deliver opt now it d = Some (x, d')"
  shows "PCE_deliver opt now it (with_tasks d q r) = Some (x, with_tasks d' q r)"
  using assms by (auto simp: PCE_deliver_def PCE_next_def Let_def with_tasks_upd split: option.splits if_splits bind_splits)

lemma PCE_begin_with_tasks:
  assumes "PCE_begin opt now it d = Some (x, d')"
  shows "PCE_begin opt now it (with_tasks d q r) = Some (x, with_tasks d' q r)"
  using assms
  by (auto simp: PCE_begin_def with_tasks_upd split: if_splits bind_splits dest: PCE_deliver_with_tasks [where q = q and r = r])

lemma PCE_resolved_with_tasks:
  assumes "PCE_resolved opt now p it d = Some (x, d')"
  shows "PCE_resolved opt now p it (with_tasks d q r) = Some (x, with_tasks d' q r)"
proof (cases p)
  case None
  with assms show ?thesis
    by (auto simp: PCE_resolved_def Let_def with_tasks_upd split: bind_splits dest: PCE_deliver_with_tasks [where q = q and r = r])
next
  case (Some a)
  with assms obtain k c i p' where "entries d it = Some (k, c)" "rotate_addr (ais d) p 0 (use_count c) p = Some (i, p')"
    "PCE_deliver opt now it (d\<lparr>entries := (entries d)(it \<mapsto> (k, c\<lparr>resolved_at := now, cd_addr := p',
       successfully_resolved_at := now, use_count := 0\<rparr>))\<rparr>) = Some (x, d')"
    by (auto simp: PCE_resolved_def Let_def split: bind_splits)
  with Some PCE_deliver_with_tasks [OF this(3), where q = q and r = r] show ?thesis
    by (simp add: PCE_resolved_def Let_def with_tasks_upd)
qed

lemma gai_alloc_with_tasks:
  "gai_alloc sas org d = (a, d1) \<Longrightarrow> gai_alloc sas org (with_tasks d q r) = (a, with_tasks d1 q r)"
  by (auto simp: gai_alloc_def Let_def cong: if_cong)

lemma ResolveSync_with_tasks:
  assumes "ResolveSync gai now k d = Some (p, d')"
  shows "ResolveSync gai now k (with_tasks d q r) = Some (p, with_tasks d' q r)"
proof (cases "strchr (c_str k) (CHR '':'')")
  case None
  with assms show ?thesis by (simp add: ResolveSync_def)
next
  case (Some i)
  show ?thesis
  proof (cases "gai (take i (c_str k)) (drop (i + 1) (c_str k))")
    case (Inl e)
    with assms Some show ?thesis by (simp add: ResolveSync_def)
  next
    case (Inr sas)
    obtain a d1 where d1: "gai_alloc sas (k, now) d = (a, d1)" by fastforce
    from assms Some Inr d1 show ?thesis
      by (auto simp: ResolveSync_def gai_alloc_with_tasks [OF d1] with_tasks_upd split: bind_splits)
  qed
qed

lemma ProcessCacheEntry_with_tasks:
  assumes "ProcessCacheEntry opt gai it pc d = Some (x, d')" and "\<forall>t. pc \<noteq> Scheduling t"
  shows "ProcessCacheEntry opt gai it pc (with_tasks d q r) = Some (x, with_tasks d' q r)"
proof (cases pc)
  case (Begin t)
  with assms(1) PCE_begin_with_tasks [of opt t it d] show ?thesis by (simp add: ProcessCacheEntry_def)
next
  case Resolving
  with assms(1) obtain k c p where "entries d it = Some (k, c)" "ResolveSync gai (dns_clock d) k d = Some (p, d')"
    "x = Some (Resolved (dns_clock d') p)" by (auto simp: ProcessCacheEntry_def split: bind_splits)
  with ResolveSync_with_tasks [OF this(2), where q = q and r = r] Resolving show ?thesis by (simp add: ProcessCacheEntry_def)
next
  case (Resolved t p)
  with assms(1) PCE_resolved_with_tasks [of opt t p it d] show ?thesis by (simp add: ProcessCacheEntry_def)
next
  case (Calling cbs p)
  with assms(1) show ?thesis
    by (cases cbs) (auto simp: ProcessCacheEntry_def PCE_next_def with_tasks_upd split: bind_splits)
qed (use assms(2) in simp_all)

text \<open>A step of \<open>Dns\<close> the resolver makes by itself, which brings it nearer to rest.\<close>

definition dns_own :: "dns_options \<Rightarrow> dns \<Rightarrow> dns \<Rightarrow> bool" where
  "dns_own opt a a' \<longleftrightarrow> dns_step opt a a' \<and>
     (dinv a \<longrightarrow> prompt a \<longrightarrow> periods_ok opt \<longrightarrow> dns_weight opt a' < dns_weight opt a)"

lemma dns_own_schedule: "actions a = as @ Schedule_entry t it # bs \<Longrightarrow>
    dns_own opt a (a\<lparr>actions := as @ bs, queued := queued a @ [(t, it)]\<rparr>)"
  by (simp add: dns_own_def dns_step.schedule schedule_weight)

lemma dns_own_call: "actions a = as @ Call cb p # bs \<Longrightarrow>
    dns_own opt a (a\<lparr>actions := as @ bs, answers := (cb, p) # answers a\<rparr>)"
  by (simp add: dns_own_def dns_step.call call_weight_less)

lemma dns_own_start: "queued a = as @ (t, it) # bs \<Longrightarrow> t \<le> dns_clock a \<Longrightarrow>
    dns_own opt a (a\<lparr>queued := as @ bs, running := running a @ [(it, Begin (dns_clock a))]\<rparr>)"
  unfolding dns_own_def by (blast intro: dns_step.start start_weight)

lemma dns_own_task: "running a = as @ (it, pc) # bs \<Longrightarrow> gai_ok gai \<Longrightarrow> ProcessCacheEntry opt gai it pc a = Some (x, a') \<Longrightarrow>
    dns_own opt a (a'\<lparr>running := as @ (case x of None \<Rightarrow> [] | Some pc \<Rightarrow> [(it, pc)]) @ bs\<rparr>)"
  unfolding dns_own_def by (blast intro: dns_step.task task_weight)

text \<open>
  The relation between the two: the same fields, the calls on the threads and in the queue in any order, and a call a thread
  has taken from the queue and not begun is still in the bag, where it is due.
\<close>

definition bag_ok :: "addr tpool \<Rightarrow> dns_pc option list \<Rightarrow> (time \<times> addr) list \<Rightarrow> (addr \<times> dns_pc) list \<Rightarrow> bool" where
  "bag_ok p cs q r \<longleftrightarrow> mset r = mset (running_calls (threads p) cs) \<and>
     (\<exists>N. mset q = image_mset due_call (mset (works p)) + N \<and> image_mset snd N = mset (taken_calls (threads p) cs) \<and>
        (\<forall>x \<in># N. fst x \<le> clock p))"

definition resolver_ok :: "resolver \<Rightarrow> bool" where
  "resolver_ok s \<longleftrightarrow> pool_ok (workers s) (calls s) \<and> clock (workers s) = dns_clock (core s)"

definition refines :: "resolver \<Rightarrow> dns \<Rightarrow> bool" where
  "refines s a \<longleftrightarrow> (\<exists>q r. a = with_tasks (core s) q r \<and> bag_ok (workers s) (calls s) q r)"

lemma bag_okI:
  assumes "mset r = mset (running_calls (threads p) cs)"
    and "mset q = image_mset due_call (mset (works p)) + N" and "image_mset snd N = mset (taken_calls (threads p) cs)"
    and "\<forall>x \<in># N. fst x \<le> clock p"
  shows "bag_ok p cs q r"
  using assms unfolding bag_ok_def by blast

lemma bag_ok_pool:
  assumes "bag_ok p cs q r" and "pool_effect p p' cs"
  shows "bag_ok p' cs q r"
proof -
  from assms(1) obtain N where N: "mset r = mset (running_calls (threads p) cs)" "mset q = image_mset due_call (mset (works p)) + N"
    "image_mset snd N = mset (taken_calls (threads p) cs)" "\<forall>x \<in># N. fst x \<le> clock p" unfolding bag_ok_def by blast
  from assms(2) consider "works p' = works p" "mset (taken_calls (threads p') cs) = mset (taken_calls (threads p) cs)"
    | w where "mset (works p) = add_mset w (mset (works p'))" "w_t w \<le> clock p"
      "mset (taken_calls (threads p') cs) = add_mset (the (w_f w)) (mset (taken_calls (threads p) cs))"
    unfolding pool_effect_def by blast
  then show ?thesis
  proof cases
    case 1
    with N assms(2) show ?thesis by (intro bag_okI [of _ _ _ _ N]) (simp_all add: pool_effect_def)
  next
    case (2 w)
    with N assms(2) show ?thesis
      by (intro bag_okI [of _ _ _ _ "add_mset (due_call w) N"]) (simp_all add: pool_effect_def due_call_def)
  qed
qed

lemma Schedule_fields:
  "mset (works (Schedule t f p)) = add_mset \<lparr>w_t = t, w_idx = last_idx p + 1, w_f = f\<rparr> (mset (works p))"
  "threads (Schedule t f p) = threads p" "clock (Schedule t f p) = clock p" "exiting (Schedule t f p) = exiting p"
  by (simp_all add: Schedule_def Schedule_locked_def Let_def pq.bag_push)

lemma pool_ok_Schedule: "pool_ok p cs \<Longrightarrow> pool_ok (Schedule t (Some it) p) cs"
proof -
  assume ok: "pool_ok p cs"
  have "set (works (Schedule t (Some it) p)) = insert \<lparr>w_t = t, w_idx = last_idx p + 1, w_f = Some it\<rparr> (set (works p))"
    using Schedule_fields(1) [of t "Some it" p] by (metis set_mset_add_mset_insert set_mset_mset)
  with ok tp_env_inv [OF tp_env.schedule, of p t "Some it"] show ?thesis
    by (auto simp: pool_ok_def funcs_ok_def Schedule_fields)
qed

lemma bag_ok_Schedule:
  assumes "bag_ok p cs q r"
  shows "bag_ok (Schedule t (Some it) p) cs (q @ [(t, it)]) r"
proof -
  from assms obtain N where N: "mset r = mset (running_calls (threads p) cs)" "mset q = image_mset due_call (mset (works p)) + N"
    "image_mset snd N = mset (taken_calls (threads p) cs)" "\<forall>x \<in># N. fst x \<le> clock p" unfolding bag_ok_def by blast
  then show ?thesis by (intro bag_okI [of _ _ _ _ N]) (simp_all add: Schedule_fields due_call_def)
qed

text \<open>What a thread does with its call.\<close>

lemma thread_split:
  assumes "pool_ok p cs" and "threads p = as @ Running it # bs" and "cs = xs @ c # ys" and "length xs = length as"
  shows "list_all2 call_ok as xs" and "list_all2 call_ok bs ys"
  using pool_okD(3) [OF assms(1)] assms(2-4) by (simp_all add: list_all2_append)

lemma bag_ok_call:
  assumes b: "bag_ok p cs q r" and ts: "threads p = as @ Running it # bs" and cs: "cs = xs @ Some pc # ys" "length xs = length as"
  obtains rs rs' where "r = rs @ (it, pc) # rs'" "bag_ok p (xs @ Some pc' # ys) q (rs @ (it, pc') # rs')"
    "bag_ok (p\<lparr>threads := as @ Ready # bs\<rparr>) (xs @ None # ys) q (rs @ rs')"
proof -
  from b obtain N where N: "mset r = mset (running_calls (threads p) cs)" "mset q = image_mset due_call (mset (works p)) + N"
    "image_mset snd N = mset (taken_calls (threads p) cs)" "\<forall>x \<in># N. fst x \<le> clock p" unfolding bag_ok_def by blast
  have "(it, pc) \<in> set r" using N(1) cs ts by (simp flip: set_mset_mset)
  then obtain rs rs' where r: "r = rs @ (it, pc) # rs'" by (meson split_list)
  have "mset (rs @ rs') = mset (running_calls as xs) + mset (running_calls bs ys)" using N(1) cs ts r by simp
  then show ?thesis using N cs ts by (intro that [OF r] bag_okI [of _ _ _ _ N]) simp_all
qed

lemma bag_ok_start:
  assumes b: "bag_ok p cs q r" and ts: "threads p = as @ Running it # bs" and cs: "cs = xs @ None # ys" "length xs = length as"
  obtains qs t qs' where "q = qs @ (t, it) # qs'" "t \<le> clock p" "bag_ok p (xs @ Some pc # ys) (qs @ qs') (r @ [(it, pc)])"
proof -
  from b obtain N where N: "mset r = mset (running_calls (threads p) cs)" "mset q = image_mset due_call (mset (works p)) + N"
    "image_mset snd N = mset (taken_calls (threads p) cs)" "\<forall>x \<in># N. fst x \<le> clock p" unfolding bag_ok_def by blast
  have "it \<in># image_mset snd N" using N(3) cs ts by simp
  then obtain t where t: "(t, it) \<in># N" by auto
  then obtain M where M: "N = add_mset (t, it) M" by (metis insert_DiffM)
  have "(t, it) \<in> set q" using N(2) M by (metis set_mset_mset union_iff t)
  then obtain qs qs' where q: "q = qs @ (t, it) # qs'" by (meson split_list)
  have "t \<le> clock p" using N(4) t by fastforce
  moreover have "bag_ok p (xs @ Some pc # ys) (qs @ qs') (r @ [(it, pc)])"
    using N M cs ts q by (intro bag_okI [of _ _ _ _ M]) simp_all
  ultimately show ?thesis using that q by blast
qed

lemma pool_ok_thread:
  assumes ok: "pool_ok p cs" and ts: "threads p = as @ Running it # bs" and cs: "cs = xs @ c # ys" "length xs = length as"
  shows "pool_ok p (xs @ c' # ys)" and "pool_ok (p\<lparr>threads := as @ Ready # bs\<rparr>) (xs @ None # ys)"
proof -
  note l = thread_split [OF ok ts cs]
  show "pool_ok p (xs @ c' # ys)" using ok l cs ts by (simp add: pool_ok_def list_all2_appendI call_ok_def)
  have "tp_inv (p\<lparr>threads := as @ Ready # bs\<rparr>)"
    using tp_env_inv [OF tp_env.finish [OF ts]] ok by (simp add: pool_ok_def)
  then show "pool_ok (p\<lparr>threads := as @ Ready # bs\<rparr>) (xs @ None # ys)"
    using ok l cs ts by (simp add: pool_ok_def list_all2_appendI call_ok_def funcs_ok_def)
qed

lemma ProcessCacheEntry_frame:
  assumes "ProcessCacheEntry opt gai it pc d = Some (x, d')" and "gai_ok gai"
  shows "dns_clock d' = dns_clock d" and "requests d' = requests d"
proof -
  have "dns_clock d' = dns_clock d \<and> requests d' = requests d"
  proof (cases pc)
    case (Begin t)
    with assms(1) have "cache_only d d'" by (auto simp: ProcessCacheEntry_def dest: PCE_frame)
    from cache_only_kept [OF this] show ?thesis by (simp add: others_kept_def)
  next
    case Resolving
    with assms(1) obtain k p where "ResolveSync gai (dns_clock d) k d = Some (p, d')"
      by (auto simp: ProcessCacheEntry_def split: bind_splits)
    with ResolveSync_resolved [OF assms(2), of "dns_clock d" k d] show ?thesis by auto
  next
    case (Resolved t p)
    with assms(1) have "cache_only d d'" by (auto simp: ProcessCacheEntry_def dest: PCE_frame)
    from cache_only_kept [OF this] show ?thesis by (simp add: others_kept_def)
  next
    case (Calling cbs p)
    with assms(1) show ?thesis by (cases cbs) (auto simp: ProcessCacheEntry_def PCE_next_def split: bind_splits)
  next
    case (Scheduling t)
    with assms(1) show ?thesis by (auto simp: ProcessCacheEntry_def)
  qed
  then show "dns_clock d' = dns_clock d" "requests d' = requests d" by simp_all
qed

lemma refinesI: "a = with_tasks (core s) q r \<Longrightarrow> bag_ok (workers s) (calls s) q r \<Longrightarrow> refines s a"
  unfolding refines_def by blast

text \<open>A step of the resolver itself: of the pool only, or a step of \<open>Dns\<close>.\<close>

lemma resolver_run_refines:
  assumes "resolver_run opt s s'" and ok: "resolver_ok s" and ref: "refines s a"
  shows "resolver_ok s' \<and>
    ((\<exists>p. tp_run (workers s) p \<and> s' = s\<lparr>workers := p\<rparr>) \<and> refines s' a \<or> (\<exists>a'. dns_own opt a a' \<and> refines s' a'))"
proof -
  from ref obtain q r where a: "a = with_tasks (core s) q r" and b: "bag_ok (workers s) (calls s) q r"
    unfolding refines_def by blast
  have p: "pool_ok (workers s) (calls s)" and cl: "clock (workers s) = dns_clock (core s)" using ok by (simp_all add: resolver_ok_def)
  from assms(1) show ?thesis
  proof cases
    case (schedule as t it bs)
    then have "actions a = as @ Schedule_entry t it # bs" by (simp add: a)
    have "dns_own opt a (with_tasks (core s') (q @ [(t, it)]) r)"
      by (rule back_subst [where P = "dns_own opt a", OF dns_own_schedule [OF \<open>actions a = _\<close>]]) (simp add: a schedule(1))
    moreover have "refines s' (with_tasks (core s') (q @ [(t, it)]) r)"
      by (rule refinesI [OF refl]) (simp add: schedule(1) bag_ok_Schedule [OF b])
    ultimately show ?thesis using pool_ok_Schedule [OF p] cl schedule(1) by (auto simp: resolver_ok_def Schedule_fields)
  next
    case (call as cb x bs)
    then have "actions a = as @ Call cb x # bs" by (simp add: a)
    have "dns_own opt a (with_tasks (core s') q r)"
      by (rule back_subst [where P = "dns_own opt a", OF dns_own_call [OF \<open>actions a = _\<close>]]) (simp add: a call(1))
    moreover have "refines s' (with_tasks (core s') q r)" by (rule refinesI [OF refl]) (simp add: call(1) b)
    ultimately show ?thesis using p cl call(1) by (auto simp: resolver_ok_def)
  next
    case (pool p')
    from tp_run_calls [OF pool(2) p] have e: "pool_ok p' (calls s)" "pool_effect (workers s) p' (calls s)" by simp_all
    have "refines s' a" by (rule refinesI [OF _ _]) (use a bag_ok_pool [OF b e(2)] pool(1) in simp_all)
    with pool e cl show ?thesis by (auto simp: resolver_ok_def pool_effect_def)
  next
    case (start as it bs cs ds)
    let ?pc = "Begin (clock (workers s))"
    from bag_ok_start [OF b start(2-4)] obtain qs t qs' where q: "q = qs @ (t, it) # qs'" "t \<le> clock (workers s)"
      "bag_ok (workers s) (cs @ Some ?pc # ds) (qs @ qs') (r @ [(it, ?pc)])" by blast
    have "dns_own opt a (with_tasks (core s') (qs @ qs') (r @ [(it, ?pc)]))"
      using dns_own_start [of a qs t it qs' opt] q(1,2) by (simp add: a start(1) cl)
    moreover have "refines s' (with_tasks (core s') (qs @ qs') (r @ [(it, ?pc)]))"
      by (rule refinesI [OF refl]) (simp add: start(1) q(3))
    ultimately show ?thesis using pool_ok_thread(1) [OF p start(2-4)] cl start(1) by (auto simp: resolver_ok_def)
  next
    case (go_on as it bs cs pc ds gai pc' d)
    from bag_ok_call [OF b go_on(2-4)] obtain rs rs' where r: "r = rs @ (it, pc) # rs'"
      "bag_ok (workers s) (cs @ Some pc' # ds) q (rs @ (it, pc') # rs')" by blast
    have "running a = rs @ (it, pc) # rs'" by (simp add: a r(1))
    from dns_own_task [OF this go_on(6), of opt "Some pc'"] ProcessCacheEntry_with_tasks [OF go_on(7,5), where q = q and r = r]
    have "dns_own opt a (with_tasks (core s') q (rs @ (it, pc') # rs'))" by (simp add: a go_on(1))
    moreover have "refines s' (with_tasks (core s') q (rs @ (it, pc') # rs'))" by (rule refinesI [OF refl]) (simp add: go_on(1) r(2))
    ultimately show ?thesis using pool_ok_thread(1) [OF p go_on(2-4)] cl go_on(1) ProcessCacheEntry_frame(1) [OF go_on(7,6)]
      by (auto simp: resolver_ok_def)
  next
    case (erased as it bs cs pc ds gai d)
    from bag_ok_call [OF b erased(2-4)] obtain rs rs' where r: "r = rs @ (it, pc) # rs'"
      "bag_ok ((workers s)\<lparr>threads := as @ Ready # bs\<rparr>) (cs @ None # ds) q (rs @ rs')" by blast
    have "running a = rs @ (it, pc) # rs'" by (simp add: a r(1))
    from dns_own_task [OF this erased(6), of opt None] ProcessCacheEntry_with_tasks [OF erased(7,5), where q = q and r = r]
    have "dns_own opt a (with_tasks (core s') q (rs @ rs'))" by (simp add: a erased(1))
    moreover have "refines s' (with_tasks (core s') q (rs @ rs'))" by (rule refinesI [OF refl]) (simp add: erased(1) r(2))
    ultimately show ?thesis using pool_ok_thread(2) [OF p erased(2-4)] cl erased(1) ProcessCacheEntry_frame(1) [OF erased(7,6)]
      by (auto simp: resolver_ok_def)
  next
    case (again as it bs cs t ds)
    from bag_ok_call [OF b again(2-4)] obtain rs rs' where r: "r = rs @ (it, Scheduling t) # rs'"
      "bag_ok ((workers s)\<lparr>threads := as @ Ready # bs\<rparr>) (cs @ None # ds) q (rs @ rs')" by blast
    have "running a = rs @ (it, Scheduling t) # rs'" by (simp add: a r(1))
    moreover have "ProcessCacheEntry opt (\<lambda>host port. Inl 1) it (Scheduling t) a = Some (None, a\<lparr>queued := q @ [(t, it)]\<rparr>)"
      by (simp add: ProcessCacheEntry_def a)
    ultimately have "dns_own opt a (with_tasks (core s') (q @ [(t, it)]) (rs @ rs'))"
      using dns_own_task [of a rs it "Scheduling t" rs' "\<lambda>host port. Inl 1" opt None] by (simp add: a again(1) gai_ok_def)
    moreover have sw: "(Schedule t (Some it) (workers s))\<lparr>threads := as @ Ready # bs\<rparr> =
        Schedule t (Some it) ((workers s)\<lparr>threads := as @ Ready # bs\<rparr>)"
      by (simp add: Schedule_def Schedule_locked_def Let_def)
    have "refines s' (with_tasks (core s') (q @ [(t, it)]) (rs @ rs'))"
      by (rule refinesI [OF refl]) (simp add: again(1) sw bag_ok_Schedule [OF r(2)])
    ultimately show ?thesis
      using pool_ok_Schedule [OF pool_ok_thread(2) [OF p again(2-4)]] cl again(1) sw by (auto simp: resolver_ok_def Schedule_fields)
  qed
qed

lemma resolver_env_refines:
  assumes "resolver_env opt s s'" and ok: "resolver_ok s" and ref: "refines s a"
  shows "resolver_ok s' \<and> (\<exists>a'. (a' = a \<or> dns_step opt a a') \<and> refines s' a')"
proof -
  from ref obtain q r where a: "a = with_tasks (core s) q r" and b: "bag_ok (workers s) (calls s) q r"
    unfolding refines_def by blast
  have p: "pool_ok (workers s) (calls s)" and cl: "clock (workers s) = dns_clock (core s)" using ok by (simp_all add: resolver_ok_def)
  from assms(1) show ?thesis
  proof cases
    case (resolve t hp d)
    from Resolve_with_tasks [OF resolve(3), where q = q and r = r] have "dns_step opt a (with_tasks d q r)"
      using resolve(2) cl by (intro dns_step.resolve [of t]) (simp_all add: a)
    moreover have "refines s' (with_tasks d q r)" by (rule refinesI [where q = q and r = r]) (simp_all add: resolve(1) b)
    moreover have "dns_clock d = dns_clock (core s)" using resolve(3)
      by (auto simp: Resolve_def Resolve_locked_def Let_def split: option.splits if_splits bind_splits)
    ultimately show ?thesis using p cl resolve(1) by (auto simp: resolver_ok_def)
  next
    case (spurious as pc bs c)
    let ?p = "(workers s)\<lparr>threads := as @ woken c # bs\<rparr>"
    have sm: "same_calls (threads (workers s)) (threads ?p)"
      using same_calls_one [OF waiting_off_call(1) [OF spurious(3)] waiting_off_call(2) [of c], of as bs] by (simp add: spurious(2))
    have "tp_inv ?p" using tp_env_inv [OF tp_env.spurious [OF spurious(2,3)] pool_okD(1) [OF p]] .
    then have "pool_ok ?p (calls s)" using p same_callsD(3) [OF sm pool_okD(3) [OF p]] by (simp add: pool_ok_def funcs_ok_def)
    moreover have "refines s' a"
      by (rule refinesI [where q = q and r = r]) (use a bag_ok_pool [OF b pool_effect_same [OF sm pool_okD(3) [OF p]]] spurious(1) in simp_all)
    ultimately show ?thesis using cl spurious(1) by (auto simp: resolver_ok_def)
  next
    case (tick t)
    have "tp_inv ((workers s)\<lparr>clock := t\<rparr>)" by (rule tp_env_inv [OF tp_env.tick [OF tick(2)] pool_okD(1) [OF p]])
    then have "pool_ok ((workers s)\<lparr>clock := t\<rparr>) (calls s)" using p by (simp add: pool_ok_def funcs_ok_def)
    moreover have "dns_step opt a (with_tasks (core s') q r)"
      by (rule back_subst [where P = "dns_step opt a", OF dns_step.tick [of a t]]) (use tick(2) cl in \<open>simp_all add: a tick(1)\<close>)
    moreover have "bag_ok ((workers s)\<lparr>clock := t\<rparr>) (calls s) q r"
      using b tick(2) unfolding bag_ok_def by (auto intro: order_trans)
    then have "refines s' (with_tasks (core s') q r)" by (intro refinesI [OF refl]) (simp add: tick(1))
    ultimately show ?thesis using tick(1) by (auto simp: resolver_ok_def)
  qed
qed

end
