(* ===== verification/Dns_Pool_Correct.thy ===== *)
theory Dns_Pool_Correct
  imports Dns_Pool Dns_Correct
begin

text \<open>
  What the resolver on its thread pool guarantees: it behaves like \<open>Dns\<close>, and as long as nobody calls it and
  no time passes it comes to rest, and then every callback has been called.
\<close>

section \<open>Reachable states\<close>

lemma resolver_ctor_ok: "resolver_ok (Resolver_ctor opt now)" "refines (Resolver_ctor opt now) (DnsResolver_ctor now)"
proof -
  have r: "running_calls (replicate n Ready) (replicate n None) = []" "taken_calls (replicate n Ready) (replicate n None) = []" for n
    by (induction n) (simp_all add: running_calls_def taken_calls_def)
  have "list_all2 call_ok (replicate n Ready) (replicate n None)" for n by (simp add: list_all2_conv_all_nth call_ok_def)
  then show "resolver_ok (Resolver_ctor opt now)" using ThreadPool_ctor_inv
    by (simp add: resolver_ok_def Resolver_ctor_def pool_ok_def ThreadPool_ctor_def funcs_ok_def DnsResolver_ctor_def)
  have "bag_ok (ThreadPool_ctor (num_dns_resolution_threads opt) now) (replicate (num_dns_resolution_threads opt) None) [] []"
    by (rule bag_okI [of _ _ _ _ "{#}"]) (simp_all add: r ThreadPool_ctor_def)
  then show "refines (Resolver_ctor opt now) (DnsResolver_ctor now)"
    by (intro refinesI [where q = "[]" and r = "[]"]) (simp_all add: Resolver_ctor_def DnsResolver_ctor_def)
qed

lemma resolver_step_refines:
  assumes "resolver_run opt s s' \<or> resolver_env opt s s'" and "resolver_ok s" and "refines s a"
  shows "resolver_ok s' \<and> (\<exists>a'. (a' = a \<or> dns_step opt a a') \<and> refines s' a')"
  using assms(1)
proof
  assume "resolver_run opt s s'"
  from resolver_run_refines [OF this assms(2,3)] show ?thesis unfolding dns_own_def by blast
qed (rule resolver_env_refines [OF _ assms(2,3)])

lemma resolver_step_calls: "resolver_run opt s s' \<or> resolver_env opt s s' \<Longrightarrow> length (calls s') = length (calls s)"
  by (auto elim!: resolver_run.cases resolver_env.cases)

lemma resolver_reach_refines:
  assumes "resolver_reach opt s"
  shows "resolver_ok s \<and> length (calls s) = num_dns_resolution_threads opt \<and> (\<exists>a. dns_reach opt a \<and> refines s a)"
proof -
  from assms obtain now where "(\<lambda>s s'. resolver_run opt s s' \<or> resolver_env opt s s')\<^sup>*\<^sup>* (Resolver_ctor opt now) s"
    by (auto simp: resolver_reach_def)
  then show ?thesis
  proof (induction rule: rtranclp_induct)
    case base
    have "length (calls (Resolver_ctor opt now)) = num_dns_resolution_threads opt" by (simp add: Resolver_ctor_def)
    with resolver_ctor_ok dns_reach_ctor show ?case by blast
  next
    case (step s s')
    then obtain a where a: "dns_reach opt a" "refines s a" and ok: "resolver_ok s" by blast
    from resolver_step_refines [OF step(2) ok a(2)] obtain a' where
      a': "resolver_ok s'" "a' = a \<or> dns_step opt a a'" "refines s' a'" by blast
    with a(1) dns_reach_step have "dns_reach opt a'" by blast
    moreover have "length (calls s') = length (calls s)" by (rule resolver_step_calls [OF step(2)])
    ultimately show ?case using a' step.IH by auto
  qed
qed

lemma resolver_reach_run:
  assumes "(resolver_run opt)\<^sup>*\<^sup>* s s'" and "resolver_reach opt s"
  shows "resolver_reach opt s'"
  using assms
proof (induction rule: rtranclp_induct)
  case (step s' s'')
  then show ?case unfolding resolver_reach_def by (blast intro: rtranclp.rtrancl_into_rtrancl)
qed simp

lemma resolver_reach_ctor: "resolver_reach opt (Resolver_ctor opt now)"
  unfolding resolver_reach_def by blast

lemma resolver_reach_env: "resolver_reach opt s \<Longrightarrow> resolver_env opt s s' \<Longrightarrow> resolver_reach opt s'"
  unfolding resolver_reach_def by (blast intro: rtranclp.rtrancl_into_rtrancl)

section \<open>Coming to rest\<close>

lemma resolver_run_requests:
  assumes "(resolver_run opt)\<^sup>*\<^sup>* s s'"
  shows "requests (core s') = requests (core s)"
  using assms
proof (induction rule: rtranclp_induct)
  case (step s' s'')
  from step(2) have "requests (core s'') = requests (core s')"
    by cases (simp_all add: ProcessCacheEntry_frame)
  with step.IH show ?case by simp
qed simp

lemma resolver_accp:
  assumes "periods_ok opt" and "resolver_ok s" and "refines s a" and "dns_reach opt a"
  shows "Wellfounded.accp (\<lambda>s' s. resolver_run opt s s') s"
proof -
  have "\<forall>s a. resolver_ok s \<and> refines s a \<and> dns_reach opt a \<and> (dns_weight opt a, tp_measure (workers s)) = z \<longrightarrow>
    Wellfounded.accp (\<lambda>s' s. resolver_run opt s s') s" for z
  proof (induction z rule: wf_induct_rule [OF wf_lex_prod [OF wf_less wf_less]])
    case (1 z)
    show ?case
    proof (intro allI impI, rule accp.accI)
      fix s a s'
      assume a: "resolver_ok s \<and> refines s a \<and> dns_reach opt a \<and> (dns_weight opt a, tp_measure (workers s)) = z"
        and run: "resolver_run opt s s'"
      have inv: "dinv a" "prompt a" using a dns_reach_inv dns_reach_prompt by blast+
      from resolver_run_refines [OF run] a consider
          p where "tp_run (workers s) p" "s' = s\<lparr>workers := p\<rparr>" "resolver_ok s'" "refines s' a"
        | a' where "dns_own opt a a'" "resolver_ok s'" "refines s' a'" by blast
      then show "Wellfounded.accp (\<lambda>s' s. resolver_run opt s s') s'"
      proof cases
        case (1 p)
        have "tp_measure (workers s') < tp_measure (workers s)" using tp_run_measure [OF 1(1)] 1(2) by simp
        then have "((dns_weight opt a, tp_measure (workers s')), z) \<in> {(x, y). x < y} <*lex*> {(x, y). x < y}" using a by auto
        from "1.IH" [OF this] 1(3,4) a show ?thesis by blast
      next
        case (2 a')
        have "dns_weight opt a' < dns_weight opt a" "dns_reach opt a'"
          using 2(1) inv assms(1) a dns_reach_step by (auto simp: dns_own_def)
        then have "((dns_weight opt a', tp_measure (workers s')), z) \<in> {(x, y). x < y} <*lex*> {(x, y). x < y}" using a by auto
        from "1.IH" [OF this] 2(2,3) \<open>dns_reach opt a'\<close> show ?thesis by blast
      qed
    qed
  qed
  with assms show ?thesis by blast
qed

lemma accp_no_infinite_run:
  assumes "Wellfounded.accp (\<lambda>y x. R x y) x"
  shows "\<nexists>f. f 0 = x \<and> (\<forall>i. R (f i) (f (Suc i)))"
  using assms
proof (induction rule: accp.induct)
  case (accI x)
  show ?case
  proof
    assume "\<exists>f. f 0 = x \<and> (\<forall>i. R (f i) (f (Suc i)))"
    then obtain f where f: "f 0 = x" "\<And>i. R (f i) (f (Suc i))" by blast
    then have "R x (f 1)" by (metis One_nat_def)
    moreover have "\<exists>g. g 0 = f 1 \<and> (\<forall>i. R (g i) (g (Suc i)))"
      using f(2) by (intro exI [of _ "\<lambda>i. f (Suc i)"]) simp
    ultimately show False using accI(2) by blast
  qed
qed

lemma accp_rest:
  assumes "Wellfounded.accp (\<lambda>y x. R x y) x"
  shows "\<exists>y. R\<^sup>*\<^sup>* x y \<and> (\<nexists>z. R y z)"
  using assms
proof (induction rule: accp.induct)
  case (accI x)
  show ?case
  proof (cases "\<exists>y. R x y")
    case True
    then obtain y where "R x y" by blast
    with accI(2) [OF this] show ?thesis by (meson converse_rtranclp_into_rtranclp)
  qed blast
qed

section \<open>At rest everything has been answered\<close>

lemma resolver_stuck:
  assumes reach: "resolver_reach opt s" and n: "0 < num_dns_resolution_threads opt" and stuck: "\<nexists>s'. resolver_run opt s s'"
    and ok: "resolver_ok s" and ref: "refines s a" and ra: "dns_reach opt a"
  shows "running a = [] \<and> actions a = [] \<and> (\<forall>(t, it) \<in> set (queued a). dns_clock a < t)"
proof -
  from ref obtain q r where a: "a = with_tasks (core s) q r" and b: "bag_ok (workers s) (calls s) q r"
    unfolding refines_def by blast
  have p: "pool_ok (workers s) (calls s)" and cl: "clock (workers s) = dns_clock (core s)" using ok by (simp_all add: resolver_ok_def)
  note d = pool_okD [OF p]
  have inv: "dinv a" by (rule dns_reach_inv [OF ra])
  have acts: "actions (core s) = []"
  proof (cases "actions (core s)")
    case (Cons act acts)
    with stuck resolver_run.schedule [of s "[]"] resolver_run.call [of s "[]"] show ?thesis by (cases act) auto
  qed
  have rest: "at_rest (workers s)"
    using stuck resolver_run.pool [of s] by (intro stuck_at_rest [OF d(1)]) blast
  have none: "Running it \<notin> set (threads (workers s))" for it
  proof
    assume "Running it \<in> set (threads (workers s))"
    then obtain as bs where ts: "threads (workers s) = as @ Running it # bs" by (meson split_list)
    from d(3) obtain cs c ds where cs: "calls s = cs @ c # ds" "length cs = length as"
      unfolding ts by (auto simp: list_all2_append1 list_all2_Cons1)
    show False
    proof (cases c)
      case None
      with stuck resolver_run.start [OF ts] cs show False by blast
    next
      case (Some pc)
      from bag_ok_call [OF b ts] cs Some obtain rs rs' where "r = rs @ (it, pc) # rs'" by metis
      then have run: "running a = rs @ (it, pc) # rs'" by (simp add: a)
      from running_entry [OF inv run] obtain k c' where e: "entries (core s) it = Some (k, c')" by (auto simp: a)
      show False
      proof (cases "\<exists>t. pc = Scheduling t")
        case True
        with stuck resolver_run.again [OF ts] cs Some show False by blast
      next
        case False
        from task_ok [OF inv run demo_gai_ok, of opt] obtain x a' where
          "ProcessCacheEntry opt demo_gai it pc a = Some (x, a')" by blast
        from ProcessCacheEntry_with_tasks [OF this, where q = "queued (core s)" and r = "running (core s)"] False
        have "ProcessCacheEntry opt demo_gai it pc (core s) = Some (x, with_tasks a' (queued (core s)) (running (core s)))"
          by (simp add: a)
        with False stuck resolver_run.go_on [OF ts] resolver_run.erased [OF ts] cs Some demo_gai_ok show False
          by (cases x) blast+
      qed
    qed
  qed
  have idle: "\<not> busy pc" if "pc \<in> set (threads (workers s))" for pc
    using that none d(3) by (auto simp: busy_def list_all2_conv_all_nth call_ok_def in_set_conv_nth split: pc.splits)
  have "length (calls s) = num_dns_resolution_threads opt" using resolver_reach_refines [OF reach] by blast
  then have "threads (workers s) \<noteq> []" using n d(4) by auto
  then have late: "works (workers s) = [] \<or> clock (workers s) < w_t (pq_top (works (workers s)))"
    using at_rest_due [OF d(1) rest] d(2) idle unfolding funcs_ok_def by (metis list.set_sel(1) not_le)
  have wk: "\<forall>w \<in> set (works (workers s)). clock (workers s) < w_t w"
  proof
    fix w assume w: "w \<in> set (works (workers s))"
    then have "works (workers s) \<noteq> []" by auto
    moreover have "pq_ok (works (workers s))" using d(1) by (simp add: tp_inv_def queue_ok_def)
    then have "work_key (pq_top (works (workers s))) \<le> work_key w" using pq.top_least [of "works (workers s)" w] w by simp
    ultimately show "clock (workers s) < w_t w" using late by (auto simp: work_key_def less_eq_prod_def)
  qed
  have "\<forall>pc \<in> set (threads (workers s)). off_call pc" using rest idle by (auto simp: at_rest_def)
  note c = off_calls [OF this, of "calls s"]
  from b obtain N where "mset r = {#}" "image_mset snd N = {#}" "mset q = image_mset due_call (mset (works (workers s))) + N"
    unfolding bag_ok_def c by auto
  then have "r = []" "mset q = mset (map due_call (works (workers s)))" by simp_all
  then have "set q = set (map due_call (works (workers s)))" by (intro mset_eq_setD)
  then have "\<forall>x \<in> set q. clock (workers s) < fst x" using wk by (simp add: due_call_def)
  with \<open>r = []\<close> acts cl show ?thesis by (simp add: a case_prod_beta)
qed

lemma resolver_comes_to_rest:
  assumes "resolver_reach opt s" and "periods_ok opt"
  shows "\<exists>s'. (resolver_run opt)\<^sup>*\<^sup>* s s' \<and> (\<nexists>s''. resolver_run opt s' s'')"
proof -
  from resolver_reach_refines [OF assms(1)] obtain a where "resolver_ok s" "refines s a" "dns_reach opt a" by blast
  from accp_rest [OF resolver_accp [OF assms(2) this]] show ?thesis .
qed

section \<open>A concrete run\<close>

text \<open>A first call of \<open>Resolve\<close>, with the eight threads of the default options.\<close>

definition demo_asked :: resolver where
  "demo_asked = (Resolver_ctor default_dns_options boot100)\<lparr>core := demo_resolving\<rparr>"

lemma demo_asked_reach: "resolver_reach default_dns_options demo_asked"
proof -
  let ?s = "Resolver_ctor default_dns_options boot100"
  have "resolver_env default_dns_options ?s (?s\<lparr>core := demo_resolving\<rparr>)"
    by (rule resolver_env.resolve [of boot100 _ _ "''h:1''"])
      (simp_all add: Resolver_ctor_def ThreadPool_ctor_def demo_resolving_run)
  from resolver_reach_env [OF resolver_reach_ctor this] show ?thesis by (simp add: demo_asked_def)
qed

section \<open>Properties\<close>

text \<open>
  C20: The thread pool is all the resolver needs it to be.  Every state of the resolver on its pool is related to a
  reachable state of \<open>Dns\<close> with the same cache, addresses, answers and pending actions, whose bag holds the calls that are in
  the queue of the pool or that a thread has taken and not begun, and whose running calls are those on the threads; and every step of
  the one, of any thread, is a step of the other or changes nothing there.
\<close>

theorem resolver_refines_dns:
  assumes "resolver_reach opt s"
  shows "(\<exists>a. dns_reach opt a \<and> refines s a) \<and>
    (\<forall>a s'. refines s a \<longrightarrow> resolver_run opt s s' \<or> resolver_env opt s s' \<longrightarrow>
       (\<exists>a'. (a' = a \<or> dns_step opt a a') \<and> refines s' a'))"
  using resolver_reach_refines [OF assms] resolver_step_refines by blast

theorem resolver_refines_dns_witness:
  "\<exists>a. dns_reach default_dns_options a \<and> refines demo_asked a"
  using resolver_refines_dns [OF demo_asked_reach] by blast

text \<open>
  C19: The resolver forgets no callback.  As long as nobody calls \<open>Resolve\<close> and no time passes, it cannot go on for ever, whatever
  the order in which its threads run and whatever \<open>getaddrinfo\<close> answers; and when no step is left, every callback
  passed to \<open>Resolve\<close> so far has been called exactly once.
\<close>

theorem resolver_settles:
  assumes "resolver_reach opt s" and "0 < num_dns_resolution_threads opt"
    and "0 < dns_cache_refresh_period opt" and "0 < dns_cache_refresh_duration opt"
  shows "(\<nexists>run. run 0 = s \<and> (\<forall>i. resolver_run opt (run i) (run (Suc i)))) \<and>
    (\<forall>s'. (resolver_run opt)\<^sup>*\<^sup>* s s' \<and> (\<nexists>s''. resolver_run opt s' s'') \<longrightarrow>
       n_cb (core s') = n_cb (core s) \<and> (\<forall>i < n_cb (core s). count (mset (map (fst \<circ> fst) (answers (core s')))) i = 1))"
proof -
  have "n_cb (core s') = n_cb (core s) \<and> mset (map (fst \<circ> fst) (answers (core s'))) = mset [0..<n_cb (core s)]"
    if run: "(resolver_run opt)\<^sup>*\<^sup>* s s'" and stuck: "\<nexists>s''. resolver_run opt s' s''" for s'
  proof -
    have reach: "resolver_reach opt s'" by (rule resolver_reach_run [OF run assms(1)])
    from resolver_reach_refines [OF this] obtain a where a: "resolver_ok s'" "dns_reach opt a" "refines s' a" by blast
    have inv: "dinv a" by (rule dns_reach_inv [OF a(2)])
    from resolver_stuck [OF reach assms(2) stuck a(1,3,2)] rest_uncalled [OF inv dns_reach_prompt [OF a(2)]]
    have "uncalled a = {#}" by blast
    with dinv_cbs [OF inv] have "mset (map (fst \<circ> fst) (answers a)) = mset [0..<n_cb a]" by simp
    with a(3) resolver_run_requests [OF run] show ?thesis by (auto simp: refines_def)
  qed
  moreover have "count (mset [0..<n_cb (core s)]) i = 1" if "i < n_cb (core s)" for i
    using that by (simp add: distinct_count_atmost_1)
  moreover have "periods_ok opt" using assms(3,4) by (simp add: periods_ok_def)
  then have "Wellfounded.accp (\<lambda>s' s. resolver_run opt s s') s"
    using resolver_reach_refines [OF assms(1)] by (blast intro: resolver_accp)
  note accp_no_infinite_run [OF this]
  ultimately show ?thesis by (simp del: mset_map)
qed

theorem resolver_settles_witness:
  "\<exists>s'. (resolver_run default_dns_options)\<^sup>*\<^sup>* demo_asked s' \<and> count (mset (map (fst \<circ> fst) (answers (core s')))) 0 = 1"
proof -
  have "periods_ok default_dns_options" by (simp add: periods_ok_def default_dns_options_def)
  from resolver_comes_to_rest [OF demo_asked_reach this] obtain s' where
    s': "(resolver_run default_dns_options)\<^sup>*\<^sup>* demo_asked s'" "\<nexists>s''. resolver_run default_dns_options s' s''" by blast
  have "n_cb (core demo_asked) = 1" by (simp add: demo_asked_def demo_resolving_def)
  with resolver_settles [OF demo_asked_reach, THEN conjunct2, rule_format, of s'] s' show ?thesis
    by (auto simp: default_dns_options_def)
qed

end
