(* ===== verification/Acceptor.thy ===== *)
theory Acceptor
  imports Demo_Kernel Addr
begin

text \<open>
  The acceptor: \<open>src/src/acceptor.h\<close> and \<open>src/src/acceptor.cc\<close>.  \<open>getaddrinfo\<close> is the
  parameter \<open>gai\<close> that gives an error or the addresses of the list.
\<close>

record acceptor_options =
  listen_addr :: string
  listen_port :: "16 word"
  accept_queue_size :: nat

definition default_acceptor_options :: acceptor_options where
  "default_acceptor_options = \<lparr>listen_addr = ''0.0.0.0'', listen_port = 8889, accept_queue_size = 64\<rparr>"

definition Acceptor_Resolve :: "(string \<Rightarrow> string \<Rightarrow> int + sockaddr list) \<Rightarrow> string \<Rightarrow> 16 word \<Rightarrow> sockaddr option" where
  "Acceptor_Resolve gai host port =
     (case gai (c_str host) (dec (unat port)) of
        Inl ret \<Rightarrow> None
      | Inr [] \<Rightarrow> None
      | Inr (res # rest) \<Rightarrow> do { CHECK (sa_family res = AF_INET); Some res })"

definition SetSockOpt :: "os \<Rightarrow> fd \<Rightarrow> sock_opt \<Rightarrow> 'a world_scheme \<Rightarrow> 'a world_scheme option" where
  "SetSockOpt os f opt s = do { let (r, s) = sys_setsockopt os f opt s; CHECK (r = 0); Some s }"

text \<open>The constructor; the result is \<open>fd_\<close>.\<close>

definition Acceptor_ctor ::
  "os \<Rightarrow> (string \<Rightarrow> string \<Rightarrow> int + sockaddr list) \<Rightarrow> acceptor_options \<Rightarrow> 'a world_scheme \<Rightarrow> (fd \<times> 'a world_scheme) option" where
  "Acceptor_ctor os gai opt s = do {
     addr \<leftarrow> Acceptor_Resolve gai (listen_addr opt) (listen_port opt);
     ip_port \<leftarrow> Cast_sockaddr addr;
     let (r, s) = sys_socket os s;
     f \<leftarrow> (case r of Inr f \<Rightarrow> Some f | Inl errno \<Rightarrow> None);
     s \<leftarrow> SetSockOpt os f SO_REUSEADDR s;
     let (r, s) = sys_bind os f addr s;
     CHECK (r = 0);
     let (r, s) = sys_listen os f (accept_queue_size opt) s;
     CHECK (r = 0);
     Some (f, s)
   }"

definition Acceptor_dtor :: "os \<Rightarrow> fd \<Rightarrow> 'a world_scheme \<Rightarrow> 'a world_scheme option" where
  "Acceptor_dtor os f s = do { let (r, s) = sys_close os f s; CHECK (r = 0); Some s }"

text \<open>The loop of \<open>Accept\<close>: the accepted socket, or \<open>None\<close> when it aborts or never returns.\<close>

partial_function (option) Accept :: "os \<Rightarrow> fd \<Rightarrow> 'a world_scheme \<Rightarrow> (fd \<times> 'a world_scheme) option" where
  "Accept os f s = do {
     let (r, s) = sys_accept4 os f s;
     (case r of
        Inr (conn, addrlen, family) \<Rightarrow> do {
          CHECK (addrlen = 16);
          CHECK (family = AF_INET);
          s \<leftarrow> SetSockOpt os conn TCP_NODELAY s;
          Some (conn, s)
        }
      | Inl errno \<Rightarrow> do {
          CHECK (errno = EMFILE \<or> errno = ENFILE \<or> errno = ENOBUFS \<or> errno = ENOMEM);
          Accept os f s
        })
   }"

section \<open>When Accept returns\<close>

text \<open>
  \<open>accept_run os f h es conn\<close>: after history \<open>h\<close> the calls \<open>es\<close>, newest first, accept \<open>conn\<close>: any number of
  failures for want of resources, then a connection.
\<close>

inductive accept_run :: "os \<Rightarrow> fd \<Rightarrow> history \<Rightarrow> event list \<Rightarrow> fd \<Rightarrow> bool" for os :: os and f :: fd where
  accepted: "os_accept4 os h f = Inr (conn, 16, AF_INET) \<Longrightarrow>
    os_setsockopt os (Accept4 f (Inr (conn, 16, AF_INET)) # h) conn TCP_NODELAY = 0 \<Longrightarrow>
    accept_run os f h [Setsockopt conn TCP_NODELAY 0, Accept4 f (Inr (conn, 16, AF_INET))] conn"
| retry: "os_accept4 os h f = Inl e \<Longrightarrow> out_of_resources e \<Longrightarrow> accept_run os f (Accept4 f (Inl e) # h) es conn \<Longrightarrow>
    accept_run os f h (es @ [Accept4 f (Inl e)]) conn"

lemma Accept_complete:
  assumes "accept_run os f h es conn" and "hist s = h"
  shows "Accept os f s = Some (conn, s\<lparr>hist := es @ h\<rparr>)"
  using assms
proof (induction arbitrary: s rule: accept_run.induct)
  case (accepted h conn)
  then show ?case
    by (simp add: Accept.simps [of os f s] SetSockOpt_def sys_accept4_def sys_setsockopt_def Let_def log_event_def)
next
  case (retry h e es conn)
  from retry.IH [of "log_event (Accept4 f (Inl e)) s"] retry.hyps retry.prems show ?case
    by (simp add: Accept.simps [of os f s] sys_accept4_def Let_def log_event_def out_of_resources_def)
qed

lemma Accept_sound:
  assumes "Accept os f s = Some r"
  shows "\<exists>es. accept_run os f (hist s) es (fst r) \<and> snd r = s\<lparr>hist := es @ hist s\<rparr>"
  using assms
proof (induction rule: Accept.raw_induct [rotated 1, consumes 1, case_names step])
  case (step go os f s r)
  show ?case
  proof (cases "os_accept4 os (hist s) f")
    case (Inl e)
    let ?s = "log_event (Accept4 f (Inl e)) s"
    have go: "go os f ?s = Some r" and e: "out_of_resources e"
      using step.hyps Inl by (auto simp: sys_accept4_def Let_def out_of_resources_def split: if_splits)
    from step.IH [OF go] obtain es where "accept_run os f (hist ?s) es (fst r)" "snd r = ?s\<lparr>hist := es @ hist ?s\<rparr>" by blast
    with accept_run.retry [OF Inl e, of es "fst r"] show ?thesis by (auto simp: log_event_def)
  next
    case (Inr x)
    obtain conn n fam where x: "x = (conn, n, fam)" by (cases x)
    have n: "n = 16" "fam = AF_INET" and so: "os_setsockopt os (Accept4 f (Inr (conn, 16, AF_INET)) # hist s) conn TCP_NODELAY = 0"
      and r: "r = (conn, s\<lparr>hist := [Setsockopt conn TCP_NODELAY 0, Accept4 f (Inr (conn, 16, AF_INET))] @ hist s\<rparr>)"
      using step.hyps Inr x
      by (auto simp: sys_accept4_def SetSockOpt_def sys_setsockopt_def Let_def log_event_def split: if_splits)
    from accept_run.accepted [of os "hist s" f conn] Inr x n so have
      "accept_run os f (hist s) [Setsockopt conn TCP_NODELAY 0, Accept4 f (Inr (conn, 16, AF_INET))] conn" by simp
    with r show ?thesis by auto
  qed
qed

text \<open>The same without induction.\<close>

definition accepts :: "os \<Rightarrow> fd \<Rightarrow> history \<Rightarrow> errno list \<Rightarrow> fd \<Rightarrow> bool" where
  "accepts os f h errs conn \<longleftrightarrow>
     (let fails = map (\<lambda>e. Accept4 f (Inl e)) errs in
        (\<forall>i < length errs. out_of_resources (errs ! i) \<and> os_accept4 os (drop (Suc i) fails @ h) f = Inl (errs ! i)) \<and>
        os_accept4 os (fails @ h) f = Inr (conn, 16, AF_INET) \<and>
        os_setsockopt os (Accept4 f (Inr (conn, 16, AF_INET)) # fails @ h) conn TCP_NODELAY = 0)"

lemma accepts_snoc:
  "accepts os f h (errs @ [e]) conn \<longleftrightarrow> os_accept4 os h f = Inl e \<and> out_of_resources e \<and> accepts os f (Accept4 f (Inl e) # h) errs conn"
proof -
  have "(\<forall>i < Suc (length errs). out_of_resources ((errs @ [e]) ! i) \<and>
      os_accept4 os (drop (Suc i) (map (\<lambda>e. Accept4 f (Inl e)) (errs @ [e])) @ h) f = Inl ((errs @ [e]) ! i)) \<longleftrightarrow>
    out_of_resources e \<and> os_accept4 os h f = Inl e \<and>
    (\<forall>i < length errs. out_of_resources (errs ! i) \<and>
      os_accept4 os (drop (Suc i) (map (\<lambda>e. Accept4 f (Inl e)) errs) @ Accept4 f (Inl e) # h) f = Inl (errs ! i))"
    by (auto simp: All_less_Suc nth_append)
  then show ?thesis by (auto simp: accepts_def Let_def)
qed

lemma accept_run_iff:
  "accept_run os f h es conn \<longleftrightarrow> (\<exists>errs. accepts os f h errs conn \<and>
     es = Setsockopt conn TCP_NODELAY 0 # Accept4 f (Inr (conn, 16, AF_INET)) # map (\<lambda>e. Accept4 f (Inl e)) errs)"
proof
  assume "accept_run os f h es conn"
  then show "\<exists>errs. accepts os f h errs conn \<and>
     es = Setsockopt conn TCP_NODELAY 0 # Accept4 f (Inr (conn, 16, AF_INET)) # map (\<lambda>e. Accept4 f (Inl e)) errs"
  proof induction
    case (accepted h conn)
    then show ?case by (intro exI [of _ "[]"]) (simp add: accepts_def)
  next
    case (retry h e es conn)
    then obtain errs where "accepts os f (Accept4 f (Inl e) # h) errs conn"
      "es = Setsockopt conn TCP_NODELAY 0 # Accept4 f (Inr (conn, 16, AF_INET)) # map (\<lambda>e. Accept4 f (Inl e)) errs" by blast
    with retry.hyps(1,2) show ?case by (intro exI [of _ "errs @ [e]"]) (simp add: accepts_snoc)
  qed
next
  assume "\<exists>errs. accepts os f h errs conn \<and>
     es = Setsockopt conn TCP_NODELAY 0 # Accept4 f (Inr (conn, 16, AF_INET)) # map (\<lambda>e. Accept4 f (Inl e)) errs"
  then obtain errs where "accepts os f h errs conn"
    and es: "es = Setsockopt conn TCP_NODELAY 0 # Accept4 f (Inr (conn, 16, AF_INET)) # map (\<lambda>e. Accept4 f (Inl e)) errs" by blast
  then show "accept_run os f h es conn"
  proof (induction errs arbitrary: h es rule: rev_induct)
    case Nil
    then show ?case by (simp add: accepts_def accept_run.accepted)
  next
    case (snoc e errs)
    from snoc.prems(1) have "os_accept4 os h f = Inl e" "out_of_resources e" "accepts os f (Accept4 f (Inl e) # h) errs conn"
      by (simp_all add: accepts_snoc)
    from accept_run.retry [OF this(1,2) snoc.IH [OF this(3) refl]] snoc.prems(2) show ?case by simp
  qed
qed

section \<open>Properties\<close>

text \<open>
  C32: \<open>Accept\<close> returns a connection exactly when the calls of \<open>accept4\<close>, after any number of failures for want
  of descriptors or memory (\<open>errs\<close>, newest first), give this connection, with a peer address of length 16 and family \<open>AF_INET\<close>, and
  \<open>TCP_NODELAY\<close> can be set on it.  These are then all calls it has made.  In every other case it does not return: another
  error, another kind of address or a failure to set the option abort the process, and without an
  end to the failures it tries for ever.
\<close>

theorem Accept_returns_iff:
  "Accept os f s = Some (conn, s') \<longleftrightarrow>
    (\<exists>errs. let fails = map (\<lambda>e. Accept4 f (Inl e)) errs; got = Accept4 f (Inr (conn, 16, AF_INET)) # fails @ hist s in
       (\<forall>i < length errs. out_of_resources (errs ! i) \<and> os_accept4 os (drop (Suc i) fails @ hist s) f = Inl (errs ! i)) \<and>
       os_accept4 os (fails @ hist s) f = Inr (conn, 16, AF_INET) \<and> os_setsockopt os got conn TCP_NODELAY = 0 \<and>
       s' = s\<lparr>hist := Setsockopt conn TCP_NODELAY 0 # got\<rparr>)"
proof -
  have "Accept os f s = Some (conn, s') \<longleftrightarrow> (\<exists>es. accept_run os f (hist s) es conn \<and> s' = s\<lparr>hist := es @ hist s\<rparr>)"
    using Accept_sound [of os f s "(conn, s')"] Accept_complete [of os f "hist s" _ conn s] by auto
  also have "\<dots> \<longleftrightarrow> (\<exists>errs. accepts os f (hist s) errs conn \<and> s' = s\<lparr>hist :=
      (Setsockopt conn TCP_NODELAY 0 # Accept4 f (Inr (conn, 16, AF_INET)) # map (\<lambda>e. Accept4 f (Inl e)) errs) @ hist s\<rparr>)"
    unfolding accept_run_iff by blast
  finally show ?thesis by (simp add: accepts_def Let_def)
qed

definition retry_os :: os where
  "retry_os = demo_os\<lparr>os_accept4 := (\<lambda>h f. if h = [] then Inl EMFILE else Inr (5, 16, AF_INET))\<rparr>"

theorem Accept_returns_iff_witness:
  "Accept retry_os 3 \<lparr>hist = []\<rparr> = Some (5, \<lparr>hist = [Setsockopt 5 TCP_NODELAY 0, Accept4 3 (Inr (5, 16, AF_INET)), Accept4 3 (Inl EMFILE)]\<rparr>)"
  unfolding Accept_returns_iff
  by (intro exI [of _ "[EMFILE]"]) (simp add: retry_os_def demo_os_def out_of_resources_def Let_def)

definition aborted_os :: os where
  "aborted_os = demo_os\<lparr>os_accept4 := (\<lambda>h f. Inl 103)\<rparr>"

text \<open>
  Any other failure of \<open>accept4\<close> aborts the process, for instance \<open>ECONNABORTED\<close> (103), which
  the kernel reports when a client has already closed a connection that waits to be accepted.
\<close>

theorem Accept_aborts_on_other_errors:
  assumes "os_accept4 os (hist s) f = Inl e" and "\<not> out_of_resources e"
  shows "Accept os f s = None"
  using assms by (simp add: Accept.simps [of os f s] sys_accept4_def Let_def out_of_resources_def)

theorem Accept_aborts_on_other_errors_witness:
  "Accept aborted_os 3 \<lparr>hist = []\<rparr> = None"
  by (rule Accept_aborts_on_other_errors [of _ _ _ 103]) (simp_all add: aborted_os_def out_of_resources_def)

end
