(* ===== verification/Logging.thy ===== *)
theory Logging
  imports Addr
begin

text \<open>
  Logging: \<open>src/src/logging.h\<close> and \<open>src/src/logging.cc\<close>.  What a log statement inserts is a list of
  \<open>item\<close>s: text, the description of a given error number, or \<open>Errno()\<close>, which stands for the error number at
  the time the statement was entered.  Functions of the C library that the statement calls may change
  \<open>errno\<close>; \<open>libc\<close> says how, and what they give.  \<open>LOG(FATAL)\<close> aborts, so its result is \<open>None\<close>.
\<close>

section \<open>Severities\<close>

datatype severity = INFO | WARN | ERROR | FATAL

primrec severity_value :: "severity \<Rightarrow> nat" where
  "severity_value INFO = 0"
| "severity_value WARN = 1"
| "severity_value ERROR = 2"
| "severity_value FATAL = 3"

lemma severity_value_inject: "severity_value a = severity_value b \<longleftrightarrow> a = b"
  by (cases a; cases b) simp_all

instantiation severity :: linorder
begin

definition less_eq_severity :: "severity \<Rightarrow> severity \<Rightarrow> bool" where
  "less_eq_severity a b \<longleftrightarrow> severity_value a \<le> severity_value b"

definition less_severity :: "severity \<Rightarrow> severity \<Rightarrow> bool" where
  "less_severity a b \<longleftrightarrow> severity_value a < severity_value b"

instance
  by standard (auto simp: less_eq_severity_def less_severity_def severity_value_inject)

end

primrec Str :: "severity \<Rightarrow> string" where
  "Str INFO = ''INFO''"
| "Str WARN = ''WARN''"
| "Str ERROR = ''ERROR''"
| "Str FATAL = ''FATAL''"

section \<open>Log statements\<close>

datatype item = Text string | Errno int | StashedErrno

text \<open>
  \<open>strerror_r\<close>; the local time printed by \<open>strftime\<close>, \<open>None\<close> when it does not fit; and the value
  of \<open>errno\<close> after the calls made while inserting an item and while flushing.
\<close>

record libc =
  strerror :: "int \<Rightarrow> string"
  local_time :: "string option"
  errno_after_item :: "item \<Rightarrow> int \<Rightarrow> int"
  errno_after_flush :: "int \<Rightarrow> int"

record log_stream =
  ls_errno :: int
  ls_file :: string
  ls_line :: nat
  ls_severity :: severity
  ls_strm :: string

text \<open>The process: \<open>errno\<close> and what has been written to \<open>stderr\<close>.\<close>

record process =
  errno :: int
  stderr :: string

definition LogStreamBase :: "string \<Rightarrow> nat \<Rightarrow> severity \<Rightarrow> process \<Rightarrow> log_stream" where
  "LogStreamBase file line sev p =
     \<lparr>ls_errno = errno p, ls_file = file, ls_line = line, ls_severity = sev, ls_strm = []\<rparr>"

definition item_text :: "libc \<Rightarrow> log_stream \<Rightarrow> item \<Rightarrow> string" where
  "item_text lc l x = (case x of Text s \<Rightarrow> s | Errno e \<Rightarrow> strerror lc e | StashedErrno \<Rightarrow> strerror lc (ls_errno l))"

definition insert_item :: "libc \<Rightarrow> item \<Rightarrow> log_stream \<times> process \<Rightarrow> log_stream \<times> process" where
  "insert_item lc x = (\<lambda>(l, p). (l\<lparr>ls_strm := ls_strm l @ item_text lc l x\<rparr>,
     p\<lparr>errno := errno_after_item lc x (errno p)\<rparr>))"

text \<open>\<open>"[%s %s %s:%d] %s\n"\<close>; the message ends at its first zero byte.\<close>

definition log_line :: "string \<Rightarrow> severity \<Rightarrow> string \<Rightarrow> nat \<Rightarrow> string \<Rightarrow> string" where
  "log_line time sev file line msg =
     ''['' @ time @ '' '' @ Str sev @ '' '' @ file @ '':'' @ dec line @ ''] '' @ c_str msg @ [CHR 0x0A]"

definition Flush :: "libc \<Rightarrow> log_stream \<Rightarrow> process \<Rightarrow> process" where
  "Flush lc l p =
     (let time_str = (case local_time lc of Some t \<Rightarrow> t | None \<Rightarrow> ''undef'');
          p = p\<lparr>errno := errno_after_flush lc (errno p),
                stderr := stderr p @ log_line time_str (ls_severity l) (ls_file l) (ls_line l) (ls_strm l)\<rparr>
      in p\<lparr>errno := ls_errno l\<rparr>)"

text \<open>The destructor of \<open>LogStream\<close>.\<close>

definition LogStream_dtor :: "libc \<Rightarrow> log_stream \<Rightarrow> process \<Rightarrow> process option" where
  "LogStream_dtor lc l p = do {
     let p = Flush lc l p;
     CHECK (ls_severity l \<noteq> FATAL);
     Some p
   }"

text \<open>The default of the build parameter that is the argument \<open>min_lvl\<close> of \<open>LOG\<close>.\<close>

definition HCP_MIN_LOG_LVL :: severity where
  "HCP_MIN_LOG_LVL = INFO"

text \<open>\<open>LOG(sev) << x1 << ... << xn\<close>.\<close>

definition LOG :: "severity \<Rightarrow> libc \<Rightarrow> string \<Rightarrow> nat \<Rightarrow> severity \<Rightarrow> item list \<Rightarrow> process \<Rightarrow> process option" where
  "LOG min_lvl lc file line sev xs p =
     (if sev < min_lvl then Some p
      else (case fold (insert_item lc) xs (LogStreamBase file line sev p, p) of (l, p) \<Rightarrow> LogStream_dtor lc l p))"

section \<open>Properties\<close>

lemma fold_insert_item:
  "\<exists>e. fold (insert_item lc) xs (l, p) =
     (l\<lparr>ls_strm := ls_strm l @ concat (map (item_text lc l) xs)\<rparr>, p\<lparr>errno := e\<rparr>)"
proof (induction xs arbitrary: l p)
  case (Cons x xs)
  let ?l = "l\<lparr>ls_strm := ls_strm l @ item_text lc l x\<rparr>"
  have same: "item_text lc ?l = item_text lc l" by (simp add: item_text_def fun_eq_iff split: item.splits)
  obtain l' p' where s: "insert_item lc x (l, p) = (?l, p')" "p' = p\<lparr>errno := errno_after_item lc x (errno p)\<rparr>"
    by (simp add: insert_item_def)
  from Cons.IH [of ?l p'] obtain e where
    "fold (insert_item lc) xs (?l, p') = (?l\<lparr>ls_strm := ls_strm ?l @ concat (map (item_text lc ?l) xs)\<rparr>, p'\<lparr>errno := e\<rparr>)"
    by blast
  with s same show ?case by auto
next
  case Nil
  show ?case by (rule exI [of _ "errno p"]) simp
qed

text \<open>
  C33: Logging does not disturb the code around it.  A log statement below the minimum severity does nothing; any other
  one writes exactly one line, in which \<open>Errno()\<close> is the error number from before the statement whatever
  the inserted items do to \<open>errno\<close>, and leaves \<open>errno\<close> as it was; \<open>LOG(FATAL)\<close> does not return.
\<close>

theorem LOG_preserves_errno:
  "LOG min_lvl lc file line sev xs p =
     (if sev < min_lvl then Some p
      else if sev = FATAL then None
      else Some (p\<lparr>stderr := stderr p @ log_line (case local_time lc of Some t \<Rightarrow> t | None \<Rightarrow> ''undef'') sev file line
        (concat (map (\<lambda>x. case x of Text s \<Rightarrow> s | Errno e \<Rightarrow> strerror lc e | StashedErrno \<Rightarrow> strerror lc (errno p)) xs))\<rparr>))"
proof -
  let ?l = "LogStreamBase file line sev p"
  from fold_insert_item [of lc xs ?l p] obtain e where
    f: "fold (insert_item lc) xs (?l, p) = (?l\<lparr>ls_strm := ls_strm ?l @ concat (map (item_text lc ?l) xs)\<rparr>, p\<lparr>errno := e\<rparr>)"
    by blast
  have t: "item_text lc ?l = (\<lambda>x. case x of Text s \<Rightarrow> s | Errno e \<Rightarrow> strerror lc e | StashedErrno \<Rightarrow> strerror lc (errno p))"
    by (simp add: item_text_def LogStreamBase_def fun_eq_iff split: item.splits)
  show ?thesis
    unfolding LOG_def f by (simp add: LogStream_dtor_def Flush_def Let_def t) (simp add: LogStreamBase_def)
qed

end
