(* ===== verification/Proxy.thy ===== *)
theory Proxy
  imports Forwarder_Correct Parser_Correct Connector_Correct Dns_Correct Acceptor
begin

text \<open>
  The proxy itself: \<open>src/src/hcproxy.cc\<close>.  The acceptor, the parser, the resolver, the connector and the
  forwarder are joined by the callbacks of \<open>RunProxy\<close>.

  The parts run on threads of their own, so the state of the proxy has theirs side by side, each with the system
  calls of its own thread; \<open>ws\<close> has the calls of \<open>hcproxy.cc\<close> and the acceptor.  A connection is named by the address of its
  parse handler; the maps \<open>client_fd\<close>, \<open>dns_conn\<close> and \<open>conn_conn\<close> say what the callbacks
  have captured: the client's socket, and the connection to which the callback of a
  call of \<open>Resolve\<close> or of a connect handler belongs.  A callback some part has called is in
  \<open>todo\<close> until it runs: it runs on the thread of its caller, but uses other parts only.
\<close>

section \<open>Options and ports\<close>

record options =
  acceptor_opt :: acceptor_options
  parser_opt :: parser_options
  dns_opt :: dns_options
  conn_opt :: conn_options
  fwd_opt :: fwd_options
  allowed_ports :: "string set"
  max_num_open_files :: nat

definition default_options :: options where
  "default_options = \<lparr>acceptor_opt = default_acceptor_options, parser_opt = default_parser_options,
     dns_opt = default_dns_options, conn_opt = default_conn_options, fwd_opt = default_fwd_options,
     allowed_ports = {}, max_num_open_files = 0\<rparr>"

definition sv_find :: "string \<Rightarrow> char \<Rightarrow> nat option" where
  "sv_find s c = find_first_of s [c] 0"

definition IsAllowedPort :: "options \<Rightarrow> string \<Rightarrow> bool" where
  "IsAllowedPort opt host_port =
     (case sv_find host_port (CHR '':'') of
        None \<Rightarrow> False
      | Some sep \<Rightarrow> let port = drop (sep + 1) host_port in allowed_ports opt = {} \<or> port \<in> allowed_ports opt)"

section \<open>The state\<close>

text \<open>A called callback, with the connection it belongs to and its argument; \<open>On_resolved\<close> also has the host and
  port that were looked up.\<close>

datatype call = On_parsed addr string | On_resolved addr string ptr | On_connected addr int

primrec call_conn :: "call \<Rightarrow> addr" where
  "call_conn (On_parsed a hp) = a"
| "call_conn (On_resolved a hp p) = a"
| "call_conn (On_connected a r) = a"

text \<open>\<open>ended\<close> has the connections that are closed or, with the server's socket, handed to the forwarder.\<close>

record proxy =
  ps :: parser
  ds :: dns
  cs :: connector
  fs :: fwd
  ws :: world
  listen_fd :: fd
  client_fd :: "addr \<rightharpoonup> fd"
  dns_conn :: "nat \<rightharpoonup> addr"
  conn_conn :: "addr \<rightharpoonup> addr"
  todo :: "call list"
  ended :: "(addr \<times> fd option) list"

text \<open>What the kernel answers to the threads.\<close>

record kernel =
  main_os :: os
  parser_os :: os
  conn_os :: os
  fwd_os :: os

section \<open>Callbacks that have been called\<close>

text \<open>Event lists and \<open>answers\<close> have the newest first, \<open>todo\<close> has it last.\<close>

definition new_since :: "'a list \<Rightarrow> 'a list \<Rightarrow> 'a list" where
  "new_since old new = take (length new - length old) new"

primrec parsed_calls :: "event list \<Rightarrow> call list" where
  "parsed_calls [] = []"
| "parsed_calls (e # es) = parsed_calls es @ (case e of Parser_callback a hp \<Rightarrow> [On_parsed a hp] | _ \<Rightarrow> [])"

primrec connected_calls :: "(ptr \<rightharpoonup> addr) \<Rightarrow> event list \<Rightarrow> call list" where
  "connected_calls m [] = []"
| "connected_calls m (e # es) = connected_calls m es @
     (case e of Connector_callback p r \<Rightarrow> (case m p of Some a \<Rightarrow> [On_connected a r] | None \<Rightarrow> []) | _ \<Rightarrow> [])"

primrec resolved_calls :: "(nat \<rightharpoonup> addr) \<Rightarrow> (dns_cb \<times> ptr) list \<Rightarrow> call list" where
  "resolved_calls m [] = []"
| "resolved_calls m (x # xs) = resolved_calls m xs @
     (case x of ((i, hp), p) \<Rightarrow> (case m i of Some a \<Rightarrow> [On_resolved a hp p] | None \<Rightarrow> []))"

section \<open>RunProxy\<close>

definition set_rlimit :: "os \<Rightarrow> options \<Rightarrow> world \<Rightarrow> world option" where
  "set_rlimit os opt w =
     (if max_num_open_files opt > 0 then do {
        let (r, w) = sys_getrlimit os w;
        (rlim_cur, rlim_max) \<leftarrow> (case r of Inr lim \<Rightarrow> Some lim | Inl errno \<Rightarrow> None);
        let (r, w) = sys_setrlimit os (max_num_open_files opt, rlim_max) w;
        CHECK (r = 0);
        Some w
      }
      else Some w)"

text \<open>Up to the loop, at time \<open>now\<close>.\<close>

definition RunProxy_start ::
  "kernel \<Rightarrow> (string \<Rightarrow> string \<Rightarrow> int + sockaddr list) \<Rightarrow> time \<Rightarrow> options \<Rightarrow> proxy option" where
  "RunProxy_start k gai now opt = do {
     let w = log_event Ignore_sigpipe \<lparr>hist = []\<rparr>;
     w \<leftarrow> set_rlimit (main_os k) opt w;
     (l, w) \<leftarrow> Acceptor_ctor (main_os k) gai (acceptor_opt opt) w;
     p \<leftarrow> Parser_ctor (parser_os k) (parser_opt opt) blank_parser;
     let d = DnsResolver_ctor now;
     c \<leftarrow> Connector_ctor (conn_os k) (conn_opt opt) blank_connector;
     f \<leftarrow> Forwarder_ctor (fwd_os k) (fwd_opt opt) blank_fwd;
     Some \<lparr>ps = p, ds = d, cs = c, fs = f, ws = w, listen_fd = l, client_fd = Map.empty, dns_conn = Map.empty,
       conn_conn = Map.empty, todo = [], ended = []\<rparr>
   }"

text \<open>The body of the loop, on thread \<open>tid\<close>.\<close>

definition RunProxy_body :: "kernel \<Rightarrow> options \<Rightarrow> nat \<Rightarrow> proxy \<Rightarrow> proxy option" where
  "RunProxy_body k opt tid s = do {
     (f, w) \<leftarrow> Accept (main_os k) (listen_fd s) (ws s);
     p \<leftarrow> ParseRequest (parser_os k) (parser_opt opt) f ((ps s)\<lparr>cur_tid := tid\<rparr>);
     Some (s\<lparr>ws := w, ps := p\<lparr>cur_tid := cur_tid (ps s)\<rparr>, client_fd := (client_fd s)(brk (ps s) \<mapsto> f)\<rparr>)
   }"

text \<open>\<open>CHECK(close(client_fd) == 0)\<close>.\<close>

definition close_client :: "kernel \<Rightarrow> addr \<Rightarrow> proxy \<Rightarrow> proxy option" where
  "close_client k a s = do {
     f \<leftarrow> client_fd s a;
     let (r, w) = sys_close (main_os k) f (ws s);
     CHECK (r = 0);
     Some (s\<lparr>ws := w, ended := (a, None) # ended s\<rparr>)
   }"

text \<open>The callback of \<open>ParseRequest\<close>; \<open>t\<close> is the time \<open>Resolve\<close> reads.\<close>

definition on_parsed :: "kernel \<Rightarrow> options \<Rightarrow> time \<Rightarrow> addr \<Rightarrow> string \<Rightarrow> proxy \<Rightarrow> proxy option" where
  "on_parsed k opt t a host_port s =
     (if host_port = [] \<or> \<not> IsAllowedPort opt host_port then close_client k a s
      else do {
        d \<leftarrow> Resolve (dns_opt opt) t host_port (ds s);
        Some (s\<lparr>ds := d, dns_conn := (dns_conn s)(n_cb (ds s) \<mapsto> a)\<rparr>)
      })"

text \<open>The callback of \<open>Resolve\<close>.  \<open>Connect\<close> may call its callback at once.\<close>

definition on_resolved :: "kernel \<Rightarrow> nat \<Rightarrow> addr \<Rightarrow> ptr \<Rightarrow> proxy \<Rightarrow> proxy option" where
  "on_resolved k tid a addr s =
     (case addr of
        None \<Rightarrow> close_client k a s
      | Some x \<Rightarrow> do {
          n \<leftarrow> ais (ds s) x;
          ip_port \<leftarrow> Cast_addrinfo n;
          c \<leftarrow> Connector_Connect (conn_os k) n ((cs s)\<lparr>cur_tid := tid\<rparr>);
          Some (s\<lparr>cs := c\<lparr>cur_tid := cur_tid (cs s)\<rparr>,
            conn_conn := (if brk c = brk (cs s) then conn_conn s else (conn_conn s)(brk (cs s) \<mapsto> a)),
            todo := todo s @ connected_calls [None \<mapsto> a] (new_since (hist (cs s)) (hist c))\<rparr>)
        })"

text \<open>The callback of \<open>Connect\<close>.\<close>

definition on_connected :: "kernel \<Rightarrow> options \<Rightarrow> nat \<Rightarrow> addr \<Rightarrow> int \<Rightarrow> proxy \<Rightarrow> proxy option" where
  "on_connected k opt tid a server_fd s =
     (if server_fd < 0 then close_client k a s
      else do {
        c \<leftarrow> client_fd s a;
        f \<leftarrow> Forwarder_Forward (fwd_os k) (fwd_opt opt) c server_fd ((fs s)\<lparr>cur_tid := tid\<rparr>);
        Some (s\<lparr>fs := f\<lparr>cur_tid := cur_tid (fs s)\<rparr>, ended := (a, Some server_fd) # ended s\<rparr>)
      })"

primrec run_call :: "kernel \<Rightarrow> options \<Rightarrow> time \<Rightarrow> nat \<Rightarrow> call \<Rightarrow> proxy \<Rightarrow> proxy option" where
  "run_call k opt t tid (On_parsed a host_port) s = on_parsed k opt t a host_port s"
| "run_call k opt t tid (On_resolved a host_port addr) s = on_resolved k tid a addr s"
| "run_call k opt t tid (On_connected a server_fd) s = on_connected k opt tid a server_fd s"

text \<open>\<open>main\<close>: an exit code, or the proxy when it has started.\<close>

definition main ::
  "kernel \<Rightarrow> (string \<Rightarrow> string \<Rightarrow> int + sockaddr list) \<Rightarrow> time \<Rightarrow> nat \<Rightarrow> (int + proxy) option" where
  "main k gai now argc =
     (if argc \<noteq> 1 then Some (Inl 1)
      else do { s \<leftarrow> RunProxy_start k gai now default_options; Some (Inr s) })"

section \<open>Runs\<close>

text \<open>
  The kernel gives new descriptors: an accepted socket is not one the parser still has, a server's socket not
  one the connector still has, and the two sockets of a tunnel, both open, are not among those the
  forwarder already has.
\<close>

definition fresh_client :: "kernel \<Rightarrow> proxy \<Rightarrow> bool" where
  "fresh_client k s \<longleftrightarrow>
     (\<forall>f w. Accept (main_os k) (listen_fd s) (ws s) = Some (f, w) \<longrightarrow> f \<ge> 0 \<and> f \<notin> parser_fds (ps s))"

definition fresh_tunnel :: "addr \<Rightarrow> fd \<Rightarrow> proxy \<Rightarrow> bool" where
  "fresh_tunnel a d s \<longleftrightarrow> (\<forall>c. client_fd s a = Some c \<longrightarrow> c \<noteq> d \<and> {c, d} \<inter> fwd_fds (fs s) = {})"

text \<open>A callback runs on a thread other than that of the part it calls.\<close>

primrec call_env :: "kernel \<Rightarrow> nat \<Rightarrow> call \<Rightarrow> proxy \<Rightarrow> bool" where
  "call_env k tid (On_parsed a host_port) s \<longleftrightarrow> True"
| "call_env k tid (On_resolved a host_port addr) s \<longleftrightarrow> tid \<noteq> loop_tid (cs s) \<and> fresh_socket (conn_os k) (cs s)"
| "call_env k tid (On_connected a server_fd) s \<longleftrightarrow>
     tid \<noteq> loop_tid (fs s) \<and> (server_fd \<ge> 0 \<longrightarrow> fresh_tunnel a server_fd s)"

inductive proxy_step :: "kernel \<Rightarrow> bool \<Rightarrow> options \<Rightarrow> proxy \<Rightarrow> proxy \<Rightarrow> bool"
  for k :: kernel and lf :: bool and opt :: options where
  accept: "fresh_client k s \<Longrightarrow> tid \<noteq> loop_tid (ps s) \<Longrightarrow> RunProxy_body k opt tid s = Some s' \<Longrightarrow> proxy_step k lf opt s s'"
| parse: "wakeup_ok (parser_os k) (ps s) \<Longrightarrow> parser_pass (parser_os k) (ps s) = Some p \<Longrightarrow>
    proxy_step k lf opt s (s\<lparr>ps := p, todo := todo s @ parsed_calls (new_since (hist (ps s)) (hist p))\<rparr>)"
| resolve: "dns_step (dns_opt opt) (ds s) d \<Longrightarrow> n_cb d = n_cb (ds s) \<Longrightarrow>
    proxy_step k lf opt s (s\<lparr>ds := d, todo := todo s @ resolved_calls (dns_conn s) (new_since (answers (ds s)) (answers d))\<rparr>)"
| connect: "wakeup_ok (conn_os k) (cs s) \<Longrightarrow> conn_pass (conn_os k) (cs s) = Some c \<Longrightarrow>
    proxy_step k lf opt s (s\<lparr>cs := c, todo := todo s @
      connected_calls (\<lambda>p. Option.bind p (conn_conn s)) (new_since (hist (cs s)) (hist c))\<rparr>)"
| forward: "wakeup_ok (fwd_os k) (fs s) \<Longrightarrow> fwd_pass (fwd_os k) lf (fwd_opt opt) (fs s) = Some f \<Longrightarrow>
    proxy_step k lf opt s (s\<lparr>fs := f\<rparr>)"
| call: "todo s = as @ c # bs \<Longrightarrow> call_env k tid c s \<Longrightarrow> t \<le> dns_clock (ds s) \<Longrightarrow>
    run_call k opt t tid c (s\<lparr>todo := as @ bs\<rparr>) = Some s' \<Longrightarrow> proxy_step k lf opt s s'"

text \<open>The hypotheses about kernel and options under which the parts are correct.\<close>

definition proxy_env :: "kernel \<Rightarrow> (history \<Rightarrow> nat) \<Rightarrow> options \<Rightarrow> bool" where
  "proxy_env k mu opt \<longleftrightarrow> parser_env (parser_os k) \<and> epoll_wait_ok (parser_os k) \<and>
     max_request_size_bytes (parser_opt opt) > 0 \<and> conn_env (conn_os k) \<and> epoll_wait_ok (conn_os k) \<and>
     fwd_env (fwd_os k) mu (fwd_opt opt) \<and> epoll_wait_ok (fwd_os k) \<and> close_ok (main_os k)"

definition proxy_running :: "kernel \<Rightarrow> (history \<Rightarrow> nat) \<Rightarrow> bool \<Rightarrow> options \<Rightarrow> proxy \<Rightarrow> bool" where
  "proxy_running k mu lf opt s \<longleftrightarrow> proxy_env k mu opt \<and>
     (\<exists>gai now s0. RunProxy_start k gai now opt = Some s0 \<and> (proxy_step k lf opt)\<^sup>*\<^sup>* s0 s)"

end
