(* ===== verification/Proxy_Inv.thy ===== *)
theory Proxy_Inv
  imports Proxy
begin

text \<open>
  The invariant of the whole proxy: every connection is in one place, and connections are
  attempted only to addresses of hosts and ports that were asked for and are allowed.
\<close>

section \<open>Where a connection is\<close>

definition parsing :: "proxy \<Rightarrow> addr multiset" where
  "parsing s = filter_mset (\<lambda>a. calls a (hist (ps s)) = 0) (mset [0..<brk (ps s)])"

definition resolving :: "proxy \<Rightarrow> addr multiset" where
  "resolving s = image_mset (\<lambda>i. the (dns_conn s i)) (image_mset fst (uncalled (ds s)))"

definition attempting :: "proxy \<Rightarrow> addr multiset" where
  "attempting s = image_mset (\<lambda>i. the (conn_conn s i)) (filter_mset (\<lambda>i. conn_calls i (hist (cs s)) = 0) (mset [0..<brk (cs s)]))"

definition places :: "proxy \<Rightarrow> addr multiset" where
  "places s = parsing s + mset (map call_conn (todo s)) + resolving s + attempting s + mset (map fst (ended s))"

section \<open>What a connection may do\<close>

text \<open>Connection \<open>a\<close> has asked for \<open>hp\<close>, and its port is allowed.\<close>

definition asked :: "options \<Rightarrow> proxy \<Rightarrow> addr \<Rightarrow> string \<Rightarrow> bool" where
  "asked opt s a hp \<longleftrightarrow> Parser_callback a hp \<in> set (hist (ps s)) \<and> hp \<noteq> [] \<and> IsAllowedPort opt hp"

text \<open>\<open>ip\<close> is an address that \<open>getaddrinfo\<close> has given for such a host and port.\<close>

definition resolves_to :: "proxy \<Rightarrow> string \<Rightarrow> sockaddr \<Rightarrow> bool" where
  "resolves_to s hp ip \<longleftrightarrow> (\<exists>t x n. origin (ds s) x = Some (hp, t) \<and> ais (ds s) x = Some n \<and> Cast_addrinfo n = Some ip \<and>
     ring_of (ds s) hp t x)"

definition allowed_for :: "options \<Rightarrow> proxy \<Rightarrow> addr \<Rightarrow> sockaddr \<Rightarrow> bool" where
  "allowed_for opt s a ip \<longleftrightarrow> (\<exists>hp. asked opt s a hp \<and> resolves_to s hp ip)"

definition allowed_addr :: "options \<Rightarrow> proxy \<Rightarrow> sockaddr \<Rightarrow> bool" where
  "allowed_addr opt s ip \<longleftrightarrow> (\<exists>a. allowed_for opt s a ip)"

text \<open>The connector has given socket \<open>r\<close> to the callback of an attempt made for connection \<open>a\<close>.\<close>

definition given :: "proxy \<Rightarrow> addr \<Rightarrow> fd \<Rightarrow> bool" where
  "given s a r \<longleftrightarrow> (\<exists>i. conn_conn s i = Some a \<and> Connector_callback (Some i) r \<in> set (hist (cs s)))"

definition call_ok :: "options \<Rightarrow> proxy \<Rightarrow> call \<Rightarrow> bool" where
  "call_ok opt s c = (case c of
     On_parsed a hp \<Rightarrow> Parser_callback a hp \<in> set (hist (ps s))
   | On_resolved a hp p \<Rightarrow> asked opt s a hp \<and> ptr_ok (ds s) hp p
   | On_connected a r \<Rightarrow> r \<ge> 0 \<longrightarrow> given s a r)"

definition routed :: "options \<Rightarrow> proxy \<Rightarrow> bool" where
  "routed opt s \<longleftrightarrow> (\<forall>c \<in> set (todo s). call_ok opt s c) \<and>
     (\<forall>i a. dns_conn s i = Some a \<longrightarrow> asked opt s a (requests (ds s) ! i)) \<and>
     (\<forall>f ip r. Connect f ip r \<in> set (hist (cs s)) \<longrightarrow> allowed_addr opt s ip) \<and>
     (\<forall>i a. conn_conn s i = Some a \<longrightarrow> allowed_for opt s a (snd (attempts (hist (cs s)) ! i))) \<and>
     (\<forall>a r. (a, Some r) \<in> set (ended s) \<longrightarrow> r \<ge> 0 \<and> given s a r)"

section \<open>The invariant\<close>

text \<open>The sockets \<open>accept4\<close> has given and those \<open>hcproxy.cc\<close> has closed.\<close>

primrec accepted_fds :: "history \<Rightarrow> fd list" where
  "accepted_fds [] = []"
| "accepted_fds (e # h) = (case e of Accept4 l (Inr (f, n, fam)) \<Rightarrow> [f] | _ \<Rightarrow> []) @ accepted_fds h"

primrec closed_fds :: "history \<Rightarrow> fd list" where
  "closed_fds [] = []"
| "closed_fds (e # h) = (case e of Close f r \<Rightarrow> [f] | _ \<Rightarrow> []) @ closed_fds h"

lemma fds_append [simp]:
  "accepted_fds (es @ h) = accepted_fds es @ accepted_fds h" "closed_fds (es @ h) = closed_fds es @ closed_fds h"
  by (induction es) auto

definition closed_conns :: "(addr \<times> fd option) list \<Rightarrow> addr list" where
  "closed_conns xs = map fst (filter (\<lambda>x. snd x = None) xs)"

definition fds_ok :: "proxy \<Rightarrow> bool" where
  "fds_ok s \<longleftrightarrow> fd_by (\<lambda>a. the (client_fd s a)) (ps s) \<and> dom (client_fd s) = {..<brk (ps s)} \<and> (\<forall>a f. client_fd s a = Some f \<longrightarrow> f \<ge> 0) \<and>
     map Some (rev (accepted_fds (hist (ws s)))) = map (client_fd s) [0..<brk (ps s)] \<and>
     map Some (closed_fds (hist (ws s))) = map (client_fd s) (closed_conns (ended s))"

definition parts_ok :: "kernel \<Rightarrow> (history \<Rightarrow> nat) \<Rightarrow> bool \<Rightarrow> options \<Rightarrow> proxy \<Rightarrow> bool" where
  "parts_ok k mu lf opt s \<longleftrightarrow> parser_running (parser_os k) (parser_opt opt) (ps s) \<and> dns_reach (dns_opt opt) (ds s) \<and>
     conn_running (conn_os k) (conn_opt opt) (cs s) \<and> fwd_running (fwd_os k) mu lf (fwd_opt opt) (fs s)"

definition proxy_inv :: "kernel \<Rightarrow> (history \<Rightarrow> nat) \<Rightarrow> bool \<Rightarrow> options \<Rightarrow> proxy \<Rightarrow> bool" where
  "proxy_inv k mu lf opt s \<longleftrightarrow> parts_ok k mu lf opt s \<and> fds_ok s \<and> dom (dns_conn s) = {..<n_cb (ds s)} \<and>
     dom (conn_conn s) = {..<brk (cs s)} \<and> places s = mset [0..<brk (ps s)] \<and> routed opt s"

section \<open>Lists of new callbacks\<close>

lemma new_since_append [simp]: "new_since old (es @ old) = es"
  by (simp add: new_since_def)

lemma new_since_Cons [simp]: "new_since old (e # old) = [e]"
  using new_since_append [of old "[e]"] by simp

text \<open>
  Handlers that have not called their callback, before and after \<open>g\<close> more calls.
\<close>

lemma filter_answered:
  fixes f g :: "nat \<Rightarrow> nat"
  assumes "\<And>a. g a + f a \<le> of_bool (a < b)" and "\<And>a. count M a = g a"
  shows "filter_mset (\<lambda>a. f a = 0) (mset [0..<b]) = filter_mset (\<lambda>a. g a + f a = 0) (mset [0..<b]) + M"
proof (rule multiset_eqI)
  fix a
  have "count (mset [0..<b]) a = of_bool (a < b)" by (simp add: distinct_count_atmost_1)
  then show "count (filter_mset (\<lambda>a. f a = 0) (mset [0..<b])) a = count (filter_mset (\<lambda>a. g a + f a = 0) (mset [0..<b]) + M) a"
    using assms(1) [of a] assms(2) [of a] by (cases "a < b"; cases "f a = 0") (simp_all add: count_filter_mset del: filter_mset_eq_conv mset_filter mset_upt)
qed

lemma count_parsed: "count (mset (map call_conn (parsed_calls es))) a = calls a es"
  by (induction es) (auto split: event.splits)

lemma calls_append: "calls a (es @ h) = calls a es + calls a h"
  by (induction es) simp_all

primrec answered :: "event list \<Rightarrow> addr list" where
  "answered [] = []"
| "answered (e # es) = answered es @ (case e of Connector_callback (Some i) r \<Rightarrow> [i] | _ \<Rightarrow> [])"

lemma count_answered: "count (mset (answered es)) i = conn_calls i es"
  by (induction es) (auto split: event.splits option.splits)

lemma conn_calls_append: "conn_calls a (es @ h) = conn_calls a es + conn_calls a h"
  by (induction es) simp_all

lemma connected_answered:
  assumes "\<forall>i. conn_calls i es > 0 \<longrightarrow> m i \<noteq> None"
  shows "map call_conn (connected_calls (\<lambda>p. Option.bind p m) es) = map (\<lambda>i. the (m i)) (answered es)"
  using assms
proof (induction es)
  case (Cons e es)
  have "\<forall>i. conn_calls i es > 0 \<longrightarrow> m i \<noteq> None" using Cons.prems by simp
  note ih = Cons.IH [OF this]
  show ?case
  proof (cases e)
    case (Connector_callback p r)
    show ?thesis
    proof (cases p)
      case (Some i)
      with Connector_callback Cons.prems have "m i \<noteq> None" by simp
      with ih Connector_callback Some show ?thesis by auto
    qed (use ih Connector_callback in simp)
  qed (use ih in simp_all)
qed simp

lemma resolved_conns:
  assumes "\<forall>i \<in> fst ` fst ` set xs. m i \<noteq> None"
  shows "map call_conn (resolved_calls m xs) = map (\<lambda>i. the (m i)) (rev (map (fst \<circ> fst) xs))"
  using assms by (induction xs) (auto split: option.splits)

lemma parsed_calls_set: "c \<in> set (parsed_calls es) \<Longrightarrow> \<exists>a hp. c = On_parsed a hp \<and> Parser_callback a hp \<in> set es"
  by (induction es) (auto split: event.splits)

lemma connected_calls_set: "c \<in> set (connected_calls m es) \<Longrightarrow>
    \<exists>a r p. c = On_connected a r \<and> m p = Some a \<and> Connector_callback p r \<in> set es"
  by (induction es) (auto split: event.splits option.splits)

lemma resolved_calls_set: "c \<in> set (resolved_calls m xs) \<Longrightarrow> \<exists>a hp p i. c = On_resolved a hp p \<and> ((i, hp), p) \<in> set xs \<and> m i = Some a"
  by (induction xs) (auto split: option.splits)

section \<open>Monotony\<close>

definition extends :: "proxy \<Rightarrow> proxy \<Rightarrow> bool" where
  "extends s s' \<longleftrightarrow> set (hist (ps s)) \<subseteq> set (hist (ps s')) \<and> mem_le (ds s) (ds s') \<and>
     set (hist (cs s)) \<subseteq> set (hist (cs s')) \<and> conn_conn s \<subseteq>\<^sub>m conn_conn s'"

lemma asked_mono: "extends s s' \<Longrightarrow> asked opt s a hp \<Longrightarrow> asked opt s' a hp"
  by (auto simp: extends_def asked_def)

lemma allowed_for_mono:
  assumes "extends s s'" and "allowed_for opt s a ip"
  shows "allowed_for opt s' a ip"
proof -
  from assms(2) obtain hp t x n where 1: "asked opt s a hp" "ring_of (ds s) hp t x" "ais (ds s) x = Some n" "Cast_addrinfo n = Some ip"
    by (auto simp: allowed_for_def resolves_to_def)
  have "x < ai_brk (ds s)" using 1(2) by (auto simp: ring_of_def on_ring_def)
  then have "ais (ds s') x = Some n" using 1(3) assms(1) by (simp add: extends_def mem_le_def)
  moreover have "ring_of (ds s') hp t x" using 1(2) assms(1) ring_of_mono by (auto simp: extends_def)
  moreover from this have "origin (ds s') x = Some (hp, t)" by (auto simp: ring_of_def on_ring_def)
  ultimately show ?thesis using asked_mono [OF assms(1) 1(1)] 1(4) unfolding allowed_for_def resolves_to_def by blast
qed

lemma allowed_addr_mono: "extends s s' \<Longrightarrow> allowed_addr opt s ip \<Longrightarrow> allowed_addr opt s' ip"
  unfolding allowed_addr_def using allowed_for_mono by blast

lemma given_mono: "extends s s' \<Longrightarrow> given s a r \<Longrightarrow> given s' a r"
  by (force simp: extends_def given_def map_le_def)

lemma call_ok_mono: "extends s s' \<Longrightarrow> call_ok opt s c \<Longrightarrow> call_ok opt s' c"
  by (auto simp: call_ok_def asked_mono given_mono split: call.splits) (auto simp: extends_def dest: ptr_ok_mono)

lemma routed_mono:
  assumes "routed opt s" and ex: "extends s s'"
    and "\<And>c. c \<in> set (todo s') \<Longrightarrow> c \<in> set (todo s) \<or> call_ok opt s' c"
    and "\<And>i a. dns_conn s' i = Some a \<Longrightarrow> dns_conn s i = Some a \<and> requests (ds s') ! i = requests (ds s) ! i \<or>
      asked opt s' a (requests (ds s') ! i)"
    and "\<And>f ip r. Connect f ip r \<in> set (hist (cs s')) \<Longrightarrow> Connect f ip r \<in> set (hist (cs s)) \<or> allowed_addr opt s' ip"
    and "\<And>i a. conn_conn s' i = Some a \<Longrightarrow>
      conn_conn s i = Some a \<and> attempts (hist (cs s')) ! i = attempts (hist (cs s)) ! i \<or>
      allowed_for opt s' a (snd (attempts (hist (cs s')) ! i))"
    and "\<And>a r. (a, Some r) \<in> set (ended s') \<Longrightarrow> (a, Some r) \<in> set (ended s) \<or> r \<ge> 0 \<and> given s' a r"
  shows "routed opt s'"
proof -
  from assms(1) have r: "\<And>c. c \<in> set (todo s) \<Longrightarrow> call_ok opt s c"
    "\<And>i a. dns_conn s i = Some a \<Longrightarrow> asked opt s a (requests (ds s) ! i)"
    "\<And>f ip r. Connect f ip r \<in> set (hist (cs s)) \<Longrightarrow> allowed_addr opt s ip"
    "\<And>i a. conn_conn s i = Some a \<Longrightarrow> allowed_for opt s a (snd (attempts (hist (cs s)) ! i))"
    "\<And>a r. (a, Some r) \<in> set (ended s) \<Longrightarrow> r \<ge> 0 \<and> given s a r"
    unfolding routed_def by blast+
  show ?thesis
    unfolding routed_def
  proof (intro conjI ballI allI impI)
    show "call_ok opt s' c" if "c \<in> set (todo s')" for c using assms(3) [OF that] r(1) call_ok_mono [OF ex] by blast
    show "asked opt s' a (requests (ds s') ! i)" if "dns_conn s' i = Some a" for i a
      using assms(4) [OF that] r(2) [of i a] asked_mono [OF ex] by metis
    show "allowed_addr opt s' ip" if "Connect f ip r \<in> set (hist (cs s'))" for f ip r
      using assms(5) [OF that] r(3) allowed_addr_mono [OF ex] by blast
    show "allowed_for opt s' a (snd (attempts (hist (cs s')) ! i))" if "conn_conn s' i = Some a" for i a
      using assms(6) [OF that] r(4) [of i a] allowed_for_mono [OF ex] by metis
    show "r \<ge> 0" "given s' a r" if "(a, Some r) \<in> set (ended s')" for a r
      using assms(7) [OF that] r(5) given_mono [OF ex] by blast+
  qed
qed

end
