(* ===== verification/Proxy_Safety.thy ===== *)
theory Proxy_Safety
  imports Proxy_Inv
begin

text \<open>Every step of the proxy keeps its invariant, and the callbacks return.\<close>

section \<open>Facts about the parts\<close>

lemma calls_bound:
  assumes "parser_running os opt s"
  shows "calls a (hist s) \<le> of_bool (a < brk s)"
proof (cases "ehs s a")
  case None
  with pinv_none [OF parser_running_pinv [OF assms] None] show ?thesis by simp
next
  case (Some e)
  note inv = parser_running_pinv [OF assms]
  obtain xs where "evl_inv os s xs" using pinv_evl [OF inv] by blast
  from evl_inv_eh [OF this Some] have "a < brk s" by (simp add: eh_ok_def)
  with pinv_handler [OF inv Some] show ?thesis by (auto simp: ph_ok_def)
qed

lemma conn_calls_bound:
  assumes "conn_running os opt s"
  shows "conn_calls a (hist s) \<le> of_bool (a < brk s)"
proof (cases "ehs s a")
  case None
  with cinv_none [OF conn_running_cinv [OF assms] None] show ?thesis by simp
next
  case (Some e)
  note inv = conn_running_cinv [OF assms]
  obtain xs where "evl_inv os s xs" using cinv_evl [OF inv] by blast
  from evl_inv_eh [OF this Some] have "a < brk s" by (simp add: eh_ok_def)
  with cinv_handler [OF inv Some] show ?thesis by (auto simp: ch_ok_def)
qed

lemma parser_running_pass:
  assumes "parser_running os opt s" and "wakeup_ok os s" and "\<not> wait_fails os s"
  shows "\<exists>s' es. parser_pass os s = Some s' \<and> parser_running os opt s' \<and> hist s' = es @ hist s \<and> brk s' = brk s \<and>
    (\<forall>F. fd_by F s \<longrightarrow> fd_by F s')"
proof -
  from assms(1) have env: "parser_env os" "epoll_wait_ok os" by (simp_all add: parser_running_def)
  from parser_pass_ok [OF env parser_running_good [OF assms(1)] assms(2,3)] obtain s' k ms q where
    "parser_pass os s = Some s'" "suffix (Epoll_wait k ms q # hist s) (hist s')" "brk s' = brk s"
    and F: "\<forall>F. fd_by F s \<longrightarrow> fd_by F s'" by blast
  then obtain es where s': "parser_pass os s = Some s'" "hist s' = (es @ [Epoll_wait k ms q]) @ hist s" "brk s' = brk s"
    by (auto simp: suffix_def)
  moreover have "parser_running os opt s'"
    using assms s'(1) by (auto simp: parser_running_def intro: parser_reach.pass)
  ultimately show ?thesis using F by blast
qed

lemma parser_running_request:
  assumes "parser_running os opt s" and "f \<ge> 0" "f \<notin> parser_fds s" and "tid \<noteq> loop_tid s"
  shows "\<exists>s'. ParseRequest os opt f (s\<lparr>cur_tid := tid\<rparr>) = Some s' \<and> parser_running os opt (s'\<lparr>cur_tid := cur_tid s\<rparr>) \<and>
    hist s' = hist s \<and> brk s' = Suc (brk s) \<and>
    (\<forall>F. fd_by F s \<longrightarrow> fd_by (F(brk s := f)) (s'\<lparr>cur_tid := cur_tid s\<rparr>))"
proof -
  have "max_request_size_bytes opt > 0" using assms(1) by (simp add: parser_running_def)
  from ParseRequest_schedules [OF parser_running_pinv [OF assms(1)] assms(2,3) this assms(4)] obtain s' where
    s': "ParseRequest os opt f (s\<lparr>cur_tid := tid\<rparr>) = Some s'" "hist s' = hist s" "brk s' = Suc (brk s)"
    and e: "\<exists>e. ehs s' = (ehs s)(brk s \<mapsto> e) \<and> eh_fd e = f" by blast
  moreover have "parser_running os opt (s'\<lparr>cur_tid := cur_tid s\<rparr>)"
    using assms s'(1) by (auto simp: parser_running_def intro: parser_reach.request)
  moreover have "fd_by (F(brk s := f)) (s'\<lparr>cur_tid := cur_tid s\<rparr>)" if "fd_by F s" for F
  proof -
    have "said (pending s) s" using parser_running_good [OF assms(1)] by (simp add: parser_good_def)
    with e s'(2) show ?thesis using fd_by_new [OF that, of "pending s"] by auto
  qed
  ultimately show ?thesis by blast
qed

lemma conn_running_pass:
  assumes "conn_running os opt s" and "wakeup_ok os s" and "\<not> wait_fails os s"
  shows "\<exists>s' es. conn_pass os s = Some s' \<and> conn_running os opt s' \<and> hist s' = es @ hist s \<and> no_attempt es \<and> brk s' = brk s"
proof -
  from assms(1) have env: "conn_env os" "epoll_wait_ok os" by (simp_all add: conn_running_def)
  from conn_pass_ok [OF env conn_running_good [OF assms(1)] assms(2,3)] obtain s' es k ms q where
    "conn_pass os s = Some s'" "hist s' = es @ Epoll_wait k ms q # hist s" "no_attempt es" "brk s' = brk s" by blast
  then have s': "conn_pass os s = Some s'" "hist s' = (es @ [Epoll_wait k ms q]) @ hist s"
    "no_attempt (es @ [Epoll_wait k ms q])" "brk s' = brk s" by simp_all
  moreover have "conn_running os opt s'"
    using assms s'(1) by (auto simp: conn_running_def intro: conn_reach.pass)
  ultimately show ?thesis by blast
qed

text \<open>\<open>Connect\<close> makes a handler or calls the callback with \<open>-1\<close>.\<close>

lemma conn_running_connect:
  assumes "conn_running os opt s" and "fresh_socket os s" and "tid \<noteq> loop_tid s" and "Cast_addrinfo n = Some ip"
  shows "\<exists>s' es. Connector_Connect os n (s\<lparr>cur_tid := tid\<rparr>) = Some s' \<and> conn_running os opt (s'\<lparr>cur_tid := cur_tid s\<rparr>) \<and>
    hist s' = es @ hist s \<and> (\<forall>f ip' r. Connect f ip' r \<in> set es \<longrightarrow> ip' = ip) \<and> (\<forall>i. conn_calls i es = 0) \<and>
    (brk s' = Suc (brk s) \<and> connected_calls [None \<mapsto> a] es = [] \<and> (\<exists>f. attempts es = [(f, ip)]) \<or>
     brk s' = brk s \<and> connected_calls [None \<mapsto> a] es = [On_connected a (- 1)] \<and> attempts es = [])"
proof -
  have env: "conn_env os" using assms(1) by (simp add: conn_running_def)
  from Connect_schedules [OF env conn_running_cinv [OF assms(1)] assms(2,3,4)] obtain s' f where
    s': "Connector_Connect os n (s\<lparr>cur_tid := tid\<rparr>) = Some s'" "attempt_started ip f s s' \<or> attempt_failed ip f s s'" by blast
  have "conn_running os opt (s'\<lparr>cur_tid := cur_tid s\<rparr>)"
    using assms s'(1) by (auto simp: conn_running_def intro: conn_reach.connect)
  moreover have "\<exists>es. hist s' = es @ hist s \<and> (\<forall>f ip' r. Connect f ip' r \<in> set es \<longrightarrow> ip' = ip) \<and> (\<forall>i. conn_calls i es = 0) \<and>
    (brk s' = Suc (brk s) \<and> connected_calls [None \<mapsto> a] es = [] \<and> (\<exists>f. attempts es = [(f, ip)]) \<or>
     brk s' = brk s \<and> connected_calls [None \<mapsto> a] es = [On_connected a (- 1)] \<and> attempts es = [])"
    using s'(2)
  proof
    assume "attempt_started ip f s s'"
    then obtain r where "hist s' = [Connect f ip r, Setsockopt f TCP_NODELAY 0, Socket (Inr f)] @ hist s" "brk s' = Suc (brk s)"
      "r = 0 \<or> r = EINPROGRESS"
      by (auto simp: attempt_started_def)
    then show ?thesis by (intro exI [of _ "[Connect f ip r, Setsockopt f TCP_NODELAY 0, Socket (Inr f)]"]) auto
  next
    assume "attempt_failed ip f s s'"
    then consider r where "hist s' = [Connector_callback None (- 1), Close f 0, Connect f ip r, Setsockopt f TCP_NODELAY 0, Socket (Inr f)] @ hist s"
        "brk s' = brk s" "r \<noteq> 0" "r \<noteq> EINPROGRESS"
      | e where "hist s' = [Connector_callback None (- 1), Socket (Inl e)] @ hist s" "brk s' = brk s"
      by (auto simp: attempt_failed_def)
    then show ?thesis
    proof cases
      case (1 r)
      then show ?thesis
        by (intro exI [of _ "[Connector_callback None (- 1), Close f 0, Connect f ip r, Setsockopt f TCP_NODELAY 0, Socket (Inr f)]"]) auto
    next
      case (2 e)
      then show ?thesis by (intro exI [of _ "[Connector_callback None (- 1), Socket (Inl e)]"]) auto
    qed
  qed
  ultimately show ?thesis using s'(1) by blast
qed

lemma fwd_running_pass:
  assumes "fwd_running os mu lf opt s" and "wakeup_ok os s" and "\<not> wait_fails os s"
  shows "\<exists>s'. fwd_pass os lf opt s = Some s' \<and> fwd_running os mu lf opt s'"
proof -
  from assms(1) have env: "fwd_env os mu opt" "epoll_wait_ok os" by (simp_all add: fwd_running_def)
  from fwd_pass_ok [OF env fwd_running_linv [OF assms(1)] assms(2,3)] obtain s' where "fwd_pass os lf opt s = Some s'" by blast
  with assms show ?thesis by (auto simp: fwd_running_def intro: fwd_reach.pass)
qed

lemma fwd_running_forward:
  assumes "fwd_running os mu lf opt s" and "tid \<noteq> loop_tid s" and "c \<ge> 0" "d \<ge> 0" "c \<noteq> d" "{c, d} \<inter> fwd_fds s = {}"
  shows "\<exists>s'. Forwarder_Forward os opt c d (s\<lparr>cur_tid := tid\<rparr>) = Some s' \<and> fwd_running os mu lf opt (s'\<lparr>cur_tid := cur_tid s\<rparr>)"
proof -
  let ?s = "(schedule_link c d s)\<lparr>cur_tid := tid\<rparr>"
  have run: "Forwarder_Forward os opt c d (s\<lparr>cur_tid := tid\<rparr>) = Some ?s"
    using Forwarder_Forward_iff [OF assms(2)] assms(3,4) by blast
  from assms(1) obtain s0 where s0: "fwd_env os mu opt" "epoll_wait_ok os" "Forwarder_ctor os opt blank_fwd = Some s0"
    "fwd_reach os lf opt s0 s" by (auto simp: fwd_running_def)
  from fwd_reach.forward [OF s0(4) assms(5,6,2) run] s0 run show ?thesis by (auto simp: fwd_running_def)
qed

lemma Accept_effect:
  assumes "accept_run os l h es conn"
  shows "accepted_fds es = [conn] \<and> closed_fds es = []"
  using assms by (induction) auto

section \<open>Steps of the parts\<close>

lemma proxy_invD:
  assumes "proxy_inv k mu lf opt s"
  shows "parser_running (parser_os k) (parser_opt opt) (ps s)" "dns_reach (dns_opt opt) (ds s)"
    "conn_running (conn_os k) (conn_opt opt) (cs s)" "fwd_running (fwd_os k) mu lf (fwd_opt opt) (fs s)"
    "fds_ok s" "dom (dns_conn s) = {..<n_cb (ds s)}" "dom (conn_conn s) = {..<brk (cs s)}"
    "places s = mset [0..<brk (ps s)]" "routed opt s"
  using assms by (simp_all add: proxy_inv_def parts_ok_def)

lemma step_parse:
  assumes inv: "proxy_inv k mu lf opt s" and w: "wakeup_ok (parser_os k) (ps s)"
    and run: "parser_pass (parser_os k) (ps s) = Some p"
  shows "proxy_inv k mu lf opt (s\<lparr>ps := p, todo := todo s @ parsed_calls (new_since (hist (ps s)) (hist p))\<rparr>)"
    (is "proxy_inv _ _ _ _ ?s")
proof -
  note d = proxy_invD [OF inv]
  from parser_running_pass [OF d(1) w parser_pass_waits [OF run]] run obtain es where p: "parser_running (parser_os k) (parser_opt opt) p"
    "hist p = es @ hist (ps s)" "brk p = brk (ps s)" "\<And>F. fd_by F (ps s) \<Longrightarrow> fd_by F p" by auto
  have "calls a es + calls a (hist (ps s)) \<le> of_bool (a < brk (ps s))" for a
    using calls_bound [OF p(1), of a] p(2,3) by (simp add: calls_append)
  from filter_answered [where b = "brk (ps s)", OF this count_parsed] have
    "parsing s = parsing ?s + mset (map call_conn (parsed_calls es))"
    by (simp add: parsing_def p calls_append del: mset_filter mset_map)
  then have "places ?s = places s" using p(2) by (simp add: places_def resolving_def attempting_def)
  moreover have "routed opt ?s"
    using p(2) by (intro routed_mono [OF d(9)])
      (auto simp: extends_def mem_le_def call_ok_def dest!: parsed_calls_set)
  moreover have "fds_ok ?s" using d(5) p(3,4) by (simp add: fds_ok_def)
  ultimately show ?thesis using d p by (simp add: proxy_inv_def parts_ok_def)
qed

lemma step_resolve:
  assumes inv: "proxy_inv k mu lf opt s" and st: "dns_step (dns_opt opt) (ds s) d" and n: "n_cb d = n_cb (ds s)"
  shows "proxy_inv k mu lf opt
    (s\<lparr>ds := d, todo := todo s @ resolved_calls (dns_conn s) (new_since (answers (ds s)) (answers d))\<rparr>)"
    (is "proxy_inv _ _ _ _ ?s")
proof -
  note i = proxy_invD [OF inv]
  have r: "dns_reach (dns_opt opt) d" by (rule dns_reach_step [OF i(2) st])
  have g: "grows (ds s) d" by (rule dns_step_grows [OF st])
  then obtain xs where xs: "answers d = xs @ answers (ds s)" by (auto simp: grows_def suffix_def)
  have req: "requests d = requests (ds s)" using g n by (auto simp: grows_def prefix_def)
  note c0 = dinv_cbs [OF dns_reach_inv [OF i(2)]] and c1 = dinv_cbs [OF dns_reach_inv [OF r]]
  have ids: "image_mset fst (uncalled (ds s)) = image_mset fst (uncalled d) + mset (map (fst \<circ> fst) xs)"
  proof (rule add_right_imp_eq)
    show "image_mset fst (uncalled (ds s)) + mset (map (fst \<circ> fst) (answers (ds s))) =
        image_mset fst (uncalled d) + mset (map (fst \<circ> fst) xs) + mset (map (fst \<circ> fst) (answers (ds s)))"
      using c0 c1 n xs by (simp only: map_append mset_append add.assoc)
  qed
  have known: "dns_conn s j \<noteq> None \<and> hp = requests (ds s) ! j" if "((j, hp), p) \<in> set xs" for j hp p
  proof -
    have "(j, hp) \<in> fst ` set (answers d)" using that xs by force
    then have "j < n_cb d \<and> requests d ! j = hp" using dinv_request [OF dns_reach_inv [OF r]] by blast
    with n req i(6) show ?thesis by auto
  qed
  have "map call_conn (resolved_calls (dns_conn s) xs) = map (\<lambda>i. the (dns_conn s i)) (rev (map (fst \<circ> fst) xs))"
    using known by (intro resolved_conns) auto
  then have "resolving s = resolving ?s + mset (map call_conn (resolved_calls (dns_conn s) xs))"
    by (simp add: resolving_def ids multiset.map_comp comp_def)
  then have "places ?s = places s" using xs by (simp add: places_def parsing_def attempting_def)
  moreover have "routed opt ?s"
  proof (rule routed_mono [OF i(9)])
    show "extends s ?s" using g by (simp add: extends_def grows_def)
    show "c \<in> set (todo s) \<or> call_ok opt ?s c" if "c \<in> set (todo ?s)" for c
    proof (cases "c \<in> set (todo s)")
      case False
      with that xs have "c \<in> set (resolved_calls (dns_conn s) xs)" by simp
      from resolved_calls_set [OF this] obtain a hp p j where c: "c = On_resolved a hp p" "((j, hp), p) \<in> set xs"
        "dns_conn s j = Some a" by blast
      have "asked opt s a hp" using i(9) c(3) known [OF c(2)] by (auto simp: routed_def)
      moreover have "ptr_ok d hp p"
        using dns_reach_inv [OF r] c(2) xs by (force simp: dinv_def rings_ok_def answer_ok_def)
      ultimately show ?thesis using c(1) by (simp add: call_ok_def asked_def)
    qed simp
  qed (simp_all add: req)
  moreover have "fds_ok ?s" using i(5) by (simp add: fds_ok_def)
  ultimately show ?thesis using i r n by (simp add: proxy_inv_def parts_ok_def)
qed

lemma step_connect:
  assumes inv: "proxy_inv k mu lf opt s" and w: "wakeup_ok (conn_os k) (cs s)"
    and run: "conn_pass (conn_os k) (cs s) = Some c"
  shows "proxy_inv k mu lf opt (s\<lparr>cs := c, todo := todo s @
      connected_calls (\<lambda>p. Option.bind p (conn_conn s)) (new_since (hist (cs s)) (hist c))\<rparr>)"
    (is "proxy_inv _ _ _ _ ?s")
proof -
  note d = proxy_invD [OF inv]
  from conn_running_pass [OF d(3) w conn_pass_waits [OF run]] run obtain es where c: "conn_running (conn_os k) (conn_opt opt) c"
    "hist c = es @ hist (cs s)" "brk c = brk (cs s)" "no_attempt es" by auto
  have b: "conn_calls a es + conn_calls a (hist (cs s)) \<le> of_bool (a < brk (cs s))" for a
    using conn_calls_bound [OF c(1), of a] c(2,3) by (simp add: conn_calls_append)
  let ?m = "\<lambda>i. the (conn_conn s i)"
  have "conn_conn s i \<noteq> None" if "conn_calls i es > 0" for i
  proof -
    have "i < brk (cs s)" using b [of i] that by (cases "i < brk (cs s)") auto
    then show ?thesis using d(7) by auto
  qed
  then have ids: "map call_conn (connected_calls (\<lambda>p. Option.bind p (conn_conn s)) es) = map ?m (answered es)"
    by (intro connected_answered) simp
  from filter_answered [where b = "brk (cs s)", OF b count_answered] have
    "attempting s = attempting ?s + image_mset ?m (mset (answered es))"
    by (simp add: attempting_def c conn_calls_append del: mset_filter)
  then have "places ?s = places s"
    using c(2) ids by (simp add: places_def resolving_def parsing_def flip: mset_map) 
  moreover have "routed opt ?s"
    using c(2) no_attempt_Connect [OF c(4)] no_attempt_attempts [OF c(4)] by (intro routed_mono [OF d(9)])
      (auto simp: extends_def mem_le_def call_ok_def given_def attempts_append bind_eq_Some_conv dest!: connected_calls_set)
  moreover have "fds_ok ?s" using d(5) by (simp add: fds_ok_def)
  ultimately show ?thesis using d c by (simp add: proxy_inv_def parts_ok_def)
qed

lemma step_forward:
  assumes inv: "proxy_inv k mu lf opt s" and w: "wakeup_ok (fwd_os k) (fs s)"
    and run: "fwd_pass (fwd_os k) lf (fwd_opt opt) (fs s) = Some f"
  shows "proxy_inv k mu lf opt (s\<lparr>fs := f\<rparr>)"
proof -
  note d = proxy_invD [OF inv]
  from fwd_running_pass [OF d(4) w fwd_pass_waits [OF run]] run have "fwd_running (fwd_os k) mu lf (fwd_opt opt) f" by auto
  moreover have "routed opt (s\<lparr>fs := f\<rparr>)" by (rule routed_mono [OF d(9)]) (auto simp: extends_def mem_le_def)
  ultimately show ?thesis
    using d by (simp add: proxy_inv_def parts_ok_def fds_ok_def places_def parsing_def resolving_def attempting_def)
qed

text \<open>A new connection.\<close>

lemma step_accept:
  assumes inv: "proxy_inv k mu lf opt s" and f: "fresh_client k s" and tid: "tid \<noteq> loop_tid (ps s)"
    and run: "RunProxy_body k opt tid s = Some s'"
  shows "proxy_inv k mu lf opt s'"
proof -
  note d = proxy_invD [OF inv]
  from run obtain c w where acc: "Accept (main_os k) (listen_fd s) (ws s) = Some (c, w)"
    by (auto simp: RunProxy_body_def split: bind_splits)
  from Accept_sound [OF acc] obtain es where es: "accept_run (main_os k) (listen_fd s) (hist (ws s)) es c"
    "w = (ws s)\<lparr>hist := es @ hist (ws s)\<rparr>" by auto
  have c: "c \<ge> 0" "c \<notin> parser_fds (ps s)" using f acc by (auto simp: fresh_client_def)
  from parser_running_request [OF d(1) c tid] obtain p where
    p: "ParseRequest (parser_os k) (parser_opt opt) c ((ps s)\<lparr>cur_tid := tid\<rparr>) = Some p"
      "parser_running (parser_os k) (parser_opt opt) (p\<lparr>cur_tid := cur_tid (ps s)\<rparr>)"
      "hist p = hist (ps s)" "brk p = Suc (brk (ps s))"
      "\<And>F. fd_by F (ps s) \<Longrightarrow> fd_by (F(brk (ps s) := c)) (p\<lparr>cur_tid := cur_tid (ps s)\<rparr>)" by blast
  let ?b = "brk (ps s)"
  let ?s = "s\<lparr>ws := w, ps := p\<lparr>cur_tid := cur_tid (ps s)\<rparr>, client_fd := (client_fd s)(?b \<mapsto> c)\<rparr>"
  have s': "s' = ?s" using run acc p(1) by (simp add: RunProxy_body_def)
  have "calls ?b (hist (ps s)) = 0" using calls_bound [OF d(1), of ?b] by simp
  then have "parsing ?s = add_mset ?b (parsing s)" by (simp add: parsing_def p del: mset_filter)
  then have pl: "places ?s = add_mset ?b (places s)" by (simp add: places_def resolving_def attempting_def)
  have new: "a < ?b" if "a \<in># places s" for a using that d(8) by simp
  have cl: "a < ?b" if "a \<in> set (closed_conns (ended s))" for a
    using that by (intro new) (auto simp: places_def closed_conns_def)
  have "(\<lambda>a. the (((client_fd s)(?b \<mapsto> c)) a)) = (\<lambda>a. the (client_fd s a))(?b := c)" by auto
  then have fb: "fd_by (\<lambda>a. the (client_fd ?s a)) (ps ?s)" using p(5) d(5) by (simp add: fds_ok_def)
  have fo: "dom (client_fd s) = {..<?b}" "\<forall>a f. client_fd s a = Some f \<longrightarrow> f \<ge> 0"
    "map Some (rev (accepted_fds (hist (ws s)))) = map (client_fd s) [0..<?b]"
    "map Some (closed_fds (hist (ws s))) = map (client_fd s) (closed_conns (ended s))"
    using d(5) by (auto simp: fds_ok_def)
  have "map (client_fd s) (closed_conns (ended s)) = map ((client_fd s)(?b \<mapsto> c)) (closed_conns (ended s))"
    using cl by (intro map_cong) auto
  then have "fds_ok ?s"
    using fo fb c(1) p(4) es(2) Accept_effect [OF es(1)] by (auto simp: fds_ok_def)
  moreover have "routed opt ?s" using p(3) by (intro routed_mono [OF d(9)]) (auto simp: extends_def mem_le_def)
  ultimately show ?thesis using d p(2,4) pl by (simp add: s' proxy_inv_def parts_ok_def)
qed

section \<open>Callbacks\<close>

lemma close_client_inv:
  assumes inv: "proxy_inv k mu lf opt (s\<lparr>todo := as @ c # bs\<rparr>)" and env: "close_ok (main_os k)"
  shows "\<exists>s'. close_client k (call_conn c) (s\<lparr>todo := as @ bs\<rparr>) = Some s' \<and> proxy_inv k mu lf opt s'"
proof -
  note d = proxy_invD [OF inv]
  let ?a = "call_conn c"
  have "?a \<in># places (s\<lparr>todo := as @ c # bs\<rparr>)" by (simp add: places_def)
  then have "?a < brk (ps s)" using d(8) by simp
  then have "?a \<in> dom (client_fd s)" using d(5) by (simp add: fds_ok_def)
  then obtain f where f: "client_fd s ?a = Some f" by blast
  let ?s = "s\<lparr>todo := as @ bs, ws := (ws s)\<lparr>hist := Close f 0 # hist (ws s)\<rparr>, ended := (?a, None) # ended s\<rparr>"
  have run: "close_client k ?a (s\<lparr>todo := as @ bs\<rparr>) = Some ?s"
    using env f by (simp add: close_client_def close_ok_def sys_close_def Let_def log_event_def)
  have "places ?s = places (s\<lparr>todo := as @ c # bs\<rparr>)"
    by (simp add: places_def parsing_def resolving_def attempting_def)
  moreover have "fds_ok ?s" using d(5) f by (simp add: fds_ok_def closed_conns_def)
  moreover have "routed opt ?s" by (rule routed_mono [OF d(9)]) (auto simp: extends_def mem_le_def)
  ultimately have "proxy_inv k mu lf opt ?s" using d by (simp add: proxy_inv_def parts_ok_def)
  with run show ?thesis by blast
qed

lemma on_parsed_inv:
  assumes inv: "proxy_inv k mu lf opt (s\<lparr>todo := as @ On_parsed a hp # bs\<rparr>)" and env: "close_ok (main_os k)"
    and t: "t \<le> dns_clock (ds s)"
  shows "\<exists>s'. on_parsed k opt t a hp (s\<lparr>todo := as @ bs\<rparr>) = Some s' \<and> proxy_inv k mu lf opt s'"
proof (cases "hp = [] \<or> \<not> IsAllowedPort opt hp")
  case True
  with close_client_inv [OF inv env] show ?thesis by (simp add: on_parsed_def)
next
  case False
  note i = proxy_invD [OF inv, simplified]
  from Resolve_ok [OF dns_reach_inv [OF i(2)], of "dns_opt opt" t hp] obtain d where
    d: "Resolve (dns_opt opt) t hp (ds s) = Some d" "dinv d" by blast
  from dns_reach_step [OF i(2) dns_step.resolve [OF t d(1)]] have r: "dns_reach (dns_opt opt) d" .
  from Resolve_frame [OF d(1)] have fr: "mem_le (ds s) d" "answers d = answers (ds s)" "requests d = requests (ds s) @ [hp]"
    by simp_all
  let ?n = "n_cb (ds s)"
  let ?s = "s\<lparr>todo := as @ bs, ds := d, dns_conn := (dns_conn s)(?n \<mapsto> a)\<rparr>"
  have run: "on_parsed k opt t a hp (s\<lparr>todo := as @ bs\<rparr>) = Some ?s" using False d(1) by (simp add: on_parsed_def)
  note c0 = dinv_cbs [OF dns_reach_inv [OF i(2)]] and c1 = dinv_cbs [OF d(2)]
  have ids: "image_mset fst (uncalled d) = add_mset ?n (image_mset fst (uncalled (ds s)))"
  proof (rule add_right_imp_eq)
    show "image_mset fst (uncalled d) + mset (map (fst \<circ> fst) (answers (ds s))) =
        add_mset ?n (image_mset fst (uncalled (ds s))) + mset (map (fst \<circ> fst) (answers (ds s)))"
      using c0 c1 fr by simp
  qed
  have "image_mset (\<lambda>j. the (((dns_conn s)(?n \<mapsto> a)) j)) (image_mset fst (uncalled (ds s))) =
      image_mset (\<lambda>j. the (dns_conn s j)) (image_mset fst (uncalled (ds s)))"
  proof (rule image_mset_cong)
    fix j
    assume "j \<in># image_mset fst (uncalled (ds s))"
    then have "j < ?n" using dinv_request [OF dns_reach_inv [OF i(2)]] by fastforce
    then show "the (((dns_conn s)(?n \<mapsto> a)) j) = the (dns_conn s j)" by simp
  qed
  then have "resolving ?s = add_mset a (resolving s)" using ids by (simp add: resolving_def)
  then have "places ?s = places (s\<lparr>todo := as @ On_parsed a hp # bs\<rparr>)"
    by (simp add: places_def parsing_def attempting_def resolving_def)
  moreover have "routed opt ?s"
  proof (rule routed_mono [OF i(9)])
    fix j b
    assume b: "dns_conn ?s j = Some b"
    have "asked opt ?s a hp" using i(9) False by (auto simp: routed_def call_ok_def asked_def)
    moreover have "dns_conn s ?n = None" using i(6) by (metis domIff lessThan_iff less_irrefl)
    moreover have "j < ?n" if "j \<noteq> ?n" using b that i(6) by auto
    ultimately show "dns_conn (s\<lparr>todo := as @ On_parsed a hp # bs\<rparr>) j = Some b \<and>
        requests (ds ?s) ! j = requests (ds (s\<lparr>todo := as @ On_parsed a hp # bs\<rparr>)) ! j \<or>
        asked opt ?s b (requests (ds ?s) ! j)"
      using b fr(3) by (cases "j = ?n") (simp_all add: nth_append)
  qed (use fr in \<open>auto simp: extends_def\<close>)
  moreover have "fds_ok ?s" using i(5) by (simp add: fds_ok_def)
  moreover have "dom (dns_conn ?s) = {..<n_cb d}" using i(6) fr(3) by auto
  ultimately have "proxy_inv k mu lf opt ?s" using i r by (simp add: proxy_inv_def parts_ok_def)
  with run show ?thesis by blast
qed

lemma on_resolved_inv:
  assumes inv: "proxy_inv k mu lf opt (s\<lparr>todo := as @ On_resolved a hp p # bs\<rparr>)" and env: "close_ok (main_os k)"
    and ce: "tid \<noteq> loop_tid (cs s)" "fresh_socket (conn_os k) (cs s)"
  shows "\<exists>s'. on_resolved k tid a p (s\<lparr>todo := as @ bs\<rparr>) = Some s' \<and> proxy_inv k mu lf opt s'"
proof (cases p)
  case None
  with close_client_inv [OF inv env] show ?thesis by (simp add: on_resolved_def)
next
  case (Some x)
  note i = proxy_invD [OF inv, simplified]
  have "call_ok opt (s\<lparr>todo := as @ On_resolved a hp p # bs\<rparr>) (On_resolved a hp p)" using i(9) by (simp add: routed_def)
  then have ask: "asked opt s a hp" and "\<exists>t. ring_of (ds s) hp t x" using Some by (simp_all add: call_ok_def asked_def ptr_ok_def)
  then obtain t xs where t: "ring_of (ds s) hp t x" "ring (ais (ds s)) xs" "x \<in> set xs" by (auto simp: ring_of_def on_ring_def)
  then obtain n ip where n: "ais (ds s) x = Some n" "Cast_addrinfo n = Some ip"
    by (auto simp: ring_def in_set_conv_nth inet_node_def Cast_addrinfo_def Cast_sockaddr_def)
  from conn_running_connect [OF i(3) ce(2,1) n(2), of a] obtain c es where
    c: "Connector_Connect (conn_os k) n ((cs s)\<lparr>cur_tid := tid\<rparr>) = Some c"
      "conn_running (conn_os k) (conn_opt opt) (c\<lparr>cur_tid := cur_tid (cs s)\<rparr>)" "hist c = es @ hist (cs s)"
      "\<And>f ip' r. Connect f ip' r \<in> set es \<Longrightarrow> ip' = ip" "\<And>i. conn_calls i es = 0"
      "brk c = Suc (brk (cs s)) \<and> connected_calls [None \<mapsto> a] es = [] \<and> (\<exists>f. attempts es = [(f, ip)]) \<or>
       brk c = brk (cs s) \<and> connected_calls [None \<mapsto> a] es = [On_connected a (- 1)] \<and> attempts es = []" by blast
  let ?b = "brk (cs s)" and ?calls = "connected_calls [None \<mapsto> a] es"
  let ?m = "if brk c = ?b then conn_conn s else (conn_conn s)(?b \<mapsto> a)"
  let ?s = "s\<lparr>todo := (as @ bs) @ ?calls, cs := c\<lparr>cur_tid := cur_tid (cs s)\<rparr>, conn_conn := ?m\<rparr>"
  have run: "on_resolved k tid a p (s\<lparr>todo := as @ bs\<rparr>) = Some ?s"
    using Some n c(1,3) by (simp add: on_resolved_def)
  have att: "attempting ?s + mset (map call_conn ?calls) = add_mset a (attempting s)"
  proof -
    let ?open = "\<lambda>n. filter_mset (\<lambda>j. conn_calls j (hist (cs s)) = 0) (mset [0..<n])"
    have "conn_calls ?b (hist (cs s)) = 0" using conn_calls_bound [OF i(3), of ?b] by simp
    then have suc: "?open (Suc ?b) = add_mset ?b (?open ?b)" by simp
    have same: "image_mset (\<lambda>j. the (((conn_conn s)(?b \<mapsto> a)) j)) (?open ?b) = image_mset (\<lambda>j. the (conn_conn s j)) (?open ?b)"
      by (intro image_mset_cong) auto
    have "attempting ?s = image_mset (\<lambda>j. the (?m j)) (?open (brk c))"
      by (simp add: attempting_def c(3,5) conn_calls_append)
    moreover have "attempting s = image_mset (\<lambda>j. the (conn_conn s j)) (?open ?b)" by (simp add: attempting_def)
    moreover have "image_mset (\<lambda>j. the (((conn_conn s)(?b \<mapsto> a)) j)) (?open (Suc ?b)) =
        add_mset a (image_mset (\<lambda>j. the (conn_conn s j)) (?open ?b))"
      unfolding suc using same by simp
    ultimately show ?thesis using c(6) by (elim disjE) (simp_all del: upt_Suc)
  qed
  then have "places ?s = places (s\<lparr>todo := as @ On_resolved a hp p # bs\<rparr>)"
    by (simp add: places_def parsing_def attempting_def resolving_def ac_simps)
  moreover have for_a: "allowed_for opt ?s a ip"
  proof -
    have "asked opt ?s a hp" "ring_of (ds ?s) hp t x" "ais (ds ?s) x = Some n" "origin (ds ?s) x = Some (hp, t)"
      using ask t(1) n by (auto simp: asked_def ring_of_def on_ring_def)
    then show ?thesis using n(2) unfolding allowed_for_def resolves_to_def by blast
  qed
  have len: "length (attempts (hist (cs s))) = ?b" using conn_running_good [OF i(3)] by (simp add: conn_good_def matched_def)
  have dom: "j < ?b" if "conn_conn s j = Some b" for j b using that i(7) by auto
  have "routed opt ?s"
  proof (rule routed_mono [OF i(9)])
    show "conn_conn (s\<lparr>todo := as @ On_resolved a hp p # bs\<rparr>) j = Some b \<and>
        attempts (hist (cs ?s)) ! j = attempts (hist (cs (s\<lparr>todo := as @ On_resolved a hp p # bs\<rparr>))) ! j \<or>
        allowed_for opt ?s b (snd (attempts (hist (cs ?s)) ! j))" if "conn_conn ?s j = Some b" for j b
    proof (cases "j < ?b")
      case True
      with that len c(3,6) show ?thesis by (auto simp: attempts_append nth_append split: if_splits)
    next
      case False
      with that dom [of j b] have "brk c \<noteq> ?b" "j = ?b" "b = a" by (auto split: if_splits)
      with c(3,6) len for_a show ?thesis by (auto simp: attempts_append nth_append)
    qed
    show "Connect f ip' r \<in> set (hist (cs (s\<lparr>todo := as @ On_resolved a hp p # bs\<rparr>))) \<or> allowed_addr opt ?s ip'"
      if "Connect f ip' r \<in> set (hist (cs ?s))" for f ip' r
    proof -
      have "allowed_addr opt ?s ip" using for_a unfolding allowed_addr_def by blast
      with that c(3) c(4) [of f ip' r] show ?thesis by auto
    qed
    show "c' \<in> set (todo (s\<lparr>todo := as @ On_resolved a hp p # bs\<rparr>)) \<or> call_ok opt ?s c'" if "c' \<in> set (todo ?s)" for c'
      using that c(6) by (auto simp: call_ok_def)
    show "extends (s\<lparr>todo := as @ On_resolved a hp p # bs\<rparr>) ?s"
      using c(3) dom by (auto simp: extends_def mem_le_def map_le_def)
  qed auto
  moreover have "fds_ok ?s" using i(5) by (simp add: fds_ok_def)
  moreover have "dom ?m = {..<brk c}" using i(7) c(6) by auto
  ultimately have "proxy_inv k mu lf opt ?s" using i c(2) by (simp add: proxy_inv_def parts_ok_def)
  with run show ?thesis by blast
qed

lemma on_connected_inv:
  assumes inv: "proxy_inv k mu lf opt (s\<lparr>todo := as @ On_connected a r # bs\<rparr>)" and env: "close_ok (main_os k)"
    and ce: "tid \<noteq> loop_tid (fs s)" "r \<ge> 0 \<longrightarrow> fresh_tunnel a r s"
  shows "\<exists>s'. on_connected k opt tid a r (s\<lparr>todo := as @ bs\<rparr>) = Some s' \<and> proxy_inv k mu lf opt s'"
proof (cases "r < 0")
  case True
  with close_client_inv [OF inv env] show ?thesis by (simp add: on_connected_def)
next
  case False
  note i = proxy_invD [OF inv, simplified]
  have "a \<in># places (s\<lparr>todo := as @ On_connected a r # bs\<rparr>)" by (simp add: places_def)
  then have "a < brk (ps s)" using i(8) by simp
  then have "a \<in> dom (client_fd s)" using i(5) by (simp add: fds_ok_def)
  then obtain c where c: "client_fd s a = Some c" by blast
  then have "c \<ge> 0" using i(5) by (auto simp: fds_ok_def)
  with c False ce fwd_running_forward [OF i(4) ce(1), of c r] obtain f where
    f: "Forwarder_Forward (fwd_os k) (fwd_opt opt) c r ((fs s)\<lparr>cur_tid := tid\<rparr>) = Some f"
      "fwd_running (fwd_os k) mu lf (fwd_opt opt) (f\<lparr>cur_tid := cur_tid (fs s)\<rparr>)" by (auto simp: fresh_tunnel_def)
  let ?s = "s\<lparr>todo := as @ bs, fs := f\<lparr>cur_tid := cur_tid (fs s)\<rparr>, ended := (a, Some r) # ended s\<rparr>"
  have run: "on_connected k opt tid a r (s\<lparr>todo := as @ bs\<rparr>) = Some ?s" using False c f by (simp add: on_connected_def)
  have "places ?s = places (s\<lparr>todo := as @ On_connected a r # bs\<rparr>)"
    by (simp add: places_def parsing_def attempting_def resolving_def)
  moreover have "given s a r" using i(9) False by (auto simp: routed_def call_ok_def given_def)
  then have "routed opt ?s" using False
    by (intro routed_mono [OF i(9)]) (auto simp: extends_def mem_le_def given_def)
  moreover have "fds_ok ?s" using i(5) by (simp add: fds_ok_def closed_conns_def)
  ultimately have "proxy_inv k mu lf opt ?s" using i f(2) by (simp add: proxy_inv_def parts_ok_def)
  with run show ?thesis by blast
qed

lemma run_call_inv:
  assumes "proxy_inv k mu lf opt s" and "close_ok (main_os k)" and "todo s = as @ c # bs" and "call_env k tid c s"
    and "t \<le> dns_clock (ds s)"
  shows "\<exists>s'. run_call k opt t tid c (s\<lparr>todo := as @ bs\<rparr>) = Some s' \<and> proxy_inv k mu lf opt s'"
proof -
  have "s\<lparr>todo := as @ c # bs\<rparr> = s" using assms(3) by simp
  with assms(1) have "proxy_inv k mu lf opt (s\<lparr>todo := as @ c # bs\<rparr>)" by simp
  with assms show ?thesis
    by (cases c) (auto dest: on_parsed_inv on_resolved_inv on_connected_inv)
qed

section \<open>Reachable states\<close>

lemma proxy_step_inv:
  assumes "proxy_step k lf opt s s'" and inv: "proxy_inv k mu lf opt s" and env: "close_ok (main_os k)"
  shows "proxy_inv k mu lf opt s'"
  using assms(1)
proof cases
  case (accept tid)
  then show ?thesis by (intro step_accept [OF inv])
next
  case (call as c bs tid t)
  from run_call_inv [OF inv env call(1-3)] call(4) show ?thesis by auto
qed (use inv in \<open>blast intro: step_parse step_resolve step_connect step_forward\<close>)+

text \<open>Starting makes and closes no sockets of clients.\<close>

lemma silent_start:
  assumes "RunProxy_start k gai now opt = Some s0"
  shows "accepted_fds (hist (ws s0)) = []" and "closed_fds (hist (ws s0)) = []"
  using assms
  by (auto simp: RunProxy_start_def set_rlimit_def Acceptor_ctor_def SetSockOpt_def sys_defs Let_def split: bind_splits sum.splits if_splits)

lemma start_inv:
  assumes "RunProxy_start k gai now opt = Some s0" and "proxy_env k mu opt"
  shows "proxy_inv k mu lf opt s0"
proof -
  from assms(1) have c: "Parser_ctor (parser_os k) (parser_opt opt) blank_parser = Some (ps s0)"
    "ds s0 = DnsResolver_ctor now" "Connector_ctor (conn_os k) (conn_opt opt) blank_connector = Some (cs s0)"
    "Forwarder_ctor (fwd_os k) (fwd_opt opt) blank_fwd = Some (fs s0)" "client_fd s0 = Map.empty"
    "dns_conn s0 = Map.empty" "conn_conn s0 = Map.empty" "todo s0 = []" "ended s0 = []"
    by (auto simp: RunProxy_start_def Let_def split: bind_splits)
  have r: "parser_running (parser_os k) (parser_opt opt) (ps s0)" "dns_reach (dns_opt opt) (ds s0)"
    "conn_running (conn_os k) (conn_opt opt) (cs s0)" "fwd_running (fwd_os k) mu lf (fwd_opt opt) (fs s0)"
    using assms(2) c dns_reach_ctor
    by (auto simp: proxy_env_def parser_running_def conn_running_def fwd_running_def
        intro: parser_reach.start conn_reach.start fwd_reach.start)
  have b: "brk (ps s0) = 0" "brk (cs s0) = 0"
    using EventLoop_ctor_result [OF c(1) [unfolded Parser_ctor_def]] EventLoop_ctor_result [OF c(3) [unfolded Connector_ctor_def]]
    by (auto simp: blank_parser_def blank_connector_def)
  have "Connect f ip r \<notin> set (hist (cs s0))" for f ip r by (rule no_attempt_Connect [OF no_attempt_ctor [OF c(3)]])
  then have "routed opt s0" using c by (auto simp: routed_def)
  have "ehs (ps s0) = Map.empty"
    using EventLoop_ctor_result [OF c(1) [unfolded Parser_ctor_def]] by (auto simp: blank_parser_def)
  moreover have "session a (hist (ps s0)) \<noteq> Some x" for a x
    using parser_running_good [OF r(1)] said_at [of "pending (ps s0)" "ps s0" a] b(1)
    by (cases x) (auto simp: parser_good_def said_at_def)
  ultimately have fb: "fd_by F (ps s0)" for F by (simp add: fd_by_def)
  show ?thesis
    using c b r silent_start [OF assms(1)] fb \<open>routed opt s0\<close>
    by (auto simp: proxy_inv_def parts_ok_def fds_ok_def closed_conns_def places_def parsing_def resolving_def
        attempting_def uncalled_def DnsResolver_ctor_def)
qed

lemma proxy_running_inv:
  assumes "proxy_running k mu lf opt s"
  shows "proxy_inv k mu lf opt s" and "close_ok (main_os k)"
proof -
  from assms obtain gai now s0 where env: "proxy_env k mu opt" and s0: "RunProxy_start k gai now opt = Some s0"
    and r: "(proxy_step k lf opt)\<^sup>*\<^sup>* s0 s" by (auto simp: proxy_running_def)
  from env show c: "close_ok (main_os k)" by (simp add: proxy_env_def)
  from r show "proxy_inv k mu lf opt s"
    by (induction rule: rtranclp_induct) (auto intro: start_inv [OF s0 env] proxy_step_inv [OF _ _ c])
qed

lemma proxy_running_step: "proxy_running k mu lf opt s \<Longrightarrow> proxy_step k lf opt s s' \<Longrightarrow> proxy_running k mu lf opt s'"
  unfolding proxy_running_def by (meson rtranclp.rtrancl_into_rtrancl)

end
