(* ===== verification/Proxy_Demo.thy ===== *)
theory Proxy_Demo
  imports Proxy_Safety
begin

text \<open>
  A complete run of the proxy on a concrete kernel: one client connects, asks for \<open>h:1\<close> in two packets, the
  host is resolved, the server connected to, and both sockets are handed to the forwarder.  The witnesses of the
  properties of the proxy use it.
\<close>

section \<open>The first client\<close>

text \<open>The kernel gives the acceptor one client, with socket \<open>5\<close>.\<close>

definition demo_kernel :: kernel where
  "demo_kernel = \<lparr>main_os = demo_os\<lparr>os_accept4 := (\<lambda>h f. Inr (5, 16, AF_INET))\<rparr>, parser_os = demo_parse_os,
     conn_os = demo_conn_os, fwd_os = demo_os\<rparr>"

lemma demo_proxy_env: "proxy_env demo_kernel demo_mu default_options"
  using demo_parse_env demo_conn_env demo_fwd_env demo_epoll_wait demo_close
  by (simp add: proxy_env_def demo_kernel_def default_options_def default_parser_options_def close_ok_def)

definition demo_proxy :: proxy where
  "demo_proxy = \<lparr>ps = demo_parser, ds = DnsResolver_ctor boot100, cs = demo_connector, fs = demo_start,
     ws = \<lparr>hist = [Listen 7 64 0, Bind 7 \<lparr>sa_family = AF_INET, sin_port = 80, sin_addr = 1\<rparr> 0,
       Setsockopt 7 SO_REUSEADDR 0, Socket (Inr 7), Ignore_sigpipe]\<rparr>, listen_fd = 7, client_fd = Map.empty,
     dns_conn = Map.empty, conn_conn = Map.empty, todo = [], ended = []\<rparr>"

lemma demo_proxy_start: "RunProxy_start demo_kernel demo_gai boot100 default_options = Some demo_proxy"
  by (simp add: RunProxy_start_def set_rlimit_def default_options_def demo_kernel_def Acceptor_ctor_def Acceptor_Resolve_def
      default_acceptor_options_def demo_gai_def SetSockOpt_def sys_defs Let_def demo_os_def Cast_sockaddr_def
      demo_parser_ctor demo_connector_ctor demo_ctor [unfolded demo_os_def] demo_proxy_def)

definition demo_client :: proxy where
  "demo_client = demo_proxy\<lparr>ws := \<lparr>hist = [Setsockopt 5 TCP_NODELAY 0, Accept4 7 (Inr (5, 16, AF_INET))] @ hist (ws demo_proxy)\<rparr>,
     ps := demo_requested, client_fd := [0 \<mapsto> 5]\<rparr>"

lemma demo_accept: "Accept (main_os demo_kernel) 7 (ws demo_proxy) = Some (5, ws demo_client)"
proof -
  have "accept_run (main_os demo_kernel) 7 (hist (ws demo_proxy)) [Setsockopt 5 TCP_NODELAY 0, Accept4 7 (Inr (5, 16, AF_INET))] 5"
    by (rule accept_run.accepted) (simp_all add: demo_kernel_def demo_os_def)
  from Accept_complete [OF this refl] show ?thesis by (simp add: demo_client_def demo_proxy_def)
qed

lemma demo_client_body: "RunProxy_body demo_kernel default_options 2 demo_proxy = Some demo_client"
  using demo_accept demo_requested_run
  by (simp add: RunProxy_body_def demo_proxy_def demo_client_def demo_kernel_def default_options_def
      demo_parser_eq demo_requested_eq)

lemma demo_client_running: "proxy_running demo_kernel demo_mu lf default_options demo_client"
proof -
  have "fresh_client demo_kernel demo_proxy"
    using demo_accept by (simp add: fresh_client_def demo_proxy_def demo_parser_eq parser_fds_def pending_def)
  then have "proxy_step demo_kernel lf default_options demo_proxy demo_client"
    by (rule proxy_step.accept [OF _ _ demo_client_body]) (simp add: demo_proxy_def demo_parser_eq)
  then show ?thesis using demo_proxy_env demo_proxy_start unfolding proxy_running_def by blast
qed

section \<open>The parser\<close>

definition demo_waiting :: parser where
  "demo_waiting = the (parser_pass demo_parse_os demo_requested)"

lemma demo_waiting_eq:
  "parser_pass demo_parse_os demo_requested = Some demo_waiting" "demo_waiting = demo_requested\<lparr>
     hist := [Clock_now 6, Epoll_ctl CTL_ADD 5 EPOLLIN (Some 0) 0, Clock_now 4,
       Epoll_wait 1 (wait_ms (Some 5000000000)) (Inr [(EPOLLIN OR EPOLLOUT, None)])] @ hist demo_parser,
     total_events := 2, events_size := 1,
     ehs := [0 \<mapsto> \<lparr>eh_fd = 5, deadline = 5000000004, event_loop = Some 0, ref_count = 1\<rparr>],
     expire := \<lparr>l_head = Some 0, l_tail = Some 0\<rparr>, sched := []\<rparr>"
  unfolding demo_waiting_def parser_pass_def Loop_body_def demo_requested_eq demo_parser_eq
  by (simp_all add: EventLoop_Add_def IncRef_def on_loop_thread_def upd_eh_def AddTail_def new_node_def
      new_list_def sys_defs EPoll_Add_def Let_def demo_parse_os_def demo_os_def registered_def
      EPoll_Wait_def report_def waited_def PopFunc_def expire_loop.simps)

text \<open>The whole request is read in two pieces.\<close>

definition demo_reads :: "event list" where
  "demo_reads = [Read 5 1019 (Inr (drop 5 demo_request)), Read 5 1024 (Inr ''CONNE'')]"

lemma demo_parse_read:
  assumes "received 5 (hist s) = []"
  shows "parse_read demo_parse_os 5 1024 [] s = Some (Some ''h:1'', demo_request, s\<lparr>hist := demo_reads @ hist s\<rparr>)"
proof -
  let ?s1 = "s\<lparr>hist := Read 5 1024 (Inr ''CONNE'') # hist s\<rparr>"
  have 1: "sys_read demo_parse_os 5 1024 s = (Inr ''CONNE'', ?s1)"
    using assms by (simp add: sys_read_def log_event_def demo_parse_os_def Let_def)
  have 2: "sys_read demo_parse_os 5 1019 ?s1 = (Inr (drop 5 demo_request), s\<lparr>hist := demo_reads @ hist s\<rparr>)"
    using assms by (simp add: sys_read_def log_event_def demo_parse_os_def Let_def demo_reads_def demo_request_def CRLFCRLF_def)
  have 3: "parse_chunk 1024 [] ''CONNE'' = Some (None, ''CONNE'')" by code_simp
  have 4: "parse_chunk 1024 ''CONNE'' (drop 5 demo_request) = Some (Some ''h:1'', demo_request)" by code_simp
  have 5: "length (drop 5 demo_request) = 12" by code_simp
  show ?thesis
    using parse_read.simps [of demo_parse_os 5 1024 "[]" s] parse_read.simps [of demo_parse_os 5 1024 "''CONNE''" ?s1] 1 2 3 4 5
    by simp
qed

lemma demo_OnEvent:
  assumes "s = demo_waiting\<lparr>hist := Epoll_wait 2 ms r # hist demo_waiting, events_size := 2,
     ehs := [0 \<mapsto> \<lparr>eh_fd = 5, deadline = 5000000004, event_loop = Some 0, ref_count = 2\<rparr>]\<rparr>"
  shows "Parse_OnEvent demo_parse_os 0 (EPOLLIN OR EPOLLOUT) s = Some (s\<lparr>
     hist := [Parser_callback 0 ''h:1'', Epoll_ctl CTL_DEL 5 0 None 0] @ demo_reads @ hist s, total_events := 1,
     ehs := [0 \<mapsto> \<lparr>eh_fd = 5, deadline = 5000000004, event_loop = None, ref_count = 1\<rparr>],
     expire := new_list, phs := [0 \<mapsto> \<lparr>ph_cap = 1024, ph_content = demo_request\<rparr>]\<rparr>)"
proof -
  have "received 5 (hist s) = []" by (simp add: assms demo_waiting_eq(2) demo_requested_eq demo_parser_eq)
  note rd = demo_parse_read [OF this]
  have "Parse_Read demo_parse_os 0 s = Some (Some ''h:1'', s\<lparr>hist := demo_reads @ hist s, phs := [0 \<mapsto> \<lparr>ph_cap = 1024, ph_content = demo_request\<rparr>]\<rparr>)"
    using rd by (simp add: Parse_Read_def) (simp add: assms demo_waiting_eq(2) demo_requested_eq demo_parser_eq)
  moreover have "\<not> HasBits (EPOLLIN OR EPOLLOUT) EPOLLERR" "HasBits (EPOLLIN OR EPOLLOUT) EPOLLIN" by code_simp+
  ultimately show ?thesis 
    by (simp add: Parse_OnEvent_def assms demo_waiting_eq(2) demo_requested_eq demo_parser_eq Parse_Finish_def EventLoop_Remove_def
     Erase_def on_loop_thread_def EPoll_Remove_def upd_eh_def DecRef_def sys_defs Let_def new_node_def new_list_def demo_parse_os_def demo_os_def demo_reads_def)
qed

definition demo_parsed :: parser where
  "demo_parsed = the (parser_pass demo_parse_os demo_waiting)"

lemma demo_parsed_eq:
  "parser_pass demo_parse_os demo_waiting = Some demo_parsed" "hist demo_parsed = [Parser_callback 0 ''h:1'', Epoll_ctl CTL_DEL 5 0 None 0] @ demo_reads @
     [Epoll_wait 2 (wait_ms (Some 5000000000)) (Inr [(EPOLLIN OR EPOLLOUT, Some 0)])] @ hist demo_waiting"
proof -
  let ?e = "Epoll_wait 2 (wait_ms (Some 5000000000)) (Inr [(EPOLLIN OR EPOLLOUT, Some 0)])"
  let ?w = "demo_waiting\<lparr>hist := ?e # hist demo_waiting, events_size := 2\<rparr>"
  let ?s = "?w\<lparr>ehs := [0 \<mapsto> \<lparr>eh_fd = 5, deadline = 5000000004, event_loop = Some 0, ref_count = 2\<rparr>]\<rparr>"
  have 1: "EPoll_Wait demo_parse_os (Some 5000000000) demo_waiting = Some ([(EPOLLIN OR EPOLLOUT, Some 0)], ?w)"
    by (simp add: EPoll_Wait_def sys_defs demo_waiting_eq(2) demo_requested_eq demo_parser_eq Let_def demo_parse_os_def demo_os_def report_def waited_def)
  have 2: "IncRef 0 ?w = Some ?s"
    by (simp add: IncRef_def upd_eh_def demo_waiting_eq(2) demo_requested_eq demo_parser_eq)
  have ev: "ehs ?s 0 = Some \<lparr>eh_fd = 5, deadline = 5000000004, event_loop = Some 0, ref_count = 2\<rparr>" "self ?s = 0" "timeout demo_waiting = 5000000000"
    by (simp_all add: demo_waiting_eq(2) demo_requested_eq demo_parser_eq)
  show "parser_pass demo_parse_os demo_waiting = Some demo_parsed" "hist demo_parsed = [Parser_callback 0 ''h:1'', Epoll_ctl CTL_DEL 5 0 None 0] @ demo_reads @ [?e] @ hist demo_waiting"
    unfolding demo_parsed_def parser_pass_def Loop_body_def
    using 1 2 ev demo_OnEvent [of ?s "wait_ms (Some 5000000000)" "Inr [(EPOLLIN OR EPOLLOUT, Some 0)]"]
    by (simp_all add: handle_event_def DecRef_def delete_EventHandler_def Parse_dtor_def expire_loop_empty new_list_def)
qed

section \<open>The connector\<close>

definition demo_attempting :: connector where
  "demo_attempting = the (conn_pass demo_conn_os demo_connecting)"

lemma demo_attempting_eq:
  "conn_pass demo_conn_os demo_connecting = Some demo_attempting" "demo_attempting = demo_connecting\<lparr>
     hist := [Clock_now 9, Epoll_ctl CTL_ADD 9 EPOLLOUT (Some 0) 0, Clock_now 7,
       Epoll_wait 1 (wait_ms (Some 10000000000)) (Inr [(EPOLLIN OR EPOLLOUT, None)])] @ hist demo_connecting,
     total_events := 2, events_size := 1,
     ehs := [0 \<mapsto> \<lparr>eh_fd = 9, deadline = 10000000007, event_loop = Some 0, ref_count = 1\<rparr>],
     expire := \<lparr>l_head = Some 0, l_tail = Some 0\<rparr>, sched := []\<rparr>"
  unfolding demo_attempting_def conn_pass_def Loop_body_def demo_connecting_eq demo_connector_eq
  by (simp_all add: EventLoop_Add_def IncRef_def on_loop_thread_def upd_eh_def AddTail_def new_node_def
      new_list_def sys_defs EPoll_Add_def Let_def demo_conn_os_def demo_os_def registered_def
      EPoll_Wait_def report_def waited_def PopFunc_def expire_loop.simps)

lemma demo_conn_OnEvent:
  assumes "s = demo_attempting\<lparr>hist := Epoll_wait 2 ms r # hist demo_attempting, events_size := 2,
     ehs := [0 \<mapsto> \<lparr>eh_fd = 9, deadline = 10000000007, event_loop = Some 0, ref_count = 2\<rparr>]\<rparr>"
  shows "Connect_OnEvent demo_conn_os 0 (EPOLLIN OR EPOLLOUT) s = Some (s\<lparr>
     hist := [Connector_callback (Some 0) 9, Epoll_ctl CTL_DEL 9 0 None 0, Getsockopt 9 (Inr (0, 4))] @ hist s, total_events := 1,
     ehs := [0 \<mapsto> \<lparr>eh_fd = 9, deadline = 10000000007, event_loop = None, ref_count = 1\<rparr>],
     expire := new_list\<rparr>)"
proof -
  have "\<not> HasBits (EPOLLIN OR EPOLLOUT) EPOLLERR" "HasBits (EPOLLIN OR EPOLLOUT) EPOLLOUT" by code_simp+
  then show ?thesis 
    by (simp add: Connect_OnEvent_def assms demo_attempting_eq(2) demo_connecting_eq demo_connector_eq Connect_Finish_def SockError_def EventLoop_Remove_def
     Erase_def on_loop_thread_def EPoll_Remove_def upd_eh_def DecRef_def sys_defs Let_def new_node_def new_list_def demo_conn_os_def demo_os_def)
qed

definition demo_connected :: connector where
  "demo_connected = the (conn_pass demo_conn_os demo_attempting)"

lemma demo_connected_eq:
  "conn_pass demo_conn_os demo_attempting = Some demo_connected" "hist demo_connected =
     [Connector_callback (Some 0) 9, Epoll_ctl CTL_DEL 9 0 None 0, Getsockopt 9 (Inr (0, 4)),
      Epoll_wait 2 (wait_ms (Some 10000000000)) (Inr [(EPOLLIN OR EPOLLOUT, Some 0)])] @ hist demo_attempting"
proof -
  let ?e = "Epoll_wait 2 (wait_ms (Some 10000000000)) (Inr [(EPOLLIN OR EPOLLOUT, Some 0)])"
  let ?w = "demo_attempting\<lparr>hist := ?e # hist demo_attempting, events_size := 2\<rparr>"
  let ?s = "?w\<lparr>ehs := [0 \<mapsto> \<lparr>eh_fd = 9, deadline = 10000000007, event_loop = Some 0, ref_count = 2\<rparr>]\<rparr>"
  have 1: "EPoll_Wait demo_conn_os (Some 10000000000) demo_attempting = Some ([(EPOLLIN OR EPOLLOUT, Some 0)], ?w)"
    by (simp add: EPoll_Wait_def sys_defs demo_attempting_eq(2) demo_connecting_eq demo_connector_eq Let_def demo_conn_os_def demo_os_def report_def waited_def)
  have 2: "IncRef 0 ?w = Some ?s"
    by (simp add: IncRef_def upd_eh_def demo_attempting_eq(2) demo_connecting_eq demo_connector_eq)
  have ev: "self ?s = 0" "timeout demo_attempting = 10000000000"
    by (simp_all add: demo_attempting_eq(2) demo_connecting_eq demo_connector_eq)
  show "conn_pass demo_conn_os demo_attempting = Some demo_connected" "hist demo_connected =
     [Connector_callback (Some 0) 9, Epoll_ctl CTL_DEL 9 0 None 0, Getsockopt 9 (Inr (0, 4)), ?e] @ hist demo_attempting"
    unfolding demo_connected_def conn_pass_def Loop_body_def
    using 1 2 ev demo_conn_OnEvent [of ?s "wait_ms (Some 10000000000)" "Inr [(EPOLLIN OR EPOLLOUT, Some 0)]"]
    by (simp_all add: handle_event_def DecRef_def delete_EventHandler_def Connect_dtor_def expire_loop_empty new_list_def)
qed

section \<open>The whole run\<close>

lemma resolved_calls_append: "resolved_calls m (xs @ ys) = resolved_calls m ys @ resolved_calls m xs"
  by (induction xs) auto

lemma dns_steps_grow: "(dns_step opt)\<^sup>*\<^sup>* d d' \<Longrightarrow> suffix (answers d) (answers d') \<and> prefix (requests d) (requests d')"
proof (induction rule: rtranclp_induct)
  case (step y z)
  from dns_step_grows [OF step.hyps(2)] step.IH show ?case
    unfolding grows_def by (meson prefix_order.trans suffix_order.trans)
qed simp

lemma proxy_dns_steps:
  assumes "(dns_step (dns_opt opt))\<^sup>*\<^sup>* (ds s) d" and "n_cb d = n_cb (ds s)" and "proxy_running k mu lf opt s"
  shows "proxy_running k mu lf opt
    (s\<lparr>ds := d, todo := todo s @ resolved_calls (dns_conn s) (new_since (answers (ds s)) (answers d))\<rparr>)"
  using assms(1,2)
proof (induction rule: rtranclp_induct)
  case base
  then show ?case using assms(3) by (simp add: new_since_def)
next
  case (step y z)
  let ?s = "\<lambda>d. s\<lparr>ds := d, todo := todo s @ resolved_calls (dns_conn s) (new_since (answers (ds s)) (answers d))\<rparr>"
  from dns_steps_grow [OF step.hyps(1)] obtain xs where xs: "answers y = xs @ answers (ds s)" "n_cb (ds s) \<le> n_cb y"
    by (auto simp: suffix_def prefix_def)
  from dns_step_grows [OF step.hyps(2)] obtain ys where ys: "answers z = ys @ answers y" "n_cb y \<le> n_cb z"
    by (auto simp: grows_def suffix_def prefix_def)
  have n: "n_cb y = n_cb (ds s)" "n_cb z = n_cb (ds (?s y))" using xs(2) ys(2) step.prems by simp_all
  have "proxy_step k lf opt (?s y) ((?s y)\<lparr>ds := z, todo := todo (?s y) @ resolved_calls (dns_conn (?s y)) (new_since (answers (ds (?s y))) (answers z))\<rparr>)"
    by (rule proxy_step.resolve [OF _ n(2)]) (simp add: step.hyps(2))
  then have "proxy_step k lf opt (?s y) (?s z)"
    using xs(1) ys(1) by (simp add: resolved_calls_append new_since_append [of _ "ys @ xs", simplified])
  from proxy_running_step [OF step.IH [OF n(1)] this] show ?case .
qed

definition demo_tunnel :: proxy where
  "demo_tunnel = demo_client\<lparr>ps := demo_parsed, ds := demo_answered, cs := demo_connected, fs := schedule_link 5 9 demo_start,
     dns_conn := [0 \<mapsto> 0], conn_conn := [0 \<mapsto> 0], ended := [(0, Some 9)]\<rparr>"

lemma demo_parse_steps:
  "proxy_running demo_kernel demo_mu lf default_options (demo_client\<lparr>ps := demo_parsed, todo := [On_parsed 0 ''h:1'']\<rparr>)"
proof -
  let ?s1 = "demo_client\<lparr>ps := demo_waiting\<rparr>"
  have w: "wakeup_ok (parser_os demo_kernel) (ps demo_client)" "wakeup_ok (parser_os demo_kernel) (ps ?s1)"
    using demo_parser_wakeup
    by (simp_all add: demo_client_def demo_kernel_def wakeup_ok_def demo_waiting_eq(2) demo_requested_eq demo_parser_eq
        demo_parse_os_def demo_os_def report_def waited_def)
  have p: "parser_pass (parser_os demo_kernel) (ps demo_client) = Some demo_waiting"
    "parser_pass (parser_os demo_kernel) (ps ?s1) = Some demo_parsed"
    using demo_waiting_eq(1) demo_parsed_eq(1) by (simp_all add: demo_client_def demo_kernel_def)
  have h: "hist demo_waiting = [Clock_now 6, Epoll_ctl CTL_ADD 5 EPOLLIN (Some 0) 0, Clock_now 4,
       Epoll_wait 1 (wait_ms (Some 5000000000)) (Inr [(EPOLLIN OR EPOLLOUT, None)])] @ hist (ps demo_client)"
    by (simp add: demo_waiting_eq(2) demo_client_def demo_requested_eq demo_parser_eq)
  have "todo demo_client @ parsed_calls (new_since (hist (ps demo_client)) (hist demo_waiting)) = []"
    unfolding h new_since_append by (simp add: demo_client_def demo_proxy_def)
  with proxy_step.parse [OF w(1) p(1), of lf default_options]
  have "proxy_step demo_kernel lf default_options demo_client ?s1" by (simp add: demo_client_def demo_proxy_def)
  note 1 = proxy_running_step [OF demo_client_running this]
  have "todo ?s1 @ parsed_calls (new_since (hist (ps ?s1)) (hist demo_parsed)) = [On_parsed 0 ''h:1'']"
    using demo_parsed_eq(2) new_since_append [of "hist demo_waiting"
      "[Parser_callback 0 ''h:1'', Epoll_ctl CTL_DEL 5 0 None 0] @ demo_reads @ [Epoll_wait 2 (wait_ms (Some 5000000000)) (Inr [(EPOLLIN OR EPOLLOUT, Some 0)])]"]
    by (simp add: demo_client_def demo_proxy_def demo_reads_def)
  with proxy_step.parse [OF w(2) p(2), of lf default_options]
  have "proxy_step demo_kernel lf default_options ?s1 (demo_client\<lparr>ps := demo_parsed, todo := [On_parsed 0 ''h:1'']\<rparr>)"
    by simp
  from proxy_running_step [OF 1 this] show ?thesis .
qed

lemma demo_resolve_steps:
  "proxy_running demo_kernel demo_mu lf default_options (demo_client\<lparr>ps := demo_parsed, ds := demo_answered,
     dns_conn := [0 \<mapsto> 0], todo := [On_resolved 0 ''h:1'' (Some 0)]\<rparr>)"
proof -
  let ?s = "demo_client\<lparr>ps := demo_parsed, ds := demo_resolving, dns_conn := [0 \<mapsto> 0]\<rparr>"
  have t: "todo (demo_client\<lparr>ps := demo_parsed, todo := [On_parsed 0 ''h:1'']\<rparr>) = [] @ On_parsed 0 ''h:1'' # []" by simp
  have al: "IsAllowedPort default_options ''h:1''"
    by (simp add: IsAllowedPort_def default_options_def sv_find_def find_first_of_def Let_def)
  have "run_call demo_kernel default_options boot100 2 (On_parsed 0 ''h:1'') (demo_client\<lparr>ps := demo_parsed, todo := [] @ []\<rparr>) = Some ?s"
    using demo_resolving_run al
    by (simp add: on_parsed_def demo_client_def demo_proxy_def default_options_def) (simp add: DnsResolver_ctor_def fun_upd_def)
  then have "proxy_step demo_kernel lf default_options (demo_client\<lparr>ps := demo_parsed, todo := [On_parsed 0 ''h:1'']\<rparr>) ?s"
    by (intro proxy_step.call [OF t, of _ 2 boot100]) (simp_all add: demo_client_def demo_proxy_def DnsResolver_ctor_def)
  note 1 = proxy_running_step [OF demo_parse_steps this]
  have "(dns_step default_dns_options)\<^sup>*\<^sup>* demo_resolving demo_answered"
    using demo_begin_steps demo_answered_steps by (rule rtranclp_trans)
  then have "(dns_step (dns_opt default_options))\<^sup>*\<^sup>* (ds ?s) demo_answered" by (simp add: default_options_def)
  from proxy_dns_steps [OF this _ 1] show ?thesis
    by (simp add: demo_resolving_def demo_answered_def demo_begin_def DnsResolver_ctor_def new_since_def demo_client_def demo_proxy_def)
qed

lemma demo_connect_steps:
  "proxy_running demo_kernel demo_mu lf default_options (demo_client\<lparr>ps := demo_parsed, ds := demo_answered, cs := demo_connected,
     dns_conn := [0 \<mapsto> 0], conn_conn := [0 \<mapsto> 0], todo := [On_connected 0 9]\<rparr>)"
proof -
  let ?s0 = "demo_client\<lparr>ps := demo_parsed, ds := demo_answered, dns_conn := [0 \<mapsto> 0]\<rparr>"
  let ?s1 = "?s0\<lparr>cs := demo_connecting, conn_conn := [0 \<mapsto> 0]\<rparr>"
  let ?n = "\<lparr>ai_addr = Some \<lparr>sa_family = AF_INET, sin_port = 80, sin_addr = 1\<rparr>, ai_next = Some 0\<rparr>"
  have t: "todo (?s0\<lparr>todo := [On_resolved 0 ''h:1'' (Some 0)]\<rparr>) = [] @ On_resolved 0 ''h:1'' (Some 0) # []" by simp
  have c: "Connector_Connect demo_conn_os ?n (demo_connector\<lparr>cur_tid := 2\<rparr>) = Some (demo_connecting\<lparr>cur_tid := 2\<rparr>)"
  proof -
    have "Cast_addrinfo ?n = Cast_addrinfo demo_addr" by (simp add: demo_addr_def Cast_addrinfo_def)
    then have "ConnectAsync demo_conn_os ?n (demo_connector\<lparr>cur_tid := 2\<rparr>) =
        ConnectAsync demo_conn_os demo_addr (demo_connector\<lparr>cur_tid := 2\<rparr>)"
      by (simp only: ConnectAsync_def)
    then show ?thesis using demo_connecting_run unfolding Connector_Connect_def by simp
  qed
  have h: "hist demo_connecting = [Connect 9 \<lparr>sa_family = AF_INET, sin_port = 80, sin_addr = 1\<rparr> EINPROGRESS,
      Setsockopt 9 TCP_NODELAY 0, Socket (Inr 9)] @ hist demo_connector" by (simp add: demo_connecting_eq)
  have "run_call demo_kernel default_options boot100 2 (On_resolved 0 ''h:1'' (Some 0)) (?s0\<lparr>todo := [] @ []\<rparr>) = Some ?s1"
    using c new_since_append [of "hist demo_connector" "[Connect 9 \<lparr>sa_family = AF_INET, sin_port = 80, sin_addr = 1\<rparr> EINPROGRESS,
      Setsockopt 9 TCP_NODELAY 0, Socket (Inr 9)]"]
    by (simp add: on_resolved_def demo_client_def demo_proxy_def demo_answered_def demo_kernel_def Cast_addrinfo_def Cast_sockaddr_def
        h) (simp add: demo_connecting_eq demo_connector_eq fun_upd_def)
  moreover have "fresh_socket (conn_os demo_kernel) (cs ?s0)"
    by (simp add: fresh_socket_def conn_fds_def connecting_def demo_kernel_def demo_client_def demo_proxy_def demo_connector_eq demo_conn_os_def)
  ultimately have "proxy_step demo_kernel lf default_options (?s0\<lparr>todo := [On_resolved 0 ''h:1'' (Some 0)]\<rparr>) ?s1"
    by (intro proxy_step.call [OF t, of _ 2 boot100])
      (simp_all add: demo_client_def demo_proxy_def demo_connector_eq demo_answered_def demo_begin_def DnsResolver_ctor_def)
  then have 1: "proxy_running demo_kernel demo_mu lf default_options ?s1"
    using proxy_running_step [OF demo_resolve_steps] by blast
  let ?s2 = "?s1\<lparr>cs := demo_attempting\<rparr>"
  have w: "wakeup_ok (conn_os demo_kernel) (cs ?s1)" "wakeup_ok (conn_os demo_kernel) (cs ?s2)"
    using demo_conn_wakeup
    by (simp_all add: demo_kernel_def wakeup_ok_def demo_attempting_eq(2) demo_connecting_eq demo_connector_eq
        demo_conn_os_def demo_os_def report_def waited_def)
  have p: "conn_pass (conn_os demo_kernel) (cs ?s1) = Some demo_attempting"
    "conn_pass (conn_os demo_kernel) (cs ?s2) = Some demo_connected"
    using demo_attempting_eq(1) demo_connected_eq(1) by (simp_all add: demo_kernel_def)
  have h1: "hist demo_attempting = [Clock_now 9, Epoll_ctl CTL_ADD 9 EPOLLOUT (Some 0) 0, Clock_now 7,
       Epoll_wait 1 (wait_ms (Some 10000000000)) (Inr [(EPOLLIN OR EPOLLOUT, None)])] @ hist (cs ?s1)"
    by (simp add: demo_attempting_eq(2))
  have "todo ?s1 @ connected_calls (\<lambda>p. Option.bind p (conn_conn ?s1)) (new_since (hist (cs ?s1)) (hist demo_attempting)) = []"
    unfolding h1 new_since_append by (simp add: demo_client_def demo_proxy_def)
  with proxy_step.connect [OF w(1) p(1), of lf default_options]
  have "proxy_step demo_kernel lf default_options ?s1 ?s2" by (simp add: demo_client_def demo_proxy_def)
  note 2 = proxy_running_step [OF 1 this]
  have "todo ?s2 @ connected_calls (\<lambda>p. Option.bind p (conn_conn ?s2)) (new_since (hist (cs ?s2)) (hist demo_connected)) = [On_connected 0 9]"
    using demo_connected_eq(2) new_since_append [of "hist demo_attempting" "[Connector_callback (Some 0) 9, Epoll_ctl CTL_DEL 9 0 None 0,
      Getsockopt 9 (Inr (0, 4)), Epoll_wait 2 (wait_ms (Some 10000000000)) (Inr [(EPOLLIN OR EPOLLOUT, Some 0)])]"]
    by (simp add: demo_client_def demo_proxy_def)
  with proxy_step.connect [OF w(2) p(2), of lf default_options]
  have "proxy_step demo_kernel lf default_options ?s2 (?s1\<lparr>cs := demo_connected, todo := [On_connected 0 9]\<rparr>)" by simp
  from proxy_running_step [OF 2 this] show ?thesis by (simp add: demo_client_def demo_proxy_def)
qed

lemma demo_tunnel_running: "proxy_running demo_kernel demo_mu lf default_options demo_tunnel"
proof -
  let ?s = "demo_client\<lparr>ps := demo_parsed, ds := demo_answered, cs := demo_connected, dns_conn := [0 \<mapsto> 0], conn_conn := [0 \<mapsto> 0]\<rparr>"
  have t: "todo (?s\<lparr>todo := [On_connected 0 9]\<rparr>) = [] @ On_connected 0 9 # []" by simp
  have "run_call demo_kernel default_options boot100 2 (On_connected 0 9) (?s\<lparr>todo := [] @ []\<rparr>) = Some demo_tunnel"
  proof -
    have "Forwarder_Forward (fwd_os demo_kernel) (fwd_opt default_options) 5 9 (demo_start\<lparr>cur_tid := 2\<rparr>) =
        Some ((schedule_link 5 9 demo_start)\<lparr>cur_tid := 2\<rparr>)"
      by (subst Forwarder_Forward_iff) (simp_all add: demo_start_eq)
    then show ?thesis
      by (simp add: on_connected_def demo_tunnel_def demo_client_def demo_proxy_def) (simp add: demo_start_eq schedule_link_def)
  qed
  moreover have "fresh_tunnel 0 9 (?s\<lparr>todo := [On_connected 0 9]\<rparr>)"
    by (simp add: fresh_tunnel_def fwd_fds_def demo_client_def demo_proxy_def demo_start_eq)
  ultimately have "proxy_step demo_kernel lf default_options (?s\<lparr>todo := [On_connected 0 9]\<rparr>) demo_tunnel"
    by (intro proxy_step.call [OF t, of _ 2 boot100])
      (simp_all add: demo_client_def demo_proxy_def demo_start_eq demo_answered_def demo_begin_def DnsResolver_ctor_def)
  with proxy_running_step [OF demo_connect_steps] show ?thesis by simp
qed

end
