(* ===== verification/Proxy_Tunnels.thy ===== *)
theory Proxy_Tunnels
  imports Proxy_Demo Forwarder_Pairs
begin

text \<open>
  The tunnels of the forwarder inside the proxy: each joins the sockets of one connection, so what the
  parts guarantee together holds from the accepted client to the server it asked for.
\<close>

section \<open>Tunnels belong to connections\<close>

definition joins :: "proxy \<Rightarrow> fd \<Rightarrow> fd \<Rightarrow> bool" where
  "joins s c d \<longleftrightarrow> (\<exists>a. client_fd s a = Some c \<and> (a, Some d) \<in> set (ended s))"

definition tunnels_ok :: "proxy \<Rightarrow> bool" where
  "tunnels_ok s \<longleftrightarrow> paired (joins s) (fs s)"

lemma joins_mono:
  assumes "joins s c d" and "client_fd s \<subseteq>\<^sub>m client_fd s'" and "set (ended s) \<subseteq> set (ended s')"
  shows "joins s' c d"
  using assms unfolding joins_def map_le_def by (metis domI subset_iff)

text \<open>Steps of the proxy that leave the forwarder alone.\<close>

lemma tunnels_ok_same:
  assumes "tunnels_ok s" and "fs s' = fs s" and "client_fd s \<subseteq>\<^sub>m client_fd s'" and "set (ended s) \<subseteq> set (ended s')"
  shows "tunnels_ok s'"
  using assms(1) joins_mono [OF _ assms(3,4)] unfolding tunnels_ok_def assms(2) by (rule paired_mono)

lemma close_client_keeps:
  assumes "close_client k a s = Some s'"
  shows "fs s' = fs s" "client_fd s' = client_fd s" "set (ended s) \<subseteq> set (ended s')"
  using assms by (auto simp: close_client_def sys_close_def Let_def split: bind_splits if_splits)

lemma on_connected_tunnels:
  assumes run: "on_connected k opt tid a d s = Some s'" and t: "tunnels_ok s" and tid: "tid \<noteq> loop_tid (fs s)"
  shows "tunnels_ok s'"
proof (cases "d < 0")
  case True
  with run have "close_client k a s = Some s'" by (simp add: on_connected_def)
  from close_client_keeps [OF this] show ?thesis by (intro tunnels_ok_same [OF t]) simp_all
next
  case False
  with run obtain c f where 1: "client_fd s a = Some c"
    "Forwarder_Forward (fwd_os k) (fwd_opt opt) c d ((fs s)\<lparr>cur_tid := tid\<rparr>) = Some f"
    "s' = s\<lparr>fs := f\<lparr>cur_tid := cur_tid (fs s)\<rparr>, ended := (a, Some d) # ended s\<rparr>"
    by (auto simp: on_connected_def split: bind_splits)
  have "paired (joins s') (fs s)"
    using t unfolding tunnels_ok_def by (rule paired_mono) (erule joins_mono, auto simp: 1(3))
  moreover have "joins s' c d" using 1(1,3) by (auto simp: joins_def)
  ultimately show ?thesis using paired_forward [OF 1(2) tid] by (simp add: tunnels_ok_def 1(3))
qed

lemma run_call_tunnels:
  assumes "run_call k opt t tid c s = Some s'" and "call_env k tid c s0" and "fs s = fs s0" and "tunnels_ok s"
  shows "tunnels_ok s'"
proof (cases c)
  case (On_parsed a hp)
  with assms(1) show ?thesis
    by (auto simp: on_parsed_def split: if_splits bind_splits dest: close_client_keeps intro!: tunnels_ok_same [OF assms(4)])
next
  case (On_resolved a hp p)
  with assms(1) show ?thesis
    by (auto simp: on_resolved_def split: option.splits bind_splits dest: close_client_keeps intro!: tunnels_ok_same [OF assms(4)])
next
  case (On_connected a d)
  with assms show ?thesis by (intro on_connected_tunnels [OF _ assms(4)]) auto
qed

lemma proxy_step_tunnels:
  assumes "proxy_step k lf opt s s'" and inv: "proxy_inv k mu lf opt s" and t: "tunnels_ok s"
  shows "tunnels_ok s'"
  using assms(1)
proof cases
  case (accept tid)
  then obtain f w p where s': "s' = s\<lparr>ws := w, ps := p, client_fd := (client_fd s)(brk (ps s) \<mapsto> f)\<rparr>"
    by (auto simp: RunProxy_body_def split: bind_splits)
  have "client_fd s (brk (ps s)) = None" using proxy_invD(5) [OF inv] by (auto simp: fds_ok_def)
  then have "client_fd s \<subseteq>\<^sub>m client_fd s'" by (auto simp: s' map_le_def)
  then show ?thesis by (rule tunnels_ok_same [OF t, rotated]) (simp_all add: s')
next
  case (forward f)
  have "joins s' = joins s" by (simp add: fun_eq_iff joins_def forward(1))
  moreover have "paired (joins s) f"
    using fwd_pass_paired [OF proxy_invD(4) [OF inv] forward(2,3)] t by (simp add: tunnels_ok_def)
  ultimately show ?thesis by (simp add: tunnels_ok_def forward(1))
next
  case (call as c bs tid t')
  have "tunnels_ok (s\<lparr>todo := as @ bs\<rparr>)" by (rule tunnels_ok_same [OF t]) simp_all
  then show ?thesis by (rule run_call_tunnels [OF call(4,2), rotated]) simp
qed (auto intro!: tunnels_ok_same [OF t])

lemma proxy_running_tunnels:
  assumes "proxy_running k mu lf opt s"
  shows "tunnels_ok s"
proof -
  from assms obtain gai now s0 where env: "proxy_env k mu opt" and s0: "RunProxy_start k gai now opt = Some s0"
    and r: "(proxy_step k lf opt)\<^sup>*\<^sup>* s0 s" by (auto simp: proxy_running_def)
  from r have "tunnels_ok s \<and> proxy_inv k mu lf opt s"
  proof (induction rule: rtranclp_induct)
    case base
    from s0 have "Forwarder_ctor (fwd_os k) (fwd_opt opt) blank_fwd = Some (fs s0)"
      by (auto simp: RunProxy_start_def Let_def split: bind_splits)
    then show ?case using start_inv [OF s0 env] by (simp add: tunnels_ok_def paired_ctor(1))
  next
    case (step y z)
    have "close_ok (main_os k)" using env by (simp add: proxy_env_def)
    with step show ?case using proxy_step_tunnels [OF step(2)] proxy_step_inv [OF step(2)] by blast
  qed
  then show ?thesis ..
qed

section \<open>A tunnel on the heap\<close>

text \<open>The run of \<open>demo_tunnel\<close> goes on with a pass of the forwarder, which makes the links.\<close>

lemma demo_linked:
  "\<exists>s l. proxy_running demo_kernel demo_mu True default_options s \<and> links (fs s) 0 = Some l \<and> is_client l \<and>
     client_fd s = client_fd demo_tunnel \<and> ended s = ended demo_tunnel"
proof -
  have o: "fwd_os demo_kernel = demo_os" "fwd_opt default_options = default_fwd_options" "fs demo_tunnel = schedule_link 5 9 demo_start"
    by (simp_all add: demo_kernel_def default_options_def demo_tunnel_def)
  from demo_pass [of 9 True] obtain f l where f: "fwd_pass demo_os True default_fwd_options (schedule_link 5 9 demo_start) = Some f"
    "links f 0 = Some l" "is_client l" by auto
  have "wakeup_ok demo_os (schedule_link 5 9 demo_start)" by (simp add: wakeup_ok_def schedule_link_def)
  with f(1) have "proxy_step demo_kernel True default_options demo_tunnel (demo_tunnel\<lparr>fs := f\<rparr>)"
    by (intro proxy_step.forward) (simp_all add: o)
  from proxy_running_step [OF demo_tunnel_running this] f show ?thesis
    by (intro exI [of _ "demo_tunnel\<lparr>fs := f\<rparr>"] exI [of _ l]) simp
qed

end
