(* ===== verification/Proxy_Correct.thy ===== *)
theory Proxy_Correct
  imports Proxy_Tunnels
begin

text \<open>
  What the proxy guarantees as a whole: no client is lost or served twice, nothing aborts, and
  connections are made only where the options allow it.
\<close>

section \<open>Ports\<close>

lemma colon_c_str:
  assumes "length (takeWhile (\<lambda>x. x \<noteq> c) (takeWhile P s)) < length (takeWhile P s)"
  shows "takeWhile (\<lambda>x. x \<noteq> c) s = takeWhile (\<lambda>x. x \<noteq> c) (takeWhile P s)"
  using assms by (induction s) (auto split: if_splits)

lemma drop_takeWhile:
  assumes "n \<le> length (takeWhile P s)"
  shows "drop n (takeWhile P s) = takeWhile P (drop n s)"
  using assms by (induction s arbitrary: n) (auto simp: drop_Cons split: if_splits nat.splits)

lemma port_of_c_str:
  assumes "strchr (c_str hp) (CHR '':'') = Some p"
  shows "sv_find hp (CHR '':'') = Some p \<and> drop (p + 1) (c_str hp) = c_str (drop (p + 1) hp)"
proof -
  have p: "p = length (takeWhile (\<lambda>x. x \<noteq> CHR '':'') (c_str hp))" "p < length (c_str hp)"
    using assms by (auto simp: strchr_def Let_def split: if_splits)
  have "takeWhile (\<lambda>x. x \<noteq> CHR '':'') hp = takeWhile (\<lambda>x. x \<noteq> CHR '':'') (c_str hp)"
    using colon_c_str p unfolding c_str_def by metis
  moreover have "p < length hp" using p(2) length_takeWhile_le unfolding c_str_def by (metis order_less_le_trans)
  ultimately have "sv_find hp (CHR '':'') = Some p" using p(1) by (simp add: sv_find_def find_first_of_def Let_def)
  then show ?thesis using p(2) drop_takeWhile [of "p + 1" "\<lambda>c. c \<noteq> CHR 0x00" hp] by (simp add: c_str_def)
qed

section \<open>Properties\<close>

text \<open>
  C35: No client is lost or served twice.  The connections are exactly the sockets \<open>accept4\<close> has given, and each of them is in one place:
  its request is being read, its host resolved, its server connected to, a callback about to run, or it has been closed
  or handed to the forwarder, once.  Every call of \<open>close\<close> in \<open>hcproxy.cc\<close> closes the client of a
  connection that ends with it.
\<close>

theorem every_client_in_one_place:
  assumes "proxy_running k mu lf opt s"
  shows "map Some (rev (accepted_fds (hist (ws s)))) = map (client_fd s) [0..<brk (ps s)] \<and>
    (\<forall>a. count (parsing s + mset (map call_conn (todo s)) + resolving s + attempting s + mset (map fst (ended s))) a =
      (if a < brk (ps s) then 1 else 0)) \<and>
    map Some (closed_fds (hist (ws s))) = map (client_fd s) (closed_conns (ended s))"
proof -
  note d = proxy_invD [OF proxy_running_inv(1) [OF assms]]
  have "count (places s) a = (if a < brk (ps s) then 1 else 0)" for a
    unfolding d(8) by (simp add: distinct_count_atmost_1)
  with d(5) show ?thesis by (simp add: places_def fds_ok_def)
qed

theorem every_client_in_one_place_witness:
  "count (parsing demo_client + mset (map call_conn (todo demo_client)) + resolving demo_client + attempting demo_client +
     mset (map fst (ended demo_client))) 0 = 1"
  using every_client_in_one_place [OF demo_client_running [of True]] by (simp add: demo_client_def demo_requested_eq)

text \<open>
  C36: The proxy goes on: in every reachable state each callback that has been called returns when it
  runs, the next pass of each of the three event loops returns unless its call of \<open>epoll_wait\<close> fails (\<open>EINTR\<close>), and a client
  that \<open>Accept\<close> returns is handed to the parser.  So once these threads have started, they abort only when \<open>epoll_wait\<close>
  fails or in \<open>Accept\<close>, if the kernel behaves as \<open>proxy_env\<close>, \<open>call_env\<close>, \<open>fresh_client\<close> and \<open>wakeup_ok\<close> say.
\<close>

theorem proxy_goes_on:
  assumes "proxy_running k mu lf opt s"
  shows "(\<forall>as c bs tid t. todo s = as @ c # bs \<longrightarrow> call_env k tid c s \<longrightarrow> t \<le> dns_clock (ds s) \<longrightarrow>
      (\<exists>s'. run_call k opt t tid c (s\<lparr>todo := as @ bs\<rparr>) = Some s')) \<and>
    (wakeup_ok (parser_os k) (ps s) \<longrightarrow> (parser_pass (parser_os k) (ps s) = None \<longleftrightarrow> wait_fails (parser_os k) (ps s))) \<and>
    (wakeup_ok (conn_os k) (cs s) \<longrightarrow> (conn_pass (conn_os k) (cs s) = None \<longleftrightarrow> wait_fails (conn_os k) (cs s))) \<and>
    (wakeup_ok (fwd_os k) (fs s) \<longrightarrow> (fwd_pass (fwd_os k) lf (fwd_opt opt) (fs s) = None \<longleftrightarrow> wait_fails (fwd_os k) (fs s))) \<and>
    (\<forall>tid r. Accept (main_os k) (listen_fd s) (ws s) = Some r \<longrightarrow> fresh_client k s \<longrightarrow> tid \<noteq> loop_tid (ps s) \<longrightarrow>
      (\<exists>s'. RunProxy_body k opt tid s = Some s'))"
proof (intro conjI allI impI)
  note inv = proxy_running_inv [OF assms]
  note d = proxy_invD [OF inv(1)]
  show "\<exists>s'. run_call k opt t tid c (s\<lparr>todo := as @ bs\<rparr>) = Some s'"
    if "todo s = as @ c # bs" "call_env k tid c s" "t \<le> dns_clock (ds s)" for as c bs tid t
    using run_call_inv [OF inv that] by blast
  show "parser_pass (parser_os k) (ps s) = None \<longleftrightarrow> wait_fails (parser_os k) (ps s)" if "wakeup_ok (parser_os k) (ps s)"
    using parser_running_pass [OF d(1) that] Loop_body_waits(2) unfolding parser_pass_def by (cases "wait_fails (parser_os k) (ps s)") auto
  show "conn_pass (conn_os k) (cs s) = None \<longleftrightarrow> wait_fails (conn_os k) (cs s)" if "wakeup_ok (conn_os k) (cs s)"
    using conn_running_pass [OF d(3) that] Loop_body_waits(2) unfolding conn_pass_def by (cases "wait_fails (conn_os k) (cs s)") auto
  show "fwd_pass (fwd_os k) lf (fwd_opt opt) (fs s) = None \<longleftrightarrow> wait_fails (fwd_os k) (fs s)" if "wakeup_ok (fwd_os k) (fs s)"
    using fwd_running_pass [OF d(4) that] Loop_body_waits(2) unfolding fwd_pass_def by (cases "wait_fails (fwd_os k) (fs s)") auto
  show "\<exists>s'. RunProxy_body k opt tid s = Some s'"
    if "Accept (main_os k) (listen_fd s) (ws s) = Some r" "fresh_client k s" "tid \<noteq> loop_tid (ps s)" for tid r
  proof -
    obtain f w where r: "r = (f, w)" by (cases r)
    with that have "f \<ge> 0" "f \<notin> parser_fds (ps s)" by (auto simp: fresh_client_def)
    from parser_running_request [OF d(1) this that(3)] that(1) r show ?thesis by (auto simp: RunProxy_body_def)
  qed
qed

theorem proxy_goes_on_witness:
  "\<exists>p. parser_pass demo_parse_os demo_requested = Some p"
proof -
  have "\<not> wait_fails demo_parse_os demo_requested" by (simp add: wait_fails_def demo_parse_os_def demo_os_def)
  with proxy_goes_on [OF demo_client_running [of True]] demo_parser_wakeup show ?thesis
    by (auto simp: demo_client_def demo_kernel_def)
qed

text \<open>
  C37: The proxy connects only where it may: every address it has tried to connect to is one \<open>getaddrinfo\<close> has given for a
  host and port that some client has asked for and whose port is allowed.  What a connection waits for or has got from the
  resolver is an address for its own request.
\<close>

theorem connects_only_where_allowed:
  assumes "proxy_running k mu lf opt s"
  shows "(\<forall>f ip r. Connect f ip r \<in> set (hist (cs s)) \<longrightarrow>
      (\<exists>a hp t x n. Parser_callback a hp \<in> set (hist (ps s)) \<and> hp \<noteq> [] \<and> IsAllowedPort opt hp \<and>
        origin (ds s) x = Some (hp, t) \<and> ais (ds s) x = Some n \<and> Cast_addrinfo n = Some ip)) \<and>
    (\<forall>i a. dns_conn s i = Some a \<longrightarrow> Parser_callback a (requests (ds s) ! i) \<in> set (hist (ps s)) \<and>
      IsAllowedPort opt (requests (ds s) ! i)) \<and>
    (\<forall>a hp x. On_resolved a hp (Some x) \<in> set (todo s) \<longrightarrow>
      Parser_callback a hp \<in> set (hist (ps s)) \<and> IsAllowedPort opt hp \<and> (\<exists>t. origin (ds s) x = Some (hp, t)))"
proof -
  have r: "routed opt s" using proxy_invD [OF proxy_running_inv(1) [OF assms]] by simp
  have org: "origin (ds s) x = Some (hp, t)" if "ring_of (ds s) hp t x" for hp t x
    using that by (auto simp: ring_of_def on_ring_def)
  show ?thesis
  proof (intro conjI allI impI, goal_cases)
    case (1 f ip r')
    with r have "allowed_addr opt s ip" unfolding routed_def by blast
    then show ?case unfolding allowed_addr_def allowed_for_def resolves_to_def asked_def by blast
  next
    case (4 a hp x)
    with r have "call_ok opt s (On_resolved a hp (Some x))" by (auto simp: routed_def)
    then show ?case by (simp add: call_ok_def asked_def)
  next
    case (5 a hp x)
    with r have "call_ok opt s (On_resolved a hp (Some x))" by (auto simp: routed_def)
    then show ?case by (simp add: call_ok_def asked_def)
  next
    case (6 a hp x)
    with r have "call_ok opt s (On_resolved a hp (Some x))" by (auto simp: routed_def)
    then show ?case using org by (auto simp: call_ok_def ptr_ok_def)
  qed (use r in \<open>auto simp: routed_def asked_def\<close>)
qed

theorem connects_only_where_allowed_witness:
  "\<exists>a hp. Parser_callback a hp \<in> set (hist demo_parsed) \<and> hp \<noteq> [] \<and> IsAllowedPort default_options hp \<and>
    (\<exists>t. origin demo_answered 0 = Some (hp, t))"
proof -
  have "Connect 9 \<lparr>sa_family = AF_INET, sin_port = 80, sin_addr = 1\<rparr> EINPROGRESS \<in> set (hist (cs demo_tunnel))"
    by (simp add: demo_tunnel_def demo_connected_eq(2) demo_attempting_eq(2) demo_connecting_eq)
  from connects_only_where_allowed [OF demo_tunnel_running [of True], THEN conjunct1, rule_format, OF this] obtain a hp t x n where
    1: "Parser_callback a hp \<in> set (hist (ps demo_tunnel))" "hp \<noteq> []" "IsAllowedPort default_options hp"
      "origin (ds demo_tunnel) x = Some (hp, t)" by blast
  then have "x = 0" by (simp add: demo_tunnel_def demo_answered_def demo_begin_def DnsResolver_ctor_def split: if_splits)
  with 1 show ?thesis unfolding demo_tunnel_def by auto
qed

text \<open>
  C38: Every tunnel leads where its client asked.  When the proxy has handed a client's socket and a server's socket to the forwarder, the
  client's socket is the one its connection was accepted with; what was read from it is a complete request;
  the port in this request is allowed; and the server's socket is the one that the connector, on behalf of
  this connection, has reported as connected to an address that \<open>getaddrinfo\<close> has given for the host and port in this request.
\<close>

theorem tunnels_lead_where_asked:
  assumes "proxy_running k mu lf opt s" and "(a, Some server) \<in> set (ended s)"
  shows "\<exists>client request ip i t x n.
    client_fd s a = Some client \<and>
    session a (hist (ps s)) = Some (client, request, False) \<and> is_request request \<and>
    IsAllowedPort opt (host_port_of request) \<and>
    origin (ds s) x = Some (host_port_of request, t) \<and> ais (ds s) x = Some n \<and> Cast_addrinfo n = Some ip \<and>
    conn_conn s i = Some a \<and> i < length (attempts (hist (cs s))) \<and> attempts (hist (cs s)) ! i = (server, ip) \<and>
    Connector_callback (Some i) server \<in> set (hist (cs s))"
proof -
  note d = proxy_invD [OF proxy_running_inv(1) [OF assms(1)]]
  from d(9) assms(2) have srv: "server \<ge> 0" "given s a server" unfolding routed_def by blast+
  then obtain i where i: "conn_conn s i = Some a" "Connector_callback (Some i) server \<in> set (hist (cs s))"
    by (auto simp: given_def)
  have m: "matched (cs s)" using conn_running_good [OF d(3)] by (simp add: conn_good_def)
  then have len: "i < length (attempts (hist (cs s)))" and fst: "server = fst (attempts (hist (cs s)) ! i)"
    using i(2) srv(1) unfolding matched_def by force+
  from d(9) i(1) have "allowed_for opt s a (snd (attempts (hist (cs s)) ! i))" unfolding routed_def by blast
  then obtain hp t x n where hp: "asked opt s a hp" "origin (ds s) x = Some (hp, t)" "ais (ds s) x = Some n"
    "Cast_addrinfo n = Some (snd (attempts (hist (cs s)) ! i))" unfolding allowed_for_def resolves_to_def by blast
  have "said (pending (ps s)) (ps s)" using parser_running_good [OF d(1)] by (simp add: parser_good_def)
  from said_callback [OF this, of a hp] hp(1) obtain f bs where
    s: "session a (hist (ps s)) = Some (f, bs, False)" "is_request bs" "hp = host_port_of bs" by (auto simp: asked_def)
  have "a \<in># places s" using assms(2) by (force simp: places_def)
  then have "a \<in> dom (client_fd s)" using d(5,8) by (simp add: fds_ok_def)
  moreover have "f = the (client_fd s a)" using d(5) s(1) unfolding fds_ok_def fd_by_def by blast
  ultimately have "client_fd s a = Some f" by auto
  moreover have "IsAllowedPort opt hp" using hp(1) by (simp add: asked_def)
  ultimately show ?thesis
    using s hp(2-4) i len fst by (intro exI [of _ f] exI [of _ bs] exI [of _ "snd (attempts (hist (cs s)) ! i)"]
      exI [of _ i] exI [of _ t] exI [of _ x] exI [of _ n]) (simp add: prod_eq_iff)
qed

theorem tunnels_lead_where_asked_witness:
  "session 0 (hist demo_parsed) = Some (5, demo_request, False) \<and> host_port_of demo_request = ''h:1'' \<and>
    (\<exists>ip i. i < length (attempts (hist demo_connected)) \<and> attempts (hist demo_connected) ! i = (9, ip))"
proof -
  have "(0, Some 9) \<in> set (ended demo_tunnel)" by (simp add: demo_tunnel_def)
  from tunnels_lead_where_asked [OF demo_tunnel_running [of True] this] obtain client request ip i where
    1: "client_fd demo_tunnel 0 = Some client" "session 0 (hist (ps demo_tunnel)) = Some (client, request, False)"
      "i < length (attempts (hist (cs demo_tunnel)))" "attempts (hist (cs demo_tunnel)) ! i = (9, ip)" by blast
  moreover have "session 0 (hist demo_parsed) = Some (5, demo_request, False)"
    by (simp add: demo_parsed_eq(2) demo_waiting_eq(2) demo_parser_eq demo_reads_def demo_request_def CRLFCRLF_def last_reading_def)
  moreover have "host_port_of demo_request = ''h:1''" by code_simp
  ultimately show ?thesis by (auto simp: demo_tunnel_def)
qed

text \<open>
  C39: Every tunnel belongs to one connection.  Each client link on the heap of the forwarder has the socket that
  a connection was accepted with, the link at its other end has the socket that was handed over for this connection, and what the
  history of the forwarder's system calls says has been spliced to either socket is a prefix of what has been spliced from the other
  one, after the response to the client.  So a client never gets bytes of another client's server, or its own.
\<close>

theorem tunnels_join_their_connections:
  assumes "proxy_running k mu lf opt s" and "links (fs s) x = Some l" and "is_client l"
  shows "\<exists>y r e f a. other l = Some y \<and> links (fs s) y = Some r \<and> other r = Some x \<and> \<not> is_client r \<and>
    ehs (fs s) x = Some e \<and> ehs (fs s) y = Some f \<and>
    client_fd s a = Some (eh_fd e) \<and> (a, Some (eh_fd f)) \<in> set (ended s) \<and>
    prefix (sent (eh_fd e) x (hist (fs s))) (kResponse @ received (eh_fd f) y (hist (fs s))) \<and>
    prefix (sent (eh_fd f) y (hist (fs s))) (received (eh_fd e) x (hist (fs s))) \<and>
    (open_link l \<longrightarrow> owner (hist (fs s)) (eh_fd e) = Some x) \<and> (open_link r \<longrightarrow> owner (hist (fs s)) (eh_fd f) = Some y)"
proof -
  note run = proxy_invD(4) [OF proxy_running_inv(1) [OF assms(1)]]
  from tunnel_delivers [OF run assms(2)] obtain y r where y: "other l = Some y" "links (fs s) y = Some r" "other r = Some x"
    "is_client r = (\<not> is_client l)" "delivers (fs s) x y" by blast
  have "delivers (fs s) y x" using tunnel_delivers [OF run y(2)] y(3) by auto
  with y(5) assms(2,3) y(2,4) obtain e f where e: "ehs (fs s) x = Some e" "ehs (fs s) y = Some f"
    "prefix (sent (eh_fd e) x (hist (fs s))) (kResponse @ received (eh_fd f) y (hist (fs s)))"
    "prefix (sent (eh_fd f) y (hist (fs s))) (received (eh_fd e) x (hist (fs s)))"
    "open_link l \<longrightarrow> owner (hist (fs s)) (eh_fd e) = Some x" "open_link r \<longrightarrow> owner (hist (fs s)) (eh_fd f) = Some y"
    by (auto simp: delivers_def Let_def)
  have "joins s (eh_fd e) (eh_fd f)"
    using proxy_running_tunnels [OF assms(1)] assms(2,3) y e unfolding tunnels_ok_def paired_def by blast
  then obtain a where "client_fd s a = Some (eh_fd e)" "(a, Some (eh_fd f)) \<in> set (ended s)" by (auto simp: joins_def)
  with y e assms(3) show ?thesis by blast
qed

theorem tunnels_join_their_connections_witness:
  "\<exists>s l y r e f. proxy_running demo_kernel demo_mu True default_options s \<and> links (fs s) 0 = Some l \<and> links (fs s) y = Some r \<and>
     ehs (fs s) 0 = Some e \<and> eh_fd e = 5 \<and> ehs (fs s) y = Some f \<and> eh_fd f = 9 \<and>
     prefix (sent 5 0 (hist (fs s))) (kResponse @ received 9 y (hist (fs s))) \<and>
     prefix (sent 9 y (hist (fs s))) (received 5 0 (hist (fs s)))"
proof -
  from demo_linked obtain s l where s: "proxy_running demo_kernel demo_mu True default_options s" "links (fs s) 0 = Some l"
    "is_client l" "client_fd s = client_fd demo_tunnel" "ended s = ended demo_tunnel" by blast
  have d: "client_fd demo_tunnel = [0 \<mapsto> 5]" "ended demo_tunnel = [(0, Some 9)]" by (simp_all add: demo_tunnel_def demo_client_def)
  from tunnels_join_their_connections [OF s(1-3)] s(4,5) d obtain y r e f where "links (fs s) y = Some r" "ehs (fs s) 0 = Some e" "ehs (fs s) y = Some f"
    "eh_fd e = 5" "eh_fd f = 9" "prefix (sent 5 0 (hist (fs s))) (kResponse @ received 9 y (hist (fs s)))"
    "prefix (sent 9 y (hist (fs s))) (received 5 0 (hist (fs s)))"
    by (auto split: if_splits)
  with s(1,2) show ?thesis by blast
qed

text \<open>
  C40: The port that is checked is the port that is resolved: after \<open>IsAllowedPort\<close>, \<open>ResolveSync\<close> asks
  \<open>getaddrinfo\<close> only for ports among the allowed ones, so what \<open>getaddrinfo\<close> says for other ports does not
  matter, whatever bytes the request has.
\<close>

theorem only_allowed_ports_resolved:
  assumes "IsAllowedPort opt hp" and "allowed_ports opt \<noteq> {}"
    and "\<And>host port. port \<in> allowed_ports opt \<Longrightarrow> gai host (c_str port) = gai' host (c_str port)"
  shows "ResolveSync gai now hp s = ResolveSync gai' now hp s"
proof (cases "strchr (c_str hp) (CHR '':'')")
  case (Some p)
  from port_of_c_str [OF Some] assms(1,2) have "drop (p + 1) hp \<in> allowed_ports opt"
    "drop (p + 1) (c_str hp) = c_str (drop (p + 1) hp)" by (simp_all add: IsAllowedPort_def Let_def)
  with assms(3) Some show ?thesis by (simp add: ResolveSync_def Let_def)
qed (simp add: ResolveSync_def)

theorem only_allowed_ports_resolved_witness:
  "ResolveSync demo_gai 7 ''h:443'' (DnsResolver_ctor 0) =
     ResolveSync (\<lambda>host port. if port = ''443'' then demo_gai host port else Inl 8) 7 ''h:443'' (DnsResolver_ctor 0)"
  by (rule only_allowed_ports_resolved [where opt = "default_options\<lparr>allowed_ports := {''443''}\<rparr>"])
    (simp_all add: IsAllowedPort_def sv_find_def find_first_of_def Let_def c_str_def)

text \<open>
  What has been done when the proxy has started: first of all \<open>SIGPIPE\<close> is ignored, then, if the options say so, the
  limit of open files is set and the hard limit kept, then the first address of \<open>getaddrinfo\<close> is bound, with
  \<open>SO_REUSEADDR\<close> set, and listened on.
\<close>

theorem RunProxy_start_order:
  assumes "RunProxy_start k gai now opt = Some s"
  shows "\<exists>ip rest lims. gai (c_str (listen_addr (acceptor_opt opt))) (dec (unat (listen_port (acceptor_opt opt)))) = Inr (ip # rest) \<and>
    sa_family ip = AF_INET \<and>
    hist (ws s) = [Listen (listen_fd s) (accept_queue_size (acceptor_opt opt)) 0, Bind (listen_fd s) ip 0,
      Setsockopt (listen_fd s) SO_REUSEADDR 0, Socket (Inr (listen_fd s))] @ lims @ [Ignore_sigpipe] \<and>
    (if max_num_open_files opt = 0 then lims = []
     else \<exists>cur hard. lims = [Setrlimit (max_num_open_files opt, hard) 0, Getrlimit (Inr (cur, hard))])"
proof -
  from assms obtain w l w' where lim: "set_rlimit (main_os k) opt \<lparr>hist = [Ignore_sigpipe]\<rparr> = Some w"
    and acc: "Acceptor_ctor (main_os k) gai (acceptor_opt opt) w = Some (l, w')" and s: "listen_fd s = l" "ws s = w'"
    by (auto simp: RunProxy_start_def log_event_def Let_def split: bind_splits)
  from lim obtain lims where lims: "hist w = lims @ [Ignore_sigpipe]" "if max_num_open_files opt = 0 then lims = []
     else \<exists>cur hard. lims = [Setrlimit (max_num_open_files opt, hard) 0, Getrlimit (Inr (cur, hard))]"
    by (auto simp: set_rlimit_def sys_defs Let_def split: bind_splits sum.splits if_splits)
  from acc obtain ip rest where ip: "gai (c_str (listen_addr (acceptor_opt opt))) (dec (unat (listen_port (acceptor_opt opt)))) = Inr (ip # rest)"
    "sa_family ip = AF_INET"
    "hist w' = [Listen l (accept_queue_size (acceptor_opt opt)) 0, Bind l ip 0, Setsockopt l SO_REUSEADDR 0, Socket (Inr l)] @ hist w"
    by (auto simp: Acceptor_ctor_def Acceptor_Resolve_def Cast_sockaddr_def SetSockOpt_def sys_defs Let_def
        split: bind_splits sum.splits list.splits if_splits)
  with lims s show ?thesis by (intro exI [of _ ip] exI [of _ rest] exI [of _ lims]) simp
qed

theorem RunProxy_start_order_witness:
  "\<exists>rest. demo_gai ''0.0.0.0'' (dec 8889) = Inr (\<lparr>sa_family = AF_INET, sin_port = 80, sin_addr = 1\<rparr> # rest)"
  using RunProxy_start_order [OF demo_proxy_start]
  by (simp add: default_options_def default_acceptor_options_def demo_proxy_def c_str_def)

end
