(* ===== verification/Spec2Isabelle.thy ===== *)
theory Spec2Isabelle
  imports Forwarder_Pairs Parser_Progress Connector_Progress Thread_Pool_Correct Dns_Correct Dns_Pool_Correct Acceptor Logging Proxy_Correct
begin

text \<open>
  A model of hcproxy, a proxy for HTTP \<open>CONNECT\<close> requests on Linux, and proofs of what it guarantees.  All
  files named here are under \<open>src/src\<close>.

  \<^bold>\<open>The program.\<close>  \<open>hcproxy.cc\<close> accepts clients (\<open>acceptor.cc\<close>) in the main thread and passes every socket through a
  pipeline: the parser (\<open>parser.cc\<close>) reads the request, the resolver (\<open>dns.cc\<close>) looks up the host in a cache that a thread
  pool (\<open>thread_pool.cc\<close>) fills, the connector (\<open>connector.cc\<close>) connects to the server, and the forwarder (\<open>forwarder.cc\<close>)
  moves bytes both ways through pipes.  Parser, connector and forwarder each are a class of
  \<open>EventHandler\<close>s on an \<open>EventLoop\<close> (\<open>event_loop.cc\<close>) with a thread of its own, on top of \<open>epoll.cc\<close> and the intrusive list
  \<open>list.cc\<close> of handlers in the order of their deadlines.  A stage passes a connection on by calling the
  callback it was given.

  \<^bold>\<open>How the model is written.\<close>  A class is a record of its fields; objects that are shared through pointers live in heaps,
  maps from addresses, and addresses are never used twice, so a use after free is a lookup that fails.  An operation is a
  function into \<open>option\<close>: \<open>None\<close> stands for a failed \<open>CHECK\<close> (the process aborts), a null or dangling pointer, and
  for a loop that never ends (those loops are \<open>partial_function (option)\<close>; no fuel is used anywhere).  So that an operation
  neither aborts nor hangs is the statement that its result is \<open>Some\<close>.  The passes of the event loops fail exactly when their call of \<open>epoll_wait\<close> fails
  (\<open>wait_fails\<close>), as it does when a signal interrupts it: \<open>epoll.cc\<close> aborts then.  The system calls are in
  \<open>Posix_Env\<close>: the kernel, the peers and the clock are the parameter \<open>os\<close>, which
  answers each call from the history of all calls before it, and every wrapper \<open>sys_f\<close> records the call in the
  history; the record field \<open>hist\<close> of every state is this history, newest first.  Theorems quantify over \<open>os\<close> and assume of it only the named hypotheses
  at the end of \<open>Posix_Env\<close>, each a documented property of a system call, or that the peers of the forwarder supply
  finitely many bytes between two waits (\<open>bounded_supply\<close>).  \<open>getaddrinfo\<close> is a parameter \<open>gai\<close> in the same way.
  Calls of the callbacks of parser and connector are events of the history too.

  \<^bold>\<open>Theories and what they model.\<close>

  \<^item> \<open>Hcp_Prelude\<close>: \<open>check.h\<close>, names of the types, shared lemmas.  \<open>Intrusive_List\<close>: \<open>list.h\<close>, \<open>list.cc\<close>; the heap of
    nodes represents a sequence (\<open>dll\<close>), and \<open>AddTail\<close> and \<open>Erase\<close> refine appending and removing.
  \<^item> \<open>Posix_Env\<close>, \<open>Sock\<close>, \<open>Demo_Kernel\<close>: system calls, \<open>sock.cc\<close>, and a concrete kernel the witnesses run on.
  \<^item> \<open>Event_Loop\<close>: \<open>bits.h\<close>, \<open>epoll.cc\<close>, \<open>event_loop.cc\<close> up to \<open>Loop\<close>, and the invariant \<open>evl_inv\<close> (list, deadlines, reference counts and
    epoll's interest list agree).  \<open>Event_Dispatch\<close>: the body of \<open>Loop\<close> and the interface between the loop and the classes of handlers, the locale
    \<open>event_handlers\<close>, in which one pass of the loop is proved to return for every class that keeps the contract.
    \<open>Event_Progress\<close>: when a handler was registered, deadlines, and what every infinite run of a loop brings about.
  \<^item> \<open>Link_Buffer\<close>, \<open>Forwarder\<close>: \<open>forwarder.cc\<close>.  \<open>Forwarder_Safety\<close>, \<open>Forwarder_Loop\<close>: the invariant of tunnels (who owns whom, which bytes
    are where) and the interpretation of \<open>event_handlers\<close> for links.  \<open>Forwarder_Correct\<close>: properties.
    \<open>Forwarder_Trace\<close>: which bytes the history says have been spliced from and to the socket of each link (\<open>received\<close>, \<open>sent\<close>).
    \<open>Forwarder_Kept\<close>: every operation keeps the history variables of the buffers equal to these bytes, and the two ends of a tunnel.
    \<open>Forwarder_Pairs\<close>: so does the loop, by a second interpretation of \<open>event_handlers\<close>; hence what arrives at one end of a tunnel is what was read
    at the other.
  \<^item> \<open>Parser\<close>, \<open>Parser_Session\<close> (what a client has sent), \<open>Parser_Loop\<close>, \<open>Parser_Correct\<close> and \<open>Connector\<close>, \<open>Connector_Loop\<close>, \<open>Connector_Correct\<close>: the same for
    \<open>parser.cc\<close> and \<open>connector.cc\<close>.  \<open>Parser_Progress\<close>, \<open>Connector_Progress\<close>: in every infinite run in which the loop
    keeps being scheduled, each request and each attempt is answered.
  \<^item> \<open>Work_Queue\<close>: the priority queue of \<open>thread_pool.h\<close> with the locale \<open>priority_queue\<close> as its contract.  \<open>Thread_Pool\<close>: \<open>thread_pool.cc\<close>, one step per
    critical section; a condition variable is the list of its waiters, which may also wake up
    spuriously.  \<open>Thread_Pool_Safety\<close>, \<open>Thread_Pool_Correct\<close>: the invariant, the refinement to a bag of works, and that no wake-up is
    lost.
  \<^item> \<open>Addr\<close>: \<open>addr.cc\<close>.  \<open>Dns\<close>: \<open>dns.cc\<close>, one step per critical section and per call outside of one; the thread pool is here the
    bag of due calls that \<open>Dns_Pool\<close> proves it to be.  \<open>Dns_Ring\<close>: circular lists of addresses.  \<open>Dns_Safety\<close>, \<open>Dns_Progress\<close>,
    \<open>Dns_Correct\<close>: the invariant of the cache, progress, properties.
  \<^item> \<open>Dns_Pool\<close>: the resolver on the model of its thread pool, whose works are calls of \<open>ProcessCacheEntry\<close>; each of its steps
    is shown to be a step of \<open>Dns\<close>, so the proxy, which is built on \<open>Dns\<close>, may have the real pool inside.  \<open>Dns_Rest\<close>,
    \<open>Dns_Pool_Correct\<close>: without new calls and without time passing it comes to rest, by a measure of the work that is left, and then
    every callback has been called; this needs positive refresh periods.
  \<^item> \<open>Acceptor\<close>: \<open>acceptor.cc\<close>.  \<open>Logging\<close>: \<open>logging.h\<close>, \<open>logging.cc\<close>.
  \<^item> \<open>Proxy\<close>: \<open>hcproxy.cc\<close>, the parts side by side, with the callbacks that have been called and not run yet; its steps are a new client, a pass of one
    loop, a step of the resolver, a callback.  \<open>Proxy_Inv\<close>, \<open>Proxy_Safety\<close>: the
    invariant that every client is in exactly one place, and where every address and socket comes from.  \<open>Proxy_Demo\<close>: a complete run,
    from a client's request to its tunnel.  \<open>Proxy_Tunnels\<close>: every tunnel of the forwarder is that of a connection.
    \<open>Proxy_Correct\<close>: the properties of the whole; \<open>tunnels_lead_where_asked\<close> and \<open>tunnels_join_their_connections\<close>
    together say what the proxy is for: the bytes a client gets, after the response, are those that the server it asked for has sent, in
    order, and the other way round.

  \<^bold>\<open>Simplifications.\<close>  Times are integers of nanoseconds without overflow, and so are the \<open>int64_t\<close> counters of \<open>dns.cc\<close> and \<open>thread_pool.cc\<close> (the
  conversion of a timeout to \<open>int\<close> milliseconds in \<open>epoll.cc\<close> does wrap around).  The wake-up pipe of a loop holds any
  number of functions, where the real one makes \<open>Schedule\<close> block when it is full.  Each event loop has a history of
  system calls of its own, so the hypotheses that relate two parts, that a new descriptor is not one still in use,
  are premises of the steps (\<open>fresh_socket\<close>, \<open>fresh_client\<close>, \<open>fresh_tunnel\<close>).  A callback runs in the code inside the call of its
  caller and here as a step after it; it uses only other parts, so nothing comes in between that could not have come
  after.  The memory of old results of \<open>getaddrinfo\<close> is not freed, as if some \<open>shared_ptr\<close> were always left.

  \<^bold>\<open>Not modelled.\<close>  The log messages of the other components (\<open>Logging\<close> models the statements as such; the assertions made while printing an
  address are kept), the usage message of \<open>main\<close>, running out of memory, destructors the program never runs (of \<open>EPoll\<close>: its only
  owner is never destroyed), and \<open>time.h\<close>, which has only type aliases, here \<open>time\<close> and \<open>duration\<close>.
\<close>

end
